(* ===== verification/Prelude.thy ===== *)
theory Prelude
  imports Main "HOL-Library.Word" "HOL-Library.Monad_Syntax"
begin

text \<open>
  The shared vocabulary of the development: C's integer types, the error codes
  of the framework, byte memory, and the generic lemmas about them.

  \<^item> Unsigned C integers are words (\<open>u8\<close>, \<open>u16\<close>, \<open>u32\<close>, \<open>u64\<close>) and wrap around.
    A signed C \<open>int\<close> is HOL's \<open>int\<close>: signed overflow is undefined in C, and where a
    conversion truncates the model writes \<open>c_int\<close>.
  \<^item> A heap block or an array is the list of its bytes. An operation that touches
    memory returns an \<open>option\<close>: \<open>None\<close> is undefined behaviour (an access outside the
    block, a NULL dereference, a division by zero), so a theorem that states
    \<open>f x = Some \<dots>\<close> also states that the code stays inside its memory.
  \<^item> \<open>malloc\<close> and \<open>calloc\<close> are an argument \<open>alloc\<close> of the operations that check their
    result: it says for a size whether the allocation succeeds.
\<close>

unbundle bit_operations_syntax

type_synonym u8 = "8 word"
type_synonym u16 = "16 word"
type_synonym u32 = "32 word"
type_synonym u64 = "64 word"
type_synonym bytes = "u8 list"
type_synonym allocator = "nat \<Rightarrow> bool"

named_theorems mem_simps \<open>reads and writes of byte memory\<close>
named_theorems node_simps \<open>a block of memory read as an array of nodes\<close>

section \<open>Error codes\<close>

text \<open>
  The enumerators of \<open>awoke_error.h\<close>, and after them the \<open>et_\<close> codes that the library
  sources return; the header of this revision declares their successors as \<open>err_\<close>.
\<close>

datatype err_type =
    et_ok | et_finish | et_unfinished | et_yield | et_noneed | et_reboot | et_killed | et_oneed
  | err_common | err_param | err_range | err_oom | err_exist | err_notfind | err_full | err_empty
  | err_timeout | err_locked | err_notready | err_notsupport | err_match | err_checksum
  | err_fail | err_open | err_send | err_unfinished | err_incomplete | err_sock_creat
  | et_param | et_full | et_empty | et_nomem | et_fail | et_exist | et_mem_limit | et_locked
  | et_lock_init | et_lock_timeout | et_parser | et_pipe | et_evl_create | et_waitev_finish
  | et_sock_creat | et_sock_set | et_sock_conn | et_sock_send | et_sock_recv | et_sock_accept
  | et_worker_mutex | et_worker_condition

section \<open>Flag masks\<close>

definition mask_exst :: "u16 \<Rightarrow> u16 \<Rightarrow> bool" where
  "mask_exst m fl \<longleftrightarrow> m AND fl \<noteq> 0"

definition mask_push :: "u16 \<Rightarrow> u16 \<Rightarrow> u16" where
  "mask_push m fl = m OR fl"

definition mask_pull :: "u16 \<Rightarrow> u16 \<Rightarrow> u16" where
  "mask_pull m fl = m AND (NOT fl)"

definition mask_only :: "u16 \<Rightarrow> u16 \<Rightarrow> bool" where
  "mask_only m fl \<longleftrightarrow> m AND (NOT fl) = 0"

section \<open>Signed integers\<close>

text \<open>The value a 32-bit signed \<open>int\<close> takes when a wider integer is stored in it.\<close>

definition c_int :: "int \<Rightarrow> int" where
  "c_int n = signed_take_bit 31 n"

text \<open>C's \<open>%\<close> truncates towards zero and is undefined for a zero divisor.\<close>

definition c_rem :: "int \<Rightarrow> int \<Rightarrow> int option" where
  "c_rem a b = (if b = 0 then None else Some (sgn a * (\<bar>a\<bar> mod \<bar>b\<bar>)))"

definition c_div :: "int \<Rightarrow> int \<Rightarrow> int option" where
  "c_div a b = (if b = 0 then None else Some (sgn a * sgn b * (\<bar>a\<bar> div \<bar>b\<bar>)))"

text \<open>
  A pointer to a heap object as its owner sees it: NULL, to a live object, or to one
  that has been freed. Freeing through a dangling pointer is undefined.
\<close>

datatype 'a cptr = Null | Live 'a | Freed

definition mem_free :: "'a cptr \<Rightarrow> 'a cptr option" where
  "mem_free p = (case p of Null \<Rightarrow> Some Null | Live _ \<Rightarrow> Some Freed | Freed \<Rightarrow> None)"

section \<open>Byte memory\<close>

text \<open>\<open>memcpy\<close> out of a block, and into a block, at a byte offset.\<close>

definition mem_read :: "'a list \<Rightarrow> int \<Rightarrow> nat \<Rightarrow> 'a list option" where
  "mem_read m off n =
     (if 0 \<le> off \<and> nat off + n \<le> length m then Some (take n (drop (nat off) m)) else None)"

definition mem_write :: "'a list \<Rightarrow> int \<Rightarrow> 'a list \<Rightarrow> 'a list option" where
  "mem_write m off bs =
     (if 0 \<le> off \<and> nat off + length bs \<le> length m
      then Some (take (nat off) m @ bs @ drop (nat off + length bs) m) else None)"

text \<open>
  \<open>realloc\<close> keeps the common prefix of the old and the new block. With size zero it may
  release the block and return NULL, after which the caller's pointer dangles: undefined here.
\<close>

definition mem_realloc :: "allocator \<Rightarrow> (nat \<Rightarrow> 'a) \<Rightarrow> 'a list \<Rightarrow> nat \<Rightarrow> 'a list option option" where
  "mem_realloc alloc junk m n =
     (if n = 0 then None
      else if alloc n then Some (Some (take n m @ map junk [length m..<n]))
      else Some None)"

text \<open>An element of an array of any type, by a C index.\<close>

definition arr_get :: "'a list \<Rightarrow> int \<Rightarrow> 'a option" where
  "arr_get xs i = (if 0 \<le> i \<and> nat i < length xs then Some (xs ! nat i) else None)"

definition arr_set :: "'a list \<Rightarrow> int \<Rightarrow> 'a \<Rightarrow> 'a list option" where
  "arr_set xs i x = (if 0 \<le> i \<and> nat i < length xs then Some (xs[nat i := x]) else None)"

abbreviation zeros :: "nat \<Rightarrow> bytes" where
  "zeros n \<equiv> replicate n 0"

text \<open>The \<open>i\<close>-th node of a block that holds nodes of \<open>ns\<close> bytes each.\<close>

definition node_at :: "nat \<Rightarrow> bytes \<Rightarrow> nat \<Rightarrow> bytes" where
  "node_at ns m i = take ns (drop (i * ns) m)"

text \<open>An unsigned integer in memory, its low byte first.\<close>

primrec le_bytes :: "nat \<Rightarrow> nat \<Rightarrow> bytes" where
  "le_bytes 0 x = []"
| "le_bytes (Suc n) x = of_nat (x mod 256) # le_bytes n (x div 256)"

primrec le_nat :: "bytes \<Rightarrow> nat" where
  "le_nat [] = 0"
| "le_nat (b # bs) = unat b + 256 * le_nat bs"

section \<open>Lemmas: masks\<close>

lemma c_int_id: "0 \<le> n \<Longrightarrow> n < 2147483648 \<Longrightarrow> c_int n = n"
  by (simp add: c_int_def signed_take_bit_int_eq_self_iff)

lemma c_rem_nonneg: "0 \<le> a \<Longrightarrow> 0 < b \<Longrightarrow> c_rem a b = Some (a mod b)"
  by (cases "a = 0") (simp_all add: c_rem_def)

lemma c_div_nonneg: "0 \<le> a \<Longrightarrow> 0 < b \<Longrightarrow> c_div a b = Some (a div b)"
  by (cases "a = 0") (simp_all add: c_div_def)

lemma unat_u32_less: "unat (x::u32) < 4294967296"
  by (rule order.strict_trans2[OF unsigned_less]) simp

lemma unat_u16_less: "unat (x::u16) < 65536"
  by (rule order.strict_trans2[OF unsigned_less]) simp

lemma unat_u8_less: "unat (x::u8) < 256"
  by (rule order.strict_trans2[OF unsigned_less]) simp

lemma mask_exst_push_same: "fl \<noteq> 0 \<Longrightarrow> mask_exst (mask_push m fl) fl"
  by (simp add: mask_exst_def mask_push_def word_ao_absorbs)

lemma mask_exst_push_keeps: "mask_exst m fl \<Longrightarrow> mask_exst (mask_push m f') fl"
  by (auto simp: mask_exst_def mask_push_def bit_eq_iff bit_simps)

lemma mask_exst_pull_same: "\<not> mask_exst (mask_pull m fl) fl"
  by (simp add: mask_exst_def mask_pull_def word_bw_assocs)

section \<open>Lemmas: memory\<close>

lemma mem_read_Some [mem_simps]:
  "0 \<le> off \<Longrightarrow> nat off + n \<le> length m \<Longrightarrow> mem_read m off n = Some (take n (drop (nat off) m))"
  by (simp add: mem_read_def)

lemma mem_write_Some [mem_simps]:
  "0 \<le> off \<Longrightarrow> nat off + length bs \<le> length m \<Longrightarrow>
     mem_write m off bs = Some (take (nat off) m @ bs @ drop (nat off + length bs) m)"
  by (simp add: mem_write_def)

lemma mem_read_length: "mem_read m off n = Some bs \<Longrightarrow> length bs = n"
  by (auto simp: mem_read_def split: if_splits)

lemma mem_write_length: "mem_write m off bs = Some m' \<Longrightarrow> length m' = length m"
  by (auto simp: mem_write_def split: if_splits)

lemma arr_get_Some [mem_simps]: "0 \<le> i \<Longrightarrow> nat i < length xs \<Longrightarrow> arr_get xs i = Some (xs ! nat i)"
  by (simp add: arr_get_def)

lemma arr_set_Some [mem_simps]: "0 \<le> i \<Longrightarrow> nat i < length xs \<Longrightarrow> arr_set xs i x = Some (xs[nat i := x])"
  by (simp add: arr_set_def)

section \<open>Lemmas: integers in memory\<close>

lemma le_bytes_length [simp]: "length (le_bytes n x) = n"
  by (induction n arbitrary: x) simp_all

lemma le_nat_bytes: "le_nat (le_bytes n x) = x mod 256 ^ n"
proof (induction n arbitrary: x)
  case (Suc n)
  have "unat (of_nat (x mod 256) :: u8) = x mod 256" by (simp add: unat_of_nat)
  then have "le_nat (le_bytes (Suc n) x) = x mod 256 + 256 * (x div 256 mod 256 ^ n)" using Suc.IH by simp
  also have "\<dots> = x mod (256 * 256 ^ n)" by (simp add: mod_mult2_eq)
  finally show ?case by simp
qed simp

section \<open>Lemmas: blocks as arrays of nodes\<close>

lemma node_fits: "i < k \<Longrightarrow> k * ns \<le> n \<Longrightarrow> i * ns + ns \<le> (n::nat)"
proof -
  assume "i < k" "k * ns \<le> n"
  then have "Suc i * ns \<le> k * ns" by (intro mult_le_mono1) simp
  with \<open>k * ns \<le> n\<close> show ?thesis by simp
qed

lemma node_at_length [node_simps]:
  "i * ns + ns \<le> length m \<Longrightarrow> length (node_at ns m i) = ns"
  by (simp add: node_at_def)

lemma mem_read_node [node_simps]:
  "i * ns + ns \<le> length m \<Longrightarrow> mem_read m (int i * int ns) ns = Some (node_at ns m i)"
  by (simp add: mem_read_def node_at_def nat_mult_distrib)

lemma take_drop_prefix:
  "a + n \<le> b \<Longrightarrow> b \<le> length m \<Longrightarrow> take n (drop a (take b m @ r)) = take n (drop a m)"
  by (simp add: drop_take min_absorb1)

lemma take_drop_suffix:
  "b + length x \<le> a \<Longrightarrow> b + length x \<le> length m \<Longrightarrow> length x = n \<Longrightarrow>
     take n (drop a (take b m @ x @ drop (b + n) m)) = take n (drop a m)"
  by simp

lemma mem_write_node:
  assumes "i * ns + ns \<le> length m" "length x = ns"
  shows "\<exists>m'. mem_write m (int i * int ns) x = Some m' \<and> length m' = length m \<and>
           node_at ns m' i = x \<and> (\<forall>j. j \<noteq> i \<longrightarrow> node_at ns m' j = node_at ns m j)"
proof -
  let ?m' = "take (i * ns) m @ x @ drop (i * ns + ns) m"
  have "mem_write m (int i * int ns) x = Some ?m'"
    using assms by (simp add: mem_write_def nat_mult_distrib)
  moreover have "length ?m' = length m" using assms by simp
  moreover have "node_at ns ?m' i = x" using assms by (simp add: node_at_def)
  moreover have "node_at ns ?m' j = node_at ns m j" if "j \<noteq> i" for j
  proof (cases "j < i")
    case True
    then have "j * ns + ns \<le> i * ns" by (metis node_fits order_refl)
    then show ?thesis using assms unfolding node_at_def by (intro take_drop_prefix) auto
  next
    case False
    with that have "i * ns + ns \<le> j * ns" using node_fits[of i j ns "j * ns"] by simp
    then show ?thesis using assms unfolding node_at_def by (intro take_drop_suffix) auto
  qed
  ultimately show ?thesis by blast
qed

text \<open>
  A block read as the list of its first \<open>n\<close> nodes, and what a write of one node
  does to that list.
\<close>

definition nodes :: "nat \<Rightarrow> bytes \<Rightarrow> nat \<Rightarrow> bytes list" where
  "nodes ns m n = map (node_at ns m) [0..<n]"

lemma nodes_length [simp]: "length (nodes ns m n) = n"
  by (simp add: nodes_def)

lemma nodes_nth [simp]: "i < n \<Longrightarrow> nodes ns m n ! i = node_at ns m i"
  by (simp add: nodes_def)

lemma nodes_0 [simp]: "nodes ns m 0 = []"
  by (simp add: nodes_def)

lemma nodes_Suc: "nodes ns m (Suc n) = nodes ns m n @ [node_at ns m n]"
  by (simp add: nodes_def)

lemma nodes_eqI:
  "(\<And>i. i < n \<Longrightarrow> node_at ns m i = node_at ns m' i) \<Longrightarrow> nodes ns m n = nodes ns m' n"
  by (simp add: nodes_def)

lemma nodes_set_length:
  "n * ns \<le> length m \<Longrightarrow> x \<in> set (nodes ns m n) \<Longrightarrow> length x = ns"
  by (auto simp: nodes_def node_at_length[OF node_fits])

text \<open>Indexing into a list with one element inserted.\<close>

lemma nth_insert_after:
  "k < j \<Longrightarrow> j \<le> length xs \<Longrightarrow> (take k xs @ [u] @ drop k xs) ! j = xs ! (j - 1)"
  by (simp add: nth_append nth_Cons')


lemma dropWhile_shorter: "dropWhile P xs = c # r \<Longrightarrow> length r < length xs"
  by (metis length_dropWhile_le length_Cons Suc_le_eq)

lemma drop_two:
  assumes "drop i s = a # b # r"
  shows "s ! i = a" "s ! Suc i = b" "drop (i + 2) s = r" "Suc i < length s"
proof -
  have d: "drop (Suc i) s = b # r" using assms by (metis drop_Suc tl_drop list.sel(3))
  show "s ! i = a" by (rule nth_via_drop[OF assms])
  show "s ! Suc i = b" by (rule nth_via_drop[OF d])
  show "drop (i + 2) s = r" using d by (metis add_2_eq_Suc' drop_Suc tl_drop list.sel(3))
  show "Suc i < length s" using d by (metis drop_all leI list.distinct(1))
qed

end
