(* ===== verification/Awoke_List.thy ===== *)
theory Awoke_List
  imports Prelude
begin

text \<open>
  The intrusive doubly linked list of \<open>include/awoke_list.h\<close>. The link fields of all
  \<open>awoke_list\<close> structures are a split heap: one partial map per field, from the
  address of the structure to the address stored in the field; an address outside the
  map is not an \<open>awoke_list\<close>, and following or writing it is undefined (\<open>None\<close>).
  Address 0 is NULL. Each operation performs the source's field writes in the source's
  order, so that aliasing (a list of one element, the head as its own neighbour) is
  the code's. \<open>dlist\<close> relates the heap to the list of the entries' addresses; the lemmas
  show that the operations implement insertion and removal on that list.
\<close>

type_synonym addr = nat

record links =
  nxt :: "addr \<rightharpoonup> addr"
  prv :: "addr \<rightharpoonup> addr"

definition get_next :: "links \<Rightarrow> addr \<Rightarrow> addr option" where
  "get_next h a = nxt h a"

definition get_prev :: "links \<Rightarrow> addr \<Rightarrow> addr option" where
  "get_prev h a = prv h a"

definition set_next :: "links \<Rightarrow> addr \<Rightarrow> addr \<Rightarrow> links option" where
  "set_next h a v = (if nxt h a = None then None else Some (h\<lparr>nxt := (nxt h)(a \<mapsto> v)\<rparr>))"

definition set_prev :: "links \<Rightarrow> addr \<Rightarrow> addr \<Rightarrow> links option" where
  "set_prev h a v = (if prv h a = None then None else Some (h\<lparr>prv := (prv h)(a \<mapsto> v)\<rparr>))"

definition list_init :: "links \<Rightarrow> addr \<Rightarrow> links option" where
  "list_init h list = do { h1 \<leftarrow> set_next h list list; set_prev h1 list list }"

definition list_empty :: "links \<Rightarrow> addr \<Rightarrow> bool option" where
  "list_empty h head = do {
     n \<leftarrow> get_next h head;
     if n = head then do { p \<leftarrow> get_prev h head; Some (p = head) } else Some False }"

definition list_append :: "links \<Rightarrow> addr \<Rightarrow> addr \<Rightarrow> links option" where
  "list_append h new existing = do {
     p \<leftarrow> get_prev h existing;
     h1 \<leftarrow> set_next h p new;
     h2 \<leftarrow> set_next h1 new existing;
     p2 \<leftarrow> get_prev h2 existing;
     h3 \<leftarrow> set_prev h2 new p2;
     set_prev h3 existing new }"

definition list_prepend :: "links \<Rightarrow> addr \<Rightarrow> addr \<Rightarrow> links option" where
  "list_prepend h new existing = do {
     n \<leftarrow> get_next h existing;
     h1 \<leftarrow> set_prev h n new;
     n2 \<leftarrow> get_next h1 existing;
     h2 \<leftarrow> set_next h1 new n2;
     h3 \<leftarrow> set_prev h2 new existing;
     set_next h3 existing new }"

definition list_unlink :: "links \<Rightarrow> addr \<Rightarrow> links option" where
  "list_unlink h entry = do {
     n \<leftarrow> get_next h entry;
     p \<leftarrow> get_prev h entry;
     h1 \<leftarrow> set_prev h n p;
     p2 \<leftarrow> get_prev h1 entry;
     n2 \<leftarrow> get_next h1 entry;
     h2 \<leftarrow> set_next h1 p2 n2;
     h3 \<leftarrow> set_next h2 entry 0;
     set_prev h3 entry 0 }"

text \<open>
  The traversal of \<open>list_for_each_entry\<close>: from a position to the head, the entries
  visited in order. A ring that does not come back to the head never returns.
\<close>

partial_function (option) list_walk :: "links \<Rightarrow> addr \<Rightarrow> addr \<Rightarrow> addr list option" where
  "list_walk h head pos =
     (if pos = head then Some []
      else do { n \<leftarrow> get_next h pos; xs \<leftarrow> list_walk h head n; Some (pos # xs) })"

definition list_for_each_entry :: "links \<Rightarrow> addr \<Rightarrow> addr list option" where
  "list_for_each_entry h head = do { n \<leftarrow> get_next h head; list_walk h head n }"

section \<open>The abstraction: a ring as the list of its entries\<close>

fun seg :: "links \<Rightarrow> addr \<Rightarrow> addr list \<Rightarrow> addr \<Rightarrow> bool" where
  "seg h a [] b \<longleftrightarrow> nxt h a = Some b \<and> prv h b = Some a"
| "seg h a (x # xs) b \<longleftrightarrow> nxt h a = Some x \<and> prv h x = Some a \<and> seg h x xs b"

definition dlist :: "links \<Rightarrow> addr \<Rightarrow> addr list \<Rightarrow> bool" where
  "dlist h head xs \<longleftrightarrow> distinct (head # xs) \<and> seg h head xs head"

definition fresh_entry :: "links \<Rightarrow> addr \<Rightarrow> addr list \<Rightarrow> addr \<Rightarrow> bool" where
  "fresh_entry h head xs a \<longleftrightarrow>
     nxt h a \<noteq> None \<and> prv h a \<noteq> None \<and> a \<notin> set (head # xs)"

lemmas link_defs = get_next_def get_prev_def set_next_def set_prev_def

lemma seg_append: "seg h a (xs @ y # ys) b \<longleftrightarrow> seg h a xs y \<and> seg h y ys b"
  by (induction xs arbitrary: a) auto

lemma seg_frame:
  "(\<And>c. c \<in> set (a # xs) \<Longrightarrow> nxt h' c = nxt h c) \<Longrightarrow>
   (\<And>c. c \<in> set (xs @ [b]) \<Longrightarrow> prv h' c = prv h c) \<Longrightarrow> seg h' a xs b = seg h a xs b"
  by (induction xs arbitrary: a) auto

lemma seg_last: "seg h a xs b \<Longrightarrow> prv h b = Some (last (a # xs)) \<and> nxt h (last (a # xs)) = Some b"
  by (induction xs arbitrary: a) auto

lemma seg_first: "seg h a xs b \<Longrightarrow> nxt h a = Some (hd (xs @ [b])) \<and> prv h (hd (xs @ [b])) = Some a"
  by (cases xs) auto

lemma seg_snoc: "seg h a (xs @ [y]) b \<longleftrightarrow> seg h a xs y \<and> nxt h y = Some b \<and> prv h b = Some y"
  by (simp add: seg_append)

text \<open>Cutting the link between an entry and its predecessor, or its successor.\<close>

lemma seg_cut_last:
  assumes "seg h a xs b" "distinct (a # xs)"
    and "\<And>c. c \<in> set (a # xs) \<Longrightarrow> c \<noteq> last (a # xs) \<Longrightarrow> nxt h' c = nxt h c" "nxt h' (last (a # xs)) = Some n"
    and "\<And>c. c \<in> set xs \<Longrightarrow> prv h' c = prv h c" "prv h' n = Some (last (a # xs))"
  shows "seg h' a xs n"
  using assms
proof (induction xs arbitrary: a)
  case Nil
  then show ?case by simp
next
  case (Cons x xs)
  have "a \<noteq> last (x # xs)" using Cons.prems(2) last_in_set[of "x # xs"] by auto
  with Cons show ?case by simp
qed

section \<open>The operations implement insertion and removal\<close>

lemma list_init_dlist:
  assumes "nxt h a \<noteq> None" "prv h a \<noteq> None"
  shows "\<exists>h'. list_init h a = Some h' \<and> dlist h' a []"
  using assms by (auto simp: list_init_def link_defs dlist_def)

lemma list_empty_iff: "dlist h head xs \<Longrightarrow> list_empty h head = Some (xs = [])"
  by (cases xs) (auto simp: dlist_def list_empty_def link_defs)

lemma list_walk_seg:
  "seg h a xs head \<Longrightarrow> head \<notin> set xs \<Longrightarrow> nxt h a = Some n \<Longrightarrow> list_walk h head n = Some xs"
proof (induction xs arbitrary: a n)
  case Nil
  then show ?case by (simp add: list_walk.simps)
next
  case (Cons x xs)
  then obtain m where m: "nxt h x = Some m" by (cases xs) auto
  have "list_walk h head m = Some xs" using Cons m by auto
  with Cons m show ?case by (auto simp: list_walk.simps[of h head x] link_defs)
qed

lemma list_for_each_dlist: "dlist h head xs \<Longrightarrow> list_for_each_entry h head = Some xs"
  using list_walk_seg[of h head xs head]
  by (cases xs) (auto simp: dlist_def list_for_each_entry_def link_defs)

lemma list_append_tail:
  assumes d: "dlist h head xs" and f: "fresh_entry h head xs new"
  shows "\<exists>h'. list_append h new head = Some h' \<and> dlist h' head (xs @ [new])"
proof -
  let ?l = "last (head # xs)"
  let ?h = "h\<lparr>nxt := (nxt h)(?l \<mapsto> new, new \<mapsto> head), prv := (prv h)(new \<mapsto> ?l, head \<mapsto> new)\<rparr>"
  have s: "seg h head xs head" and dist: "distinct (head # xs)" using d by (auto simp: dlist_def)
  note l = seg_last[OF s]
  have nn: "new \<noteq> ?l" "new \<noteq> head" "new \<notin> set xs"
    using f last_in_set[of "head # xs"] by (auto simp: fresh_entry_def)
  have "list_append h new head = Some ?h"
    using l f nn by (auto simp: list_append_def link_defs fresh_entry_def)
  moreover have "seg ?h head xs new"
  proof -
    have "seg (h\<lparr>nxt := (nxt h)(?l \<mapsto> new), prv := (prv h)(new \<mapsto> ?l)\<rparr>) head xs new"
      using nn by (intro seg_cut_last[OF s dist]) auto
    moreover have "head \<notin> set (xs @ [new])" "new \<notin> set (head # xs)" using dist nn by auto
    ultimately show ?thesis by (subst seg_frame[where h = "h\<lparr>nxt := (nxt h)(?l \<mapsto> new), prv := (prv h)(new \<mapsto> ?l)\<rparr>"]) auto
  qed
  ultimately show ?thesis using dist nn by (auto simp: dlist_def seg_snoc)
qed

lemma list_prepend_head:
  assumes d: "dlist h head xs" and f: "fresh_entry h head xs new"
  shows "\<exists>h'. list_prepend h new head = Some h' \<and> dlist h' head (new # xs)"
proof -
  let ?n = "hd (xs @ [head])"
  let ?h = "h\<lparr>nxt := (nxt h)(new \<mapsto> ?n, head \<mapsto> new), prv := (prv h)(?n \<mapsto> new, new \<mapsto> head)\<rparr>"
  have s: "seg h head xs head" and dist: "distinct (head # xs)" using d by (auto simp: dlist_def)
  note n = seg_first[OF s]
  have nn: "new \<noteq> ?n" "new \<noteq> head" "new \<notin> set xs"
    using f hd_in_set[of "xs @ [head]"] by (auto simp: fresh_entry_def)
  have "list_prepend h new head = Some ?h"
    using n f nn by (auto simp: list_prepend_def link_defs fresh_entry_def)
  moreover have "seg ?h new xs head"
  proof (cases xs)
    case Nil
    then show ?thesis using nn by simp
  next
    case (Cons x ys)
    have "seg ?h x ys head = seg h x ys head"
      using dist nn Cons by (intro seg_frame) auto
    with Cons s nn dist show ?thesis by auto
  qed
  ultimately show ?thesis using dist nn by (auto simp: dlist_def)
qed

lemma list_unlink_entry:
  assumes d: "dlist h head (as @ e # bs)"
  shows "\<exists>h'. list_unlink h e = Some h' \<and> dlist h' head (as @ bs) \<and> nxt h' e = Some 0 \<and> prv h' e = Some 0"
proof -
  let ?p = "last (head # as)" and ?n = "hd (bs @ [head])"
  let ?h = "h\<lparr>nxt := (nxt h)(?p \<mapsto> ?n, e \<mapsto> 0), prv := (prv h)(?n \<mapsto> ?p, e \<mapsto> 0)\<rparr>"
  have sa: "seg h head as e" and sb: "seg h e bs head" and dist: "distinct (head # as @ e # bs)"
    using d by (auto simp: dlist_def seg_append)
  note p = seg_last[OF sa] and n = seg_first[OF sb]
  have pin: "?p \<in> set (head # as)" by (rule last_in_set) simp
  have nin: "?n \<in> set (bs @ [head])" by (rule hd_in_set) simp
  have ne: "e \<noteq> ?p" "e \<noteq> ?n" using dist pin nin by auto
  have op: "list_unlink h e = Some ?h"
    using p n ne by (auto simp: list_unlink_def link_defs)
  have a: "seg ?h head as ?n"
  proof (rule seg_cut_last[OF sa])
    show "distinct (head # as)" using dist by simp
    show "prv ?h c = prv h c" if "c \<in> set as" for c
      using that nin dist by auto
  qed (use ne dist in auto)
  have "seg ?h head (as @ bs) head"
  proof (cases bs)
    case Nil
    with a show ?thesis by simp
  next
    case (Cons x ys)
    have "seg ?h x ys head = seg h x ys head"
    proof (rule seg_frame)
      show "nxt ?h c = nxt h c" if "c \<in> set (x # ys)" for c
        using that pin dist Cons by auto
      show "prv ?h c = prv h c" if "c \<in> set (ys @ [head])" for c
        using that dist Cons by auto
    qed
    with Cons a sb show ?thesis by (simp add: seg_append)
  qed
  with op ne dist show ?thesis by (auto simp: dlist_def)
qed

section \<open>The interface its clients use\<close>

text \<open>
  What a client of a list relies on: adding an available entry puts it at its place,
  leaves the other entries available, and a traversal visits the entries in the
  order of the represented list.
\<close>

fun add_all :: "('h \<Rightarrow> 'a \<Rightarrow> 'h option) \<Rightarrow> 'h \<Rightarrow> 'a list \<Rightarrow> 'h option" where
  "add_all add h [] = Some h"
| "add_all add h (a # as) = do { h' \<leftarrow> add h a; add_all add h' as }"

locale intrusive_list =
  fixes rep :: "'h \<Rightarrow> 'a list \<Rightarrow> bool"
    and avail :: "'h \<Rightarrow> 'a list \<Rightarrow> 'a \<Rightarrow> bool"
    and add :: "'h \<Rightarrow> 'a \<Rightarrow> 'h option"
    and walk :: "'h \<Rightarrow> 'a list option"
    and place :: "'a \<Rightarrow> 'a list \<Rightarrow> 'a list"
  assumes add_rep: "rep h xs \<Longrightarrow> avail h xs a \<Longrightarrow> \<exists>h'. add h a = Some h' \<and> rep h' (place a xs)"
    and add_avail: "rep h xs \<Longrightarrow> avail h xs a \<Longrightarrow> avail h xs b \<Longrightarrow> a \<noteq> b \<Longrightarrow> add h a = Some h' \<Longrightarrow>
          avail h' (place a xs) b"
    and walk_rep: "rep h xs \<Longrightarrow> walk h = Some xs"
begin

lemma add_all_rep:
  "rep h xs \<Longrightarrow> distinct as \<Longrightarrow> \<forall>a \<in> set as. avail h xs a \<Longrightarrow>
     \<exists>h'. add_all add h as = Some h' \<and> rep h' (fold place as xs)"
proof (induction as arbitrary: h xs)
  case Nil
  then show ?case by simp
next
  case (Cons a as)
  from Cons.prems add_rep[of h xs a] obtain h1
    where h1: "add h a = Some h1" "rep h1 (place a xs)" by auto
  have "\<forall>b \<in> set as. avail h1 (place a xs) b"
    using Cons.prems h1(1) add_avail[of h xs a] by auto
  with Cons.IH[OF h1(2)] Cons.prems(2) h1(1) show ?case by auto
qed

lemma add_all_walk:
  "rep h xs \<Longrightarrow> distinct as \<Longrightarrow> \<forall>a \<in> set as. avail h xs a \<Longrightarrow>
     \<exists>h'. add_all add h as = Some h' \<and> walk h' = Some (fold place as xs)"
  using add_all_rep walk_rep by blast

end

lemma list_append_fresh:
  "list_append h a head = Some h' \<Longrightarrow> fresh_entry h head xs b \<Longrightarrow> a \<noteq> b \<Longrightarrow>
     fresh_entry h' head (xs @ [a]) b"
  by (auto simp: list_append_def link_defs fresh_entry_def bind_eq_Some_conv split: if_splits)

lemma list_prepend_fresh:
  "list_prepend h a head = Some h' \<Longrightarrow> fresh_entry h head xs b \<Longrightarrow> a \<noteq> b \<Longrightarrow>
     fresh_entry h' head (a # xs) b"
  by (auto simp: list_prepend_def link_defs fresh_entry_def bind_eq_Some_conv split: if_splits)

interpretation tail_list: intrusive_list
  "\<lambda>h. dlist h head" "\<lambda>h. fresh_entry h head" "\<lambda>h a. list_append h a head"
  "\<lambda>h. list_for_each_entry h head" "\<lambda>a xs. xs @ [a]"
  by unfold_locales (auto simp: list_append_tail list_append_fresh list_for_each_dlist)

interpretation head_list: intrusive_list
  "\<lambda>h. dlist h head" "\<lambda>h. fresh_entry h head" "\<lambda>h a. list_prepend h a head"
  "\<lambda>h. list_for_each_entry h head" "(#)"
  by unfold_locales (auto simp: list_prepend_head list_prepend_fresh list_for_each_dlist)

lemma fold_snoc: "fold (\<lambda>a xs. xs @ [a]) as xs = xs @ as"
  by (induction as arbitrary: xs) auto

lemma fold_Cons_rev_append: "fold (#) as xs = rev as @ xs"
  by (induction as arbitrary: xs) auto

section \<open>Properties\<close>

text \<open>The documentation of the header says that \<open>list_append\<close> adds after the existing element and \<open>list_prepend\<close>
  in front of it; the code does it the other way round. Entries registered one after another with \<open>list_append\<close> on the list head are linked
  without a fault, and a later \<open>list_for_each_entry\<close> terminates and visits the entries that
  were there before, then the new ones in the order they were registered.\<close>

theorem list_append_traversal:
  assumes "dlist h head xs" "distinct as" "\<forall>a \<in> set as. fresh_entry h head xs a"
  shows "\<exists>h'. add_all (\<lambda>h a. list_append h a head) h as = Some h' \<and>
           list_for_each_entry h' head = Some (xs @ as)"
  using tail_list.add_all_walk[OF assms] by (simp only: fold_snoc)

theorem list_append_traversal_witness:
  "\<exists>h'. add_all (\<lambda>h a. list_append h a 1)
          \<lparr>nxt = [1 \<mapsto> 1, 2 \<mapsto> 0, 3 \<mapsto> 0], prv = [1 \<mapsto> 1, 2 \<mapsto> 0, 3 \<mapsto> 0]\<rparr> [3, 2] = Some h' \<and>
        list_for_each_entry h' 1 = Some [3, 2]"
  using list_append_traversal[of "\<lparr>nxt = [1 \<mapsto> 1, 2 \<mapsto> 0, 3 \<mapsto> 0], prv = [1 \<mapsto> 1, 2 \<mapsto> 0, 3 \<mapsto> 0]\<rparr>" 1 "[]" "[3, 2]"]
  by (simp add: dlist_def fresh_entry_def)

text \<open>Entries registered with \<open>list_prepend\<close> on the head are visited newest first, before the
  entries that were there.\<close>

theorem list_prepend_traversal:
  assumes "dlist h head xs" "distinct as" "\<forall>a \<in> set as. fresh_entry h head xs a"
  shows "\<exists>h'. add_all (\<lambda>h a. list_prepend h a head) h as = Some h' \<and>
           list_for_each_entry h' head = Some (rev as @ xs)"
  using head_list.add_all_walk[OF assms] by (simp only: fold_Cons_rev_append)

theorem list_prepend_traversal_witness:
  "\<exists>h'. add_all (\<lambda>h a. list_prepend h a 1)
          \<lparr>nxt = [1 \<mapsto> 1, 2 \<mapsto> 0, 3 \<mapsto> 0], prv = [1 \<mapsto> 1, 2 \<mapsto> 0, 3 \<mapsto> 0]\<rparr> [3, 2] = Some h' \<and>
        list_for_each_entry h' 1 = Some [2, 3]"
  using list_prepend_traversal[of "\<lparr>nxt = [1 \<mapsto> 1, 2 \<mapsto> 0, 3 \<mapsto> 0], prv = [1 \<mapsto> 1, 2 \<mapsto> 0, 3 \<mapsto> 0]\<rparr>" 1 "[]" "[3, 2]"]
  by (simp add: dlist_def fresh_entry_def)

text \<open>C5: \<open>list_unlink\<close> takes exactly the given entry out of the ring, wherever it stands: the
  traversal visits the remaining entries in their order, the ring is still well formed, and
  both links of the entry are NULL.\<close>

theorem list_unlink_removes:
  assumes "dlist h head (as @ e # bs)"
  shows "\<exists>h'. list_unlink h e = Some h' \<and> dlist h' head (as @ bs) \<and>
           list_for_each_entry h' head = Some (as @ bs) \<and> nxt h' e = Some 0 \<and> prv h' e = Some 0"
  using list_unlink_entry[OF assms] list_for_each_dlist by blast

theorem list_unlink_removes_witness:
  "\<exists>h'. list_unlink \<lparr>nxt = [1 \<mapsto> 2, 2 \<mapsto> 3, 3 \<mapsto> 1], prv = [1 \<mapsto> 3, 2 \<mapsto> 1, 3 \<mapsto> 2]\<rparr> 2 = Some h' \<and>
        list_for_each_entry h' 1 = Some [3]"
  using list_unlink_removes[of "\<lparr>nxt = [1 \<mapsto> 2, 2 \<mapsto> 3, 3 \<mapsto> 1], prv = [1 \<mapsto> 3, 2 \<mapsto> 1, 3 \<mapsto> 2]\<rparr>" 1 "[]" 2 "[3]"]
  by (auto simp: dlist_def)

end
