(* ===== verification/Fifo_Spec.thy ===== *)
theory Fifo_Spec
  imports Prelude
begin

text \<open>
  The contract of a bounded first-in first-out queue with optional rollback (a full
  queue drops its oldest element to make room), shared by \<open>awoke_queue\<close>, \<open>awoke_fifo\<close>
  and the array FIFO. The specification is a step function on the plain list of the
  queued elements; a client's session is a sequence of operations together with what
  each returned. The locale states what an implementation promises of one operation,
  and its lemmas lift that to whole sessions.
\<close>

datatype 'a fifo_op = Enq 'a | Deq
datatype 'a fifo_obs = Enqueued err_type | Dequeued err_type "'a option"

fun spec_step :: "nat \<Rightarrow> bool \<Rightarrow> 'a list \<Rightarrow> 'a fifo_op \<Rightarrow> 'a fifo_obs \<times> 'a list" where
  "spec_step cap rb xs (Enq x) =
     (if length xs < cap then (Enqueued et_ok, xs @ [x])
      else if rb then (Enqueued et_ok, tl xs @ [x])
      else (Enqueued et_full, xs))"
| "spec_step cap rb [] Deq = (Dequeued et_empty None, [])"
| "spec_step cap rb (y # ys) Deq = (Dequeued et_ok (Some y), ys)"

fun spec_run :: "nat \<Rightarrow> bool \<Rightarrow> 'a list \<Rightarrow> 'a fifo_op list \<Rightarrow> 'a fifo_obs list \<times> 'a list" where
  "spec_run cap rb xs [] = ([], xs)"
| "spec_run cap rb xs (p # ps) =
     (let (r, ys) = spec_step cap rb xs p; (rs, zs) = spec_run cap rb ys ps in (r # rs, zs))"

text \<open>A session against an implementation; \<open>None\<close> when an operation is undefined.\<close>

fun fifo_run ::
  "('q \<Rightarrow> 'a \<Rightarrow> (err_type \<times> 'q) option) \<Rightarrow> ('q \<Rightarrow> (err_type \<times> 'a option \<times> 'q) option) \<Rightarrow>
   'q \<Rightarrow> 'a fifo_op list \<Rightarrow> ('a fifo_obs list \<times> 'q) option" where
  "fifo_run enq deq q [] = Some ([], q)"
| "fifo_run enq deq q (Enq x # ps) = do {
     (e, q1) \<leftarrow> enq q x;
     (rs, q2) \<leftarrow> fifo_run enq deq q1 ps;
     Some (Enqueued e # rs, q2) }"
| "fifo_run enq deq q (Deq # ps) = do {
     (e, y, q1) \<leftarrow> deq q;
     (rs, q2) \<leftarrow> fifo_run enq deq q1 ps;
     Some (Dequeued e y # rs, q2) }"

definition enq_elems :: "'a fifo_op list \<Rightarrow> 'a set" where
  "enq_elems ps = {x. Enq x \<in> set ps}"

lemma enq_elems_simps [simp]:
  "enq_elems [] = {}"
  "enq_elems (Enq x # ps) = insert x (enq_elems ps)"
  "enq_elems (Deq # ps) = enq_elems ps"
  by (auto simp: enq_elems_def)

lemma spec_run_length: "length xs \<le> cap \<Longrightarrow> 0 < cap \<Longrightarrow> length (snd (spec_run cap rb xs ps)) \<le> cap"
proof (induction ps arbitrary: xs)
  case Nil
  then show ?case by simp
next
  case (Cons p ps)
  have "length (snd (spec_step cap rb xs p)) \<le> cap"
    using Cons.prems by (cases p; cases xs) auto
  with Cons show ?case by (auto simp: case_prod_beta Let_def)
qed

lemma spec_run_append:
  "spec_run cap rb xs (ps @ qs) =
     (let (rs, ys) = spec_run cap rb xs ps; (rs', zs) = spec_run cap rb ys qs in (rs @ rs', zs))"
  by (induction ps arbitrary: xs) (auto simp: Let_def case_prod_beta)

text \<open>Without rollback, elements that fit come back in the order they went in.\<close>

lemma spec_run_enqs:
  "length xs + length as \<le> cap \<Longrightarrow>
     spec_run cap rb xs (map Enq as) = (map (\<lambda>_. Enqueued et_ok) as, xs @ as)"
  by (induction as arbitrary: xs) auto

lemma spec_run_deqs:
  "spec_run cap rb (as @ xs) (map (\<lambda>_. Deq) as) = (map (\<lambda>a. Dequeued et_ok (Some a)) as, xs)"
  by (induction as) auto

text \<open>With rollback, a full queue of capacity \<open>cap\<close> keeps the last \<open>cap\<close> elements.\<close>

lemma spec_run_rollback:
  "length xs \<le> cap \<Longrightarrow> 0 < cap \<Longrightarrow>
     snd (spec_run cap True xs (map Enq as)) = drop (length xs + length as - cap) (xs @ as)"
proof (induction as arbitrary: xs)
  case Nil
  then show ?case by simp
next
  case (Cons a as)
  show ?case
  proof (cases "length xs < cap")
    case True
    with Cons.IH[of "xs @ [a]"] Cons.prems show ?thesis by (simp add: Let_def case_prod_beta)
  next
    case False
    with Cons.prems obtain y ys where xs: "xs = y # ys" "cap = Suc (length ys)" by (cases xs) auto
    with Cons.IH[of "ys @ [a]"] Cons.prems show ?thesis by (simp add: Let_def case_prod_beta)
  qed
qed

locale bounded_fifo =
  fixes inv :: "'q \<Rightarrow> bool"
    and abs :: "'q \<Rightarrow> 'a list"
    and cap :: "'q \<Rightarrow> nat"
    and rollback :: "'q \<Rightarrow> bool"
    and elem :: "'q \<Rightarrow> 'a \<Rightarrow> bool"
    and enq :: "'q \<Rightarrow> 'a \<Rightarrow> (err_type \<times> 'q) option"
    and deq :: "'q \<Rightarrow> (err_type \<times> 'a option \<times> 'q) option"
  assumes cap_pos: "inv q \<Longrightarrow> 0 < cap q"
    and abs_le_cap: "inv q \<Longrightarrow> length (abs q) \<le> cap q"
    and enq_room: "inv q \<Longrightarrow> elem q x \<Longrightarrow> length (abs q) < cap q \<Longrightarrow>
          \<exists>q'. enq q x = Some (et_ok, q') \<and> inv q' \<and> abs q' = abs q @ [x] \<and>
               cap q' = cap q \<and> rollback q' = rollback q \<and> elem q' = elem q"
    and enq_roll: "inv q \<Longrightarrow> elem q x \<Longrightarrow> length (abs q) = cap q \<Longrightarrow> rollback q \<Longrightarrow>
          \<exists>q'. enq q x = Some (et_ok, q') \<and> inv q' \<and> abs q' = tl (abs q) @ [x] \<and>
               cap q' = cap q \<and> rollback q' = rollback q \<and> elem q' = elem q"
    and enq_full: "inv q \<Longrightarrow> elem q x \<Longrightarrow> length (abs q) = cap q \<Longrightarrow> \<not> rollback q \<Longrightarrow>
          enq q x = Some (et_full, q)"
    and deq_empty: "inv q \<Longrightarrow> abs q = [] \<Longrightarrow> deq q = Some (et_empty, None, q)"
    and deq_first: "inv q \<Longrightarrow> abs q = y # ys \<Longrightarrow>
          \<exists>q'. deq q = Some (et_ok, Some y, q') \<and> inv q' \<and> abs q' = ys \<and>
               cap q' = cap q \<and> rollback q' = rollback q \<and> elem q' = elem q"
begin

lemma enq_step:
  assumes "inv q" "elem q x"
  shows "\<exists>e q'. enq q x = Some (e, q') \<and> inv q' \<and> cap q' = cap q \<and> rollback q' = rollback q \<and>
           elem q' = elem q \<and> (Enqueued e, abs q') = spec_step (cap q) (rollback q) (abs q) (Enq x)"
proof -
  have "length (abs q) \<le> cap q" using assms(1) by (rule abs_le_cap)
  then show ?thesis
    using enq_room[OF assms] enq_roll[OF assms] enq_full[OF assms] assms(1)
    by (cases "length (abs q) < cap q"; cases "rollback q") auto
qed

lemma deq_step:
  assumes "inv q"
  shows "\<exists>e y q'. deq q = Some (e, y, q') \<and> inv q' \<and> cap q' = cap q \<and> rollback q' = rollback q \<and>
           elem q' = elem q \<and> (Dequeued e y, abs q') = spec_step (cap q) (rollback q) (abs q) Deq"
  using deq_empty[OF assms] deq_first[OF assms] assms by (cases "abs q") auto

lemma run_refines:
  "inv q \<Longrightarrow> \<forall>x \<in> enq_elems ps. elem q x \<Longrightarrow>
     \<exists>q'. fifo_run enq deq q ps = Some (fst (spec_run (cap q) (rollback q) (abs q) ps), q') \<and>
          inv q' \<and> abs q' = snd (spec_run (cap q) (rollback q) (abs q) ps)"
proof (induction ps arbitrary: q)
  case Nil
  then show ?case by simp
next
  case (Cons p ps)
  show ?case
  proof (cases p)
    case (Enq x)
    with Cons.prems obtain e q1 where q1: "enq q x = Some (e, q1)" "inv q1" "cap q1 = cap q"
        "rollback q1 = rollback q" "elem q1 = elem q"
        "(Enqueued e, abs q1) = spec_step (cap q) (rollback q) (abs q) (Enq x)"
      using enq_step[of q x] by auto
    from Cons.IH[OF q1(2)] Cons.prems Enq q1 show ?thesis
      by (auto simp: Let_def case_prod_beta simp flip: q1(6))
  next
    case Deq
    from deq_step[OF Cons.prems(1)] obtain e y q1 where q1: "deq q = Some (e, y, q1)" "inv q1"
        "cap q1 = cap q" "rollback q1 = rollback q" "elem q1 = elem q"
        "(Dequeued e y, abs q1) = spec_step (cap q) (rollback q) (abs q) Deq"
      by auto
    from Cons.IH[OF q1(2)] Cons.prems Deq q1 show ?thesis
      by (auto simp: Let_def case_prod_beta simp flip: q1(6))
  qed
qed

end

end
