(* ===== verification/Awoke_Queue.thy ===== *)
theory Awoke_Queue
  imports Fifo_Spec
begin

text \<open>
  The FIFO queue \<open>awoke_queue\<close> of \<open>lib/libutil/src/awoke_queue.c\<close>: an array of
  \<open>node_nr\<close> nodes of \<open>node_size\<close> bytes, the oldest node first, \<open>curr\<close> the index of the
  newest (-1 when empty). The node storage is the byte block \<open>queue_mem\<close>; every
  \<open>memcpy\<close> is a read and a write of that block, so an access outside it is \<open>None\<close>.
  \<open>queue_list\<close> is the list of the queued nodes, \<open>queue_inv\<close> the invariant.
\<close>

record awoke_queue =
  curr :: int
  node_size :: nat
  node_nr :: int
  flag :: u16
  queue_mem :: bytes

definition AWOKE_QUEUE_F_RB :: u16 where "AWOKE_QUEUE_F_RB = 0x0001"
definition AWOKE_QUEUE_F_IN :: u16 where "AWOKE_QUEUE_F_IN = 0x0002"

definition awoke_queue_empty :: "awoke_queue \<Rightarrow> bool" where
  "awoke_queue_empty q \<longleftrightarrow> curr q + 1 = 0"

definition awoke_queue_full :: "awoke_queue \<Rightarrow> bool" where
  "awoke_queue_full q \<longleftrightarrow> curr q + 1 = node_nr q"

definition awoke_queue_size :: "awoke_queue \<Rightarrow> int" where
  "awoke_queue_size q = curr q + 1"

text \<open>\<open>memcpy\<close> of the node at one index over the node at another.\<close>

definition copy_node :: "nat \<Rightarrow> bytes \<Rightarrow> int \<Rightarrow> int \<Rightarrow> bytes option" where
  "copy_node ns m dst src = do { x \<leftarrow> mem_read m (src * int ns) ns; mem_write m (dst * int ns) x }"

text \<open>The loops \<open>for (i = from; i < to; i++)\<close> and \<open>for (i = from; i > to; i--)\<close> over nodes.\<close>

function shift_down :: "nat \<Rightarrow> int \<Rightarrow> int \<Rightarrow> bytes \<Rightarrow> bytes option" where
  "shift_down ns i to m =
     (if i < to then do { m' \<leftarrow> copy_node ns m i (i + 1); shift_down ns (i + 1) to m' } else Some m)"
  by pat_completeness auto
termination by (relation "measure (\<lambda>(ns, i, to, m). nat (to - i))") auto

function shift_up :: "nat \<Rightarrow> int \<Rightarrow> int \<Rightarrow> bytes \<Rightarrow> bytes option" where
  "shift_up ns i to m =
     (if i > to then do { m' \<leftarrow> copy_node ns m (i + 1) i; shift_up ns (i - 1) to m' } else Some m)"
  by pat_completeness auto
termination by (relation "measure (\<lambda>(ns, i, to, m). nat (i - to))") auto

declare shift_down.simps [simp del] shift_up.simps [simp del]

definition awoke_queue_delete :: "awoke_queue \<Rightarrow> int \<Rightarrow> (err_type \<times> awoke_queue) option" where
  "awoke_queue_delete q index =
     (if curr q < index then Some (et_full, q)
      else if awoke_queue_empty q then Some (et_empty, q)
      else do {
        m1 \<leftarrow> mem_write (queue_mem q) (index * int (node_size q)) (zeros (node_size q));
        m2 \<leftarrow> shift_down (node_size q) index (curr q + 1) m1;
        Some (et_ok, q\<lparr>queue_mem := m2, curr := curr q - 1\<rparr>) })"

definition awoke_queue_deq :: "awoke_queue \<Rightarrow> (err_type \<times> bytes \<times> awoke_queue) option" where
  "awoke_queue_deq q =
     (if awoke_queue_empty q then Some (et_empty, zeros (node_size q), q)
      else do {
        u \<leftarrow> mem_read (queue_mem q) 0 (node_size q);
        m1 \<leftarrow> shift_down (node_size q) 0 (curr q) (queue_mem q);
        m2 \<leftarrow> mem_write m1 (curr q * int (node_size q)) (zeros (node_size q));
        Some (et_ok, u, q\<lparr>queue_mem := m2, curr := curr q - 1\<rparr>) })"

text \<open>
  Making room in a full queue with the rollback flag: the front is dequeued into a
  temporary buffer whose allocation the code does not check.
\<close>

definition drop_front :: "allocator \<Rightarrow> awoke_queue \<Rightarrow> awoke_queue option" where
  "drop_front alloc q =
     (if alloc (node_size q) then do { (_, _, q1) \<leftarrow> awoke_queue_deq q; Some q1 } else None)"

definition awoke_queue_insert_after ::
  "allocator \<Rightarrow> awoke_queue \<Rightarrow> int \<Rightarrow> bytes \<Rightarrow> (err_type \<times> awoke_queue) option" where
  "awoke_queue_insert_after alloc q index u =
     (if \<not> mask_exst (flag q) AWOKE_QUEUE_F_IN then Some (et_param, q)
      else if curr q < index then Some (et_full, q)
      else if awoke_queue_full q \<and> \<not> mask_exst (flag q) AWOKE_QUEUE_F_RB then Some (et_full, q)
      else do {
        (q1, idx) \<leftarrow> (if awoke_queue_full q then do { q1 \<leftarrow> drop_front alloc q; Some (q1, index) }
                     else Some (q, index + 1));
        m1 \<leftarrow> shift_up (node_size q1) (curr q1) (index - 1) (queue_mem q1);
        m2 \<leftarrow> mem_write m1 (idx * int (node_size q1)) u;
        c \<leftarrow> c_rem (curr q1 + 1) (node_nr q1);
        Some (et_ok, q1\<lparr>queue_mem := m2, curr := c\<rparr>) })"

definition awoke_queue_get :: "awoke_queue \<Rightarrow> int \<Rightarrow> (err_type \<times> bytes) option" where
  "awoke_queue_get q index =
     (if awoke_queue_empty q then Some (et_empty, zeros (node_size q))
      else do { u \<leftarrow> mem_read (queue_mem q) (index * int (node_size q)) (node_size q); Some (et_ok, u) })"

definition awoke_queue_first :: "awoke_queue \<Rightarrow> (err_type \<times> bytes) option" where
  "awoke_queue_first q =
     (if awoke_queue_empty q then Some (et_empty, zeros (node_size q))
      else do { u \<leftarrow> mem_read (queue_mem q) 0 (node_size q); Some (et_ok, u) })"

definition awoke_queue_last :: "awoke_queue \<Rightarrow> (err_type \<times> bytes) option" where
  "awoke_queue_last q =
     (if awoke_queue_empty q then Some (et_empty, zeros (node_size q))
      else do { u \<leftarrow> mem_read (queue_mem q) (curr q * int (node_size q)) (node_size q); Some (et_ok, u) })"

definition awoke_queue_enq ::
  "allocator \<Rightarrow> awoke_queue \<Rightarrow> bytes \<Rightarrow> (err_type \<times> awoke_queue) option" where
  "awoke_queue_enq alloc q u =
     (if awoke_queue_full q \<and> \<not> mask_exst (flag q) AWOKE_QUEUE_F_RB then Some (et_full, q)
      else do {
        q1 \<leftarrow> (if awoke_queue_full q then drop_front alloc q else Some q);
        c \<leftarrow> c_rem (curr q1 + 1) (node_nr q1);
        m \<leftarrow> mem_write (queue_mem q1) (c * int (node_size q1)) u;
        Some (et_ok, q1\<lparr>curr := c, queue_mem := m\<rparr>) })"

text \<open>
  \<open>sizeof(awoke_queue)\<close> is 32 on the 64-bit target; the total size is computed in
  \<open>size_t\<close> and stored in an \<open>int\<close>, which the allocator reads back as a \<open>size_t\<close>.
  Clearing a block smaller than the header faults on the header's own fields.
\<close>

definition sizeof_awoke_queue :: nat where "sizeof_awoke_queue = 32"

definition awoke_queue_create ::
  "allocator \<Rightarrow> nat \<Rightarrow> int \<Rightarrow> u16 \<Rightarrow> awoke_queue cptr option" where
  "awoke_queue_create alloc ns nr fl = (
     let alloc_size = c_int (int sizeof_awoke_queue + int ns * nr);
         size = nat (alloc_size mod 2 ^ 64)
     in if \<not> alloc size then Some Null
        else if size < sizeof_awoke_queue then None
        else Some (Live \<lparr>curr = -1, node_size = ns, node_nr = nr, flag = mask_push 0 fl,
                         queue_mem = zeros (size - sizeof_awoke_queue)\<rparr>))"

fun deq_times :: "nat \<Rightarrow> awoke_queue \<Rightarrow> awoke_queue option" where
  "deq_times 0 q = Some q"
| "deq_times (Suc n) q = do { (_, _, q1) \<leftarrow> awoke_queue_deq q; deq_times n q1 }"

definition awoke_queue_clean :: "allocator \<Rightarrow> awoke_queue \<Rightarrow> awoke_queue option" where
  "awoke_queue_clean alloc q =
     (let size = awoke_queue_size q
      in if size = 0 then Some q
         else if \<not> alloc (node_size q) \<and> 0 < size then None
         else deq_times (nat size) q)"

definition awoke_queue_free :: "awoke_queue cptr cptr \<Rightarrow> awoke_queue cptr cptr option" where
  "awoke_queue_free pq = (case pq of
      Null \<Rightarrow> Some Null
    | Freed \<Rightarrow> None
    | Live Null \<Rightarrow> Some (Live Null)
    | Live p \<Rightarrow> do { p' \<leftarrow> mem_free p; Some (Live p') })"

section \<open>Invariant and abstraction\<close>

definition queue_inv :: "awoke_queue \<Rightarrow> bool" where
  "queue_inv q \<longleftrightarrow> 0 < node_nr q \<and> -1 \<le> curr q \<and> curr q < node_nr q \<and>
     length (queue_mem q) = nat (node_nr q) * node_size q"

definition queue_list :: "awoke_queue \<Rightarrow> bytes list" where
  "queue_list q = nodes (node_size q) (queue_mem q) (nat (curr q + 1))"

definition queue_cap :: "awoke_queue \<Rightarrow> nat" where
  "queue_cap q = nat (node_nr q)"

definition queue_elem :: "awoke_queue \<Rightarrow> bytes \<Rightarrow> bool" where
  "queue_elem q u \<longleftrightarrow> length u = node_size q"

lemma queue_list_length [simp]: "length (queue_list q) = nat (curr q + 1)"
  by (simp add: queue_list_def)

section \<open>Lemmas: moving nodes\<close>

lemma copy_node_node:
  assumes "d * ns + ns \<le> length m" "s * ns + ns \<le> length m"
  shows "\<exists>m'. copy_node ns m (int d) (int s) = Some m' \<and> length m' = length m \<and>
           node_at ns m' d = node_at ns m s \<and> (\<forall>j. j \<noteq> d \<longrightarrow> node_at ns m' j = node_at ns m j)"
  using mem_write_node[OF assms(1) node_at_length[OF assms(2)]]
  by (simp add: copy_node_def mem_read_node[OF assms(2)])

lemma shift_down_nodes:
  "0 \<le> i \<Longrightarrow> i \<le> to \<Longrightarrow> (nat to + 1) * ns \<le> length m \<Longrightarrow>
   \<exists>m'. shift_down ns i to m = Some m' \<and> length m' = length m \<and>
     (\<forall>j. node_at ns m' j =
        (if nat i \<le> j \<and> j < nat to then node_at ns m (Suc j) else node_at ns m j))"
proof (induction ns i to m rule: shift_down.induct)
  case (1 ns i to m)
  show ?case
  proof (cases "i < to")
    case False
    with "1.prems" show ?thesis by (auto simp: shift_down.simps[of ns to])
  next
    case True
    have fits: "nat i * ns + ns \<le> length m" "Suc (nat i) * ns + ns \<le> length m"
      by (rule node_fits[OF _ "1.prems"(3)]; use "1.prems"(1) True in simp)+
    obtain m1 where m1: "copy_node ns m i (i + 1) = Some m1" "length m1 = length m"
        "node_at ns m1 (nat i) = node_at ns m (Suc (nat i))"
        "\<forall>j. j \<noteq> nat i \<longrightarrow> node_at ns m1 j = node_at ns m j"
      using copy_node_node[OF fits] "1.prems"(1) by (auto simp: add.commute)
    from "1.IH"[OF True m1(1)] "1.prems" True m1(2)
    obtain m2 where m2: "shift_down ns (i + 1) to m1 = Some m2" "length m2 = length m1"
        "\<forall>j. node_at ns m2 j =
           (if nat (i + 1) \<le> j \<and> j < nat to then node_at ns m1 (Suc j) else node_at ns m1 j)"
      by auto
    have "node_at ns m2 j = (if nat i \<le> j \<and> j < nat to then node_at ns m (Suc j) else node_at ns m j)" for j
      using m2(3) m1(3,4) True "1.prems"(1) by (cases "j = nat i") (auto simp: nat_add_distrib)
    with m1 m2 True show ?thesis by (simp add: shift_down.simps[of ns i])
  qed
qed

lemma shift_up_nodes:
  "-1 \<le> to \<Longrightarrow> to \<le> i \<Longrightarrow> (nat (i + 1) + 1) * ns \<le> length m \<Longrightarrow>
   \<exists>m'. shift_up ns i to m = Some m' \<and> length m' = length m \<and>
     (\<forall>j. node_at ns m' j =
        (if nat (to + 1) < j \<and> j \<le> nat (i + 1) then node_at ns m (j - 1) else node_at ns m j))"
proof (induction ns i to m rule: shift_up.induct)
  case (1 ns i to m)
  show ?case
  proof (cases "i > to")
    case False
    with "1.prems" show ?thesis by (auto simp: shift_up.simps[of ns i])
  next
    case True
    have fits: "nat (i + 1) * ns + ns \<le> length m" "nat i * ns + ns \<le> length m"
      by (rule node_fits[OF _ "1.prems"(3)]; use "1.prems"(1) True in simp)+
    obtain m1 where m1: "copy_node ns m (i + 1) i = Some m1" "length m1 = length m"
        "node_at ns m1 (nat (i + 1)) = node_at ns m (nat i)"
        "\<forall>j. j \<noteq> nat (i + 1) \<longrightarrow> node_at ns m1 j = node_at ns m j"
      using copy_node_node[OF fits] "1.prems"(1) True by auto
    have "(nat i + 1) * ns \<le> length m1" using fits(2) m1(2) by simp
    with "1.IH"[OF True m1(1)] "1.prems" True m1(2)
    obtain m2 where m2: "shift_up ns (i - 1) to m1 = Some m2" "length m2 = length m1"
        "\<forall>j. node_at ns m2 j =
           (if nat (to + 1) < j \<and> j \<le> nat i then node_at ns m1 (j - 1) else node_at ns m1 j)"
      by auto
    have "node_at ns m2 j =
        (if nat (to + 1) < j \<and> j \<le> nat (i + 1) then node_at ns m (j - 1) else node_at ns m j)" for j
      using m2(3) m1(3,4) True "1.prems"(1) by (cases "j = nat (i + 1)") (auto simp: nat_add_distrib)
    with m1 m2 True show ?thesis by (simp add: shift_up.simps[of ns i])
  qed
qed

section \<open>Lemmas: the operations on the list of nodes\<close>

lemma queue_list_eqI:
  "nat (curr q + 1) = length xs \<Longrightarrow>
   (\<And>j. j < length xs \<Longrightarrow> node_at (node_size q) (queue_mem q) j = xs ! j) \<Longrightarrow> queue_list q = xs"
  by (simp add: queue_list_def list_eq_iff_nth_eq)

lemma queue_list_nth:
  "j < nat (curr q + 1) \<Longrightarrow> queue_list q ! j = node_at (node_size q) (queue_mem q) j"
  by (simp add: queue_list_def)

lemma queue_list_Cons: "queue_list q = y # ys \<Longrightarrow> 0 \<le> curr q \<and> length ys = nat (curr q)"
  using queue_list_length[of q] by (auto simp del: queue_list_length)

lemma queue_list_Nil: "queue_list q = [] \<longleftrightarrow> curr q < 0"
proof -
  have "queue_list q = [] \<longleftrightarrow> nat (curr q + 1) = 0" by (metis queue_list_length length_0_conv)
  then show ?thesis by auto
qed

lemma queue_node_fits:
  "queue_inv q \<Longrightarrow> j < nat (node_nr q) \<Longrightarrow> j * node_size q + node_size q \<le> length (queue_mem q)"
  unfolding queue_inv_def by (rule node_fits) auto

lemma queue_empty_iff: "queue_inv q \<Longrightarrow> awoke_queue_empty q \<longleftrightarrow> queue_list q = []"
  by (auto simp: awoke_queue_empty_def queue_inv_def queue_list_Nil)

lemma queue_full_iff: "queue_inv q \<Longrightarrow> awoke_queue_full q \<longleftrightarrow> length (queue_list q) = queue_cap q"
  by (auto simp: awoke_queue_full_def queue_cap_def queue_inv_def)

lemma mem_read_front:
  "ns \<le> length m \<Longrightarrow> mem_read m 0 ns = Some (node_at ns m 0)"
  using mem_read_node[of 0 ns m] by simp

lemma awoke_queue_deq_list:
  assumes inv: "queue_inv q" and ne: "queue_list q = y # ys"
  shows "\<exists>q'. awoke_queue_deq q = Some (et_ok, y, q') \<and> queue_inv q' \<and> queue_list q' = ys \<and>
           node_nr q' = node_nr q \<and> node_size q' = node_size q \<and> flag q' = flag q \<and>
           curr q' = curr q - 1"
proof -
  let ?ns = "node_size q" and ?m = "queue_mem q"
  have c: "0 \<le> curr q" "curr q < node_nr q" "length ys = nat (curr q)" "\<not> awoke_queue_empty q"
    using inv queue_list_Cons[OF ne] by (auto simp: queue_inv_def awoke_queue_empty_def)
  have y: "node_at ?ns ?m 0 = y" using ne c(1) queue_list_nth[of 0 q] by simp
  have sz: "(nat (curr q) + 1) * ?ns \<le> length ?m" "nat (curr q) * ?ns + ?ns \<le> length ?m" "?ns \<le> length ?m"
    using queue_node_fits[OF inv, of "nat (curr q)"] c by auto
  obtain m1 where m1: "shift_down ?ns 0 (curr q) ?m = Some m1" "length m1 = length ?m"
      "\<forall>j. node_at ?ns m1 j = (if j < nat (curr q) then node_at ?ns ?m (Suc j) else node_at ?ns ?m j)"
    using shift_down_nodes[of 0 "curr q" ?ns ?m] c sz(1) by auto
  obtain m2 where m2: "mem_write m1 (curr q * int ?ns) (zeros ?ns) = Some m2" "length m2 = length m1"
      "\<forall>j. j \<noteq> nat (curr q) \<longrightarrow> node_at ?ns m2 j = node_at ?ns m1 j"
    using mem_write_node[of "nat (curr q)" ?ns m1 "zeros ?ns"] sz(2) m1(2) c(1) by auto
  let ?q = "q\<lparr>queue_mem := m2, curr := curr q - 1\<rparr>"
  have "queue_list ?q = ys"
  proof (rule queue_list_eqI)
    fix j assume "j < length ys"
    then show "node_at (node_size ?q) (queue_mem ?q) j = ys ! j"
      using m1(3) m2(3) c ne queue_list_nth[of "Suc j" q] by auto
  qed (use c in auto)
  moreover have "awoke_queue_deq q = Some (et_ok, y, ?q)"
    using c(4) sz(3) y m1(1) m2(1) by (simp add: awoke_queue_deq_def mem_read_front)
  moreover have "queue_inv ?q" using inv c m1(2) m2(2) by (auto simp: queue_inv_def)
  ultimately show ?thesis by auto
qed

lemma awoke_queue_deq_empty:
  "queue_inv q \<Longrightarrow> queue_list q = [] \<Longrightarrow> awoke_queue_deq q = Some (et_empty, zeros (node_size q), q)"
  by (simp add: awoke_queue_deq_def queue_empty_iff)

text \<open>Storing a node at the end.\<close>

lemma queue_store_last:
  assumes inv: "queue_inv q" and room: "\<not> awoke_queue_full q" and u: "queue_elem q u"
  shows "\<exists>q'. c_rem (curr q + 1) (node_nr q) = Some (curr q + 1) \<and>
           mem_write (queue_mem q) ((curr q + 1) * int (node_size q)) u = Some (queue_mem q') \<and>
           q' = q\<lparr>curr := curr q + 1, queue_mem := queue_mem q'\<rparr> \<and>
           queue_inv q' \<and> queue_list q' = queue_list q @ [u]"
proof -
  let ?ns = "node_size q" and ?k = "nat (curr q + 1)"
  have k: "?k < nat (node_nr q)" "-1 \<le> curr q" "curr q + 1 < node_nr q"
    using inv room by (auto simp: queue_inv_def awoke_queue_full_def)
  obtain m where m: "mem_write (queue_mem q) ((curr q + 1) * int ?ns) u = Some m" "length m = length (queue_mem q)"
      "node_at ?ns m ?k = u" "\<forall>j. j \<noteq> ?k \<longrightarrow> node_at ?ns m j = node_at ?ns (queue_mem q) j"
    using mem_write_node[OF queue_node_fits[OF inv k(1)]] u k(2) by (auto simp: queue_elem_def)
  let ?q = "q\<lparr>curr := curr q + 1, queue_mem := m\<rparr>"
  have "queue_list ?q = queue_list q @ [u]"
  proof (rule queue_list_eqI)
    fix j assume "j < length (queue_list q @ [u])"
    then show "node_at (node_size ?q) (queue_mem ?q) j = (queue_list q @ [u]) ! j"
      using m(3,4) by (cases "j = ?k") (auto simp: nth_append queue_list_nth)
  qed (use k in auto)
  moreover have "queue_inv ?q" using inv k m(2) by (auto simp: queue_inv_def)
  moreover have "c_rem (curr q + 1) (node_nr q) = Some (curr q + 1)" using k by (simp add: c_rem_nonneg)
  ultimately show ?thesis using m(1) by (intro exI[of _ ?q]) simp
qed

lemma awoke_queue_enq_room:
  assumes "queue_inv q" "queue_elem q u" "length (queue_list q) < queue_cap q"
  shows "\<exists>q'. awoke_queue_enq alloc q u = Some (et_ok, q') \<and> queue_inv q' \<and>
           queue_list q' = queue_list q @ [u] \<and> node_nr q' = node_nr q \<and>
           node_size q' = node_size q \<and> flag q' = flag q"
proof -
  have nf: "\<not> awoke_queue_full q" using assms by (simp add: queue_full_iff)
  obtain m where "c_rem (curr q + 1) (node_nr q) = Some (curr q + 1)"
      "mem_write (queue_mem q) ((curr q + 1) * int (node_size q)) u = Some m"
      "queue_inv (q\<lparr>curr := curr q + 1, queue_mem := m\<rparr>)"
      "queue_list (q\<lparr>curr := curr q + 1, queue_mem := m\<rparr>) = queue_list q @ [u]"
    using queue_store_last[OF assms(1) nf assms(2)] by metis
  with nf show ?thesis by (simp add: awoke_queue_enq_def)
qed

lemma awoke_queue_enq_roll:
  assumes "queue_inv q" "queue_elem q u" "length (queue_list q) = queue_cap q"
    and rb: "mask_exst (flag q) AWOKE_QUEUE_F_RB" and al: "alloc (node_size q)"
  shows "\<exists>q'. awoke_queue_enq alloc q u = Some (et_ok, q') \<and> queue_inv q' \<and>
           queue_list q' = tl (queue_list q) @ [u] \<and> node_nr q' = node_nr q \<and>
           node_size q' = node_size q \<and> flag q' = flag q"
proof -
  have "queue_list q \<noteq> []" using assms(1,3) by (auto simp: queue_cap_def queue_inv_def queue_list_Nil)
  then obtain y ys where ys: "queue_list q = y # ys" by (cases "queue_list q") auto
  obtain q1 where q1: "awoke_queue_deq q = Some (et_ok, y, q1)" "queue_inv q1" "queue_list q1 = ys"
      "node_nr q1 = node_nr q" "node_size q1 = node_size q" "flag q1 = flag q"
    using awoke_queue_deq_list[OF assms(1) ys] by blast
  have "length (queue_list q1) < queue_cap q1" "queue_elem q1 u"
    using assms q1 ys by (auto simp: queue_cap_def queue_elem_def)
  from awoke_queue_enq_room[OF q1(2) this(2,1)] obtain q' where
    q': "awoke_queue_enq alloc q1 u = Some (et_ok, q')" "queue_inv q'" "queue_list q' = ys @ [u]"
      "node_nr q' = node_nr q" "node_size q' = node_size q" "flag q' = flag q"
    using q1 by auto
  have "\<not> awoke_queue_full q1" "awoke_queue_full q"
    using q1 ys assms by (auto simp: queue_full_iff queue_cap_def)
  then have "awoke_queue_enq alloc q u = awoke_queue_enq alloc q1 u"
    using rb al q1 by (simp add: awoke_queue_enq_def drop_front_def)
  with q' ys show ?thesis by simp
qed

lemma awoke_queue_enq_full:
  "queue_inv q \<Longrightarrow> length (queue_list q) = queue_cap q \<Longrightarrow> \<not> mask_exst (flag q) AWOKE_QUEUE_F_RB \<Longrightarrow>
     awoke_queue_enq alloc q u = Some (et_full, q)"
  by (simp add: awoke_queue_enq_def queue_full_iff)

text \<open>The queue as an implementation of the bounded FIFO, for an allocator that does not fail.\<close>

definition queue_deq_obs :: "awoke_queue \<Rightarrow> (err_type \<times> bytes option \<times> awoke_queue) option" where
  "queue_deq_obs q = do {
     (e, u, q') \<leftarrow> awoke_queue_deq q; Some (e, if e = et_ok then Some u else None, q') }"

interpretation aq: bounded_fifo queue_inv queue_list queue_cap
  "\<lambda>q. mask_exst (flag q) AWOKE_QUEUE_F_RB" queue_elem "awoke_queue_enq (\<lambda>_. True)" queue_deq_obs
proof (unfold_locales, goal_cases)
  case (1 q)
  then show ?case by (simp add: queue_inv_def queue_cap_def)
next
  case (2 q)
  then show ?case by (auto simp: queue_inv_def queue_cap_def)
next
  case (3 q x)
  from awoke_queue_enq_room[OF this] show ?case
    by (fastforce simp: queue_cap_def queue_elem_def)
next
  case (4 q x)
  from awoke_queue_enq_roll[OF this, of "\<lambda>_. True"] show ?case
    by (fastforce simp: queue_cap_def queue_elem_def)
next
  case (5 q x)
  then show ?case by (simp add: awoke_queue_enq_full)
next
  case (6 q)
  then show ?case by (simp add: queue_deq_obs_def awoke_queue_deq_empty)
next
  case (7 q y ys)
  from awoke_queue_deq_list[OF this] show ?case
    by (fastforce simp: queue_deq_obs_def queue_cap_def queue_elem_def)
qed

section \<open>Lemmas: removal, insertion, creation and cleaning\<close>

lemma awoke_queue_delete_list:
  assumes inv: "queue_inv q" and nf: "\<not> awoke_queue_full q" and i: "0 \<le> i" "i \<le> curr q"
  shows "\<exists>q'. awoke_queue_delete q i = Some (et_ok, q') \<and> queue_inv q' \<and>
           queue_list q' = take (nat i) (queue_list q) @ drop (Suc (nat i)) (queue_list q)"
proof -
  let ?ns = "node_size q" and ?m = "queue_mem q" and ?xs = "queue_list q"
  have c: "0 \<le> curr q" "curr q + 1 < node_nr q" "\<not> awoke_queue_empty q"
    using inv nf i by (auto simp: queue_inv_def awoke_queue_full_def awoke_queue_empty_def)
  have "nat i * ?ns + ?ns \<le> length ?m" using queue_node_fits[OF inv, of "nat i"] c i by auto
  from mem_write_node[OF this, of "zeros ?ns"] i(1)
  obtain m1 where m1: "mem_write ?m (i * int ?ns) (zeros ?ns) = Some m1" "length m1 = length ?m"
      "\<forall>j. j \<noteq> nat i \<longrightarrow> node_at ?ns m1 j = node_at ?ns ?m j"
    by auto
  have "(nat (curr q + 1) + 1) * ?ns \<le> length m1"
    using queue_node_fits[OF inv, of "nat (curr q + 1)"] c m1(2) by auto
  from shift_down_nodes[OF i(1) _ this] i(2)
  obtain m2 where m2: "shift_down ?ns i (curr q + 1) m1 = Some m2" "length m2 = length m1"
      "\<forall>j. node_at ?ns m2 j =
         (if nat i \<le> j \<and> j < nat (curr q + 1) then node_at ?ns m1 (Suc j) else node_at ?ns m1 j)"
    by auto
  let ?q = "q\<lparr>queue_mem := m2, curr := curr q - 1\<rparr>"
  have "queue_list ?q = take (nat i) ?xs @ drop (Suc (nat i)) ?xs"
  proof (rule queue_list_eqI)
    fix j assume "j < length (take (nat i) ?xs @ drop (Suc (nat i)) ?xs)"
    then show "node_at (node_size ?q) (queue_mem ?q) j = (take (nat i) ?xs @ drop (Suc (nat i)) ?xs) ! j"
      using m1(3) m2(3) c i by (auto simp: nth_append queue_list_nth min_def)
  qed (use c i in auto)
  moreover have "queue_inv ?q" using inv c m1(2) m2(2) by (auto simp: queue_inv_def)
  ultimately show ?thesis using c(3) i(2) m1(1) m2(1) by (simp add: awoke_queue_delete_def)
qed

lemma shift_down_outside:
  "0 \<le> i \<Longrightarrow> i < to \<Longrightarrow> length m < nat to * ns + ns \<Longrightarrow> shift_down ns i to m = None"
proof (induction ns i to m rule: shift_down.induct)
  case (1 ns i to m)
  show ?case
  proof (cases "copy_node ns m i (i + 1)")
    case None
    with "1.prems" show ?thesis by (simp add: shift_down.simps[of ns i])
  next
    case (Some m1)
    then have len: "length m1 = length m" "nat (i + 1) * ns + ns \<le> length m"
      using "1.prems" by (auto simp: copy_node_def mem_read_def nat_mult_distrib bind_eq_Some_conv
          dest: mem_write_length split: if_splits)
    with "1.prems" have "i + 1 < to" by (cases "i + 1 = to") auto
    with "1.IH"[OF "1.prems"(2) Some] "1.prems" len Some show ?thesis
      by (simp add: shift_down.simps[of ns i])
  qed
qed

lemma awoke_queue_delete_full:
  assumes inv: "queue_inv q" and f: "awoke_queue_full q" and ns: "0 < node_size q"
    and i: "0 \<le> i" "i \<le> curr q"
  shows "awoke_queue_delete q i = None"
proof -
  have c: "curr q + 1 = node_nr q" "\<not> awoke_queue_empty q" "0 < node_nr q"
    using inv f by (auto simp: queue_inv_def awoke_queue_full_def awoke_queue_empty_def)
  have "shift_down (node_size q) i (curr q + 1) m1 = None"
    if "mem_write (queue_mem q) (i * int (node_size q)) (zeros (node_size q)) = Some m1" for m1
    using that inv c ns i by (intro shift_down_outside) (auto dest: mem_write_length simp: queue_inv_def)
  with i c show ?thesis
    by (cases "mem_write (queue_mem q) (i * int (node_size q)) (zeros (node_size q))")
       (simp_all add: awoke_queue_delete_def)
qed

text \<open>The shift and the store of an insertion after index \<open>k - 1\<close> of the nodes held.\<close>

lemma queue_store_at:
  assumes inv: "queue_inv q" and room: "\<not> awoke_queue_full q" and u: "queue_elem q u"
    and k: "0 \<le> k" "k \<le> curr q + 1" "to + 1 = k \<or> to + 2 = k" "-1 \<le> to"
  shows "\<exists>m1 q'. shift_up (node_size q) (curr q) to (queue_mem q) = Some m1 \<and>
           mem_write m1 (k * int (node_size q)) u = Some (queue_mem q') \<and>
           c_rem (curr q + 1) (node_nr q) = Some (curr q + 1) \<and>
           q' = q\<lparr>queue_mem := queue_mem q', curr := curr q + 1\<rparr> \<and> queue_inv q' \<and>
           queue_list q' = take (nat k) (queue_list q) @ [u] @ drop (nat k) (queue_list q)"
proof -
  let ?ns = "node_size q" and ?m = "queue_mem q" and ?xs = "queue_list q"
  have c: "-1 \<le> curr q" "curr q + 1 < node_nr q"
    using inv room by (auto simp: queue_inv_def awoke_queue_full_def)
  have to: "to \<le> curr q" using k by auto
  have "(nat (curr q + 1) + 1) * ?ns \<le> length ?m"
    using queue_node_fits[OF inv, of "nat (curr q + 1)"] c by auto
  from shift_up_nodes[OF k(4) to this]
  obtain m1 where m1: "shift_up ?ns (curr q) to ?m = Some m1" "length m1 = length ?m"
      "\<forall>j. node_at ?ns m1 j =
         (if nat (to + 1) < j \<and> j \<le> nat (curr q + 1) then node_at ?ns ?m (j - 1) else node_at ?ns ?m j)"
    by blast
  have "nat k * ?ns + ?ns \<le> length m1" using queue_node_fits[OF inv, of "nat k"] c k m1(2) by auto
  from mem_write_node[OF this, of u] u k(1)
  obtain m2 where m2: "mem_write m1 (k * int ?ns) u = Some m2" "length m2 = length m1"
      "node_at ?ns m2 (nat k) = u" "\<forall>j. j \<noteq> nat k \<longrightarrow> node_at ?ns m2 j = node_at ?ns m1 j"
    by (auto simp: queue_elem_def)
  let ?q = "q\<lparr>queue_mem := m2, curr := curr q + 1\<rparr>"
  have "queue_list ?q = take (nat k) ?xs @ [u] @ drop (nat k) ?xs"
  proof (rule queue_list_eqI)
    fix j assume j: "j < length (take (nat k) ?xs @ [u] @ drop (nat k) ?xs)"
    consider "j < nat k" | "j = nat k" | "nat k < j" by linarith
    then show "node_at (node_size ?q) (queue_mem ?q) j = (take (nat k) ?xs @ [u] @ drop (nat k) ?xs) ! j"
    proof cases
      case 1
      then have "\<not> nat (to + 1) < j" "j < length ?xs" using k by auto
      with 1 show ?thesis using m1(3) m2(4) by (simp add: nth_append queue_list_nth)
    next
      case 2
      then show ?thesis using m2(3) k by (simp add: nth_append)
    next
      case 3
      then have "nat (to + 1) < j" "j \<le> nat (curr q + 1)" using k j by auto
      moreover have "(take (nat k) ?xs @ [u] @ drop (nat k) ?xs) ! j = ?xs ! (j - 1)"
        using 3 k j by (intro nth_insert_after) auto
      ultimately show ?thesis using 3 m1(3) m2(4) by (simp add: queue_list_nth)
    qed
  qed (use k c in auto)
  moreover have "queue_inv ?q" using inv c m1(2) m2(2) by (auto simp: queue_inv_def)
  moreover have "c_rem (curr q + 1) (node_nr q) = Some (curr q + 1)" using c by (simp add: c_rem_nonneg)
  ultimately show ?thesis using m1(1) m2(1) by (intro exI[of _ m1] exI[of _ ?q]) simp
qed

lemma awoke_queue_insert_after_room:
  assumes inv: "queue_inv q" and nf: "\<not> awoke_queue_full q" and u: "queue_elem q u"
    and fl: "mask_exst (flag q) AWOKE_QUEUE_F_IN" and i: "0 \<le> i" "i \<le> curr q"
  shows "\<exists>q'. awoke_queue_insert_after alloc q i u = Some (et_ok, q') \<and> queue_inv q' \<and>
           queue_list q' = take (Suc (nat i)) (queue_list q) @ [u] @ drop (Suc (nat i)) (queue_list q)"
proof -
  obtain m1 m2 where "shift_up (node_size q) (curr q) (i - 1) (queue_mem q) = Some m1"
      "mem_write m1 ((i + 1) * int (node_size q)) u = Some m2"
      "c_rem (curr q + 1) (node_nr q) = Some (curr q + 1)"
      "queue_inv (q\<lparr>queue_mem := m2, curr := curr q + 1\<rparr>)"
      "queue_list (q\<lparr>queue_mem := m2, curr := curr q + 1\<rparr>) =
         take (nat (i + 1)) (queue_list q) @ [u] @ drop (nat (i + 1)) (queue_list q)"
    using queue_store_at[OF inv nf u, of "i + 1" "i - 1"] i by force
  with nf fl i show ?thesis by (simp add: awoke_queue_insert_after_def nat_add_distrib)
qed

lemma awoke_queue_insert_after_roll:
  assumes inv: "queue_inv q" and f: "awoke_queue_full q" and u: "queue_elem q u"
    and fl: "mask_exst (flag q) AWOKE_QUEUE_F_IN" "mask_exst (flag q) AWOKE_QUEUE_F_RB"
    and al: "alloc (node_size q)" and i: "0 \<le> i" "i \<le> curr q"
  shows "\<exists>q'. awoke_queue_insert_after alloc q i u = Some (et_ok, q') \<and> queue_inv q' \<and>
           queue_list q' = take (nat i) (tl (queue_list q)) @ [u] @ drop (nat i) (tl (queue_list q))"
proof -
  have "queue_list q \<noteq> []" using i by (simp add: queue_list_Nil)
  then obtain y ys where ys: "queue_list q = y # ys" by (cases "queue_list q") auto
  obtain q1 where q1: "awoke_queue_deq q = Some (et_ok, y, q1)" "queue_inv q1" "queue_list q1 = ys"
      "node_nr q1 = node_nr q" "node_size q1 = node_size q" "flag q1 = flag q" "curr q1 = curr q - 1"
    using awoke_queue_deq_list[OF inv ys] by blast
  have "\<not> awoke_queue_full q1" "queue_elem q1 u"
    using q1 f u by (auto simp: awoke_queue_full_def queue_elem_def)
  from queue_store_at[OF q1(2) this, of i "i - 1"] i q1(7)
  obtain m1 m2 where "shift_up (node_size q1) (curr q1) (i - 1) (queue_mem q1) = Some m1"
      "mem_write m1 (i * int (node_size q1)) u = Some m2"
      "c_rem (curr q1 + 1) (node_nr q1) = Some (curr q1 + 1)"
      "queue_inv (q1\<lparr>queue_mem := m2, curr := curr q1 + 1\<rparr>)"
      "queue_list (q1\<lparr>queue_mem := m2, curr := curr q1 + 1\<rparr>) = take (nat i) ys @ [u] @ drop (nat i) ys"
    using q1(3) by force
  with f fl al i q1 ys show ?thesis by (simp add: awoke_queue_insert_after_def drop_front_def)
qed

lemma awoke_queue_create_ok:
  assumes "0 < nr" "int ns * nr < 2147483616" "alloc (sizeof_awoke_queue + ns * nat nr)"
  shows "\<exists>q. awoke_queue_create alloc ns nr fl = Some (Live q) \<and> queue_inv q \<and> queue_list q = [] \<and>
           queue_cap q = nat nr \<and> node_size q = ns \<and> flag q = fl"
proof -
  let ?s = "int sizeof_awoke_queue + int ns * nr"
  have nn: "0 \<le> int ns * nr" using assms(1) by simp
  have s: "c_int ?s = ?s" "nat (?s mod 2 ^ 64) = sizeof_awoke_queue + ns * nat nr"
    using assms nn by (auto simp: c_int_id sizeof_awoke_queue_def nat_add_distrib nat_mult_distrib)
  then show ?thesis using assms
    by (auto simp: awoke_queue_create_def Let_def queue_inv_def queue_list_Nil queue_cap_def mask_push_def
        mult.commute)
qed

lemma deq_times_list:
  "queue_inv q \<Longrightarrow> n \<le> length (queue_list q) \<Longrightarrow>
     \<exists>q'. deq_times n q = Some q' \<and> queue_inv q' \<and> queue_list q' = drop n (queue_list q) \<and>
          node_nr q' = node_nr q \<and> node_size q' = node_size q \<and> flag q' = flag q"
proof (induction n arbitrary: q)
  case 0
  then show ?case by simp
next
  case (Suc n)
  then obtain y ys where ys: "queue_list q = y # ys" by (cases "queue_list q") auto
  from awoke_queue_deq_list[OF Suc.prems(1) ys] obtain q1 where
    q1: "awoke_queue_deq q = Some (et_ok, y, q1)" "queue_inv q1" "queue_list q1 = ys"
      "node_nr q1 = node_nr q" "node_size q1 = node_size q" "flag q1 = flag q" by blast
  with Suc.IH[of q1] Suc.prems ys show ?case by auto
qed

lemma awoke_queue_clean_list:
  assumes "queue_inv q" "alloc (node_size q)"
  shows "\<exists>q'. awoke_queue_clean alloc q = Some q' \<and> queue_inv q' \<and> queue_list q' = [] \<and>
           node_nr q' = node_nr q \<and> node_size q' = node_size q \<and> flag q' = flag q"
  using deq_times_list[OF assms(1), of "length (queue_list q)"] assms
  by (auto simp: awoke_queue_clean_def awoke_queue_size_def Let_def queue_list_Nil)

lemma awoke_queue_get_nth:
  "queue_inv q \<Longrightarrow> 0 \<le> i \<Longrightarrow> i \<le> curr q \<Longrightarrow>
     awoke_queue_get q i = Some (et_ok, queue_list q ! nat i)"
  using mem_read_node[OF queue_node_fits[of q "nat i"]]
  by (auto simp: awoke_queue_get_def awoke_queue_empty_def queue_list_nth queue_inv_def)

lemma awoke_queue_first_hd:
  "queue_inv q \<Longrightarrow> queue_list q \<noteq> [] \<Longrightarrow> awoke_queue_first q = Some (et_ok, hd (queue_list q))"
  using awoke_queue_get_nth[of q 0]
  by (auto simp: awoke_queue_first_def awoke_queue_get_def queue_list_Nil hd_conv_nth)

lemma awoke_queue_last_last:
  "queue_inv q \<Longrightarrow> queue_list q \<noteq> [] \<Longrightarrow> awoke_queue_last q = Some (et_ok, last (queue_list q))"
  using awoke_queue_get_nth[of q "curr q"]
  by (auto simp: awoke_queue_last_def awoke_queue_get_def queue_list_Nil last_conv_nth nat_add_distrib)

section \<open>Properties\<close>

definition q_example :: awoke_queue where
  "q_example = \<lparr>curr = 0, node_size = 1, node_nr = 3, flag = 3, queue_mem = [7, 0, 0]\<rparr>"

lemma q_example_inv: "queue_inv q_example"
  by (simp add: q_example_def queue_inv_def)

lemma q_example_list: "queue_list q_example = [[7]]"
  by (simp add: q_example_def queue_list_def nodes_def node_at_def)

lemma q_example_flags: "mask_exst (flag q_example) AWOKE_QUEUE_F_RB" "mask_exst (flag q_example) AWOKE_QUEUE_F_IN"
  by (simp_all add: q_example_def mask_exst_def AWOKE_QUEUE_F_RB_def AWOKE_QUEUE_F_IN_def)

text \<open>C1: the queue refines a bounded FIFO. From a queue that satisfies its invariant, any
  sequence of \<open>awoke_queue_enq\<close> and \<open>awoke_queue_deq\<close> calls with nodes of the right size runs
  without touching memory outside the node storage, returns exactly what the list
  specification returns (including \<open>et_full\<close>, \<open>et_empty\<close> and the rollback of the oldest node),
  and ends in a queue that satisfies the invariant and holds the specification's list.\<close>

theorem awoke_queue_refines_fifo:
  assumes "queue_inv q" "\<forall>x \<in> enq_elems ps. length x = node_size q"
  shows "\<exists>q'. fifo_run (awoke_queue_enq (\<lambda>_. True)) queue_deq_obs q ps =
              Some (fst (spec_run (queue_cap q) (mask_exst (flag q) AWOKE_QUEUE_F_RB) (queue_list q) ps), q') \<and>
            queue_inv q' \<and>
            queue_list q' = snd (spec_run (queue_cap q) (mask_exst (flag q) AWOKE_QUEUE_F_RB) (queue_list q) ps)"
  using aq.run_refines[OF assms(1)] assms(2) by (simp add: queue_elem_def)

theorem awoke_queue_refines_fifo_witness:
  "\<exists>q'. fifo_run (awoke_queue_enq (\<lambda>_. True)) queue_deq_obs q_example [Deq, Deq, Enq [9]] =
          Some ([Dequeued et_ok (Some [7]), Dequeued et_empty None, Enqueued et_ok], q') \<and>
        queue_list q' = [[9]]"
  using awoke_queue_refines_fifo[OF q_example_inv, of "[Deq, Deq, Enq [9]]"]
  by (simp add: q_example_list) (auto simp: q_example_def queue_cap_def)

text \<open>\<open>awoke_queue_create\<close> with a positive node count whose total size fits an \<open>int\<close> returns
  NULL exactly when the allocator refuses, and otherwise an empty queue that satisfies the
  invariant, with the requested node size, capacity and flags.\<close>

theorem awoke_queue_create_correct:
  assumes "0 < nr" "int ns * nr < 2147483616"
  shows "awoke_queue_create alloc ns nr fl = Some Null \<and> \<not> alloc (sizeof_awoke_queue + ns * nat nr) \<or>
         (\<exists>q. awoke_queue_create alloc ns nr fl = Some (Live q) \<and> queue_inv q \<and> queue_list q = [] \<and>
            queue_cap q = nat nr \<and> node_size q = ns \<and> flag q = fl)"
proof (cases "alloc (sizeof_awoke_queue + ns * nat nr)")
  case True
  with awoke_queue_create_ok[of nr ns alloc] assms show ?thesis by blast
next
  case False
  have "0 \<le> int ns * nr" using assms(1) by simp
  with False assms show ?thesis
    by (simp add: awoke_queue_create_def c_int_id sizeof_awoke_queue_def Let_def nat_add_distrib nat_mult_distrib)
qed

theorem awoke_queue_create_correct_witness:
  "\<exists>q. awoke_queue_create (\<lambda>_. True) 4 8 0 = Some (Live q) \<and> queue_inv q \<and> queue_cap q = 8"
  using awoke_queue_create_correct[of 8 4 "\<lambda>_. True" 0] by auto

text \<open>Inserting after an index puts the node directly behind the node at that index and keeps
  the order of all the others; on a full queue with the rollback flag the oldest node is
  dropped and the node still lands behind the one the index named.\<close>

theorem awoke_queue_insert_after_correct:
  assumes "queue_inv q" "length u = node_size q" "mask_exst (flag q) AWOKE_QUEUE_F_IN"
    and "0 \<le> i" "i \<le> curr q" "alloc (node_size q)"
    and "awoke_queue_full q \<longrightarrow> mask_exst (flag q) AWOKE_QUEUE_F_RB"
  shows "\<exists>q'. awoke_queue_insert_after alloc q i u = Some (et_ok, q') \<and> queue_inv q' \<and>
           queue_list q' =
             (let ins = take (Suc (nat i)) (queue_list q) @ [u] @ drop (Suc (nat i)) (queue_list q)
              in if awoke_queue_full q then tl ins else ins)"
proof (cases "awoke_queue_full q")
  case True
  have "queue_list q \<noteq> []" using assms(4,5) by (simp add: queue_list_Nil)
  then have "tl (take (Suc (nat i)) (queue_list q) @ [u] @ drop (Suc (nat i)) (queue_list q)) =
      take (nat i) (tl (queue_list q)) @ [u] @ drop (nat i) (tl (queue_list q))"
    by (cases "queue_list q") auto
  with awoke_queue_insert_after_roll[of q u alloc i] assms True show ?thesis
    by (simp add: queue_elem_def)
next
  case False
  with awoke_queue_insert_after_room[of q u i alloc] assms show ?thesis by (simp add: queue_elem_def)
qed

theorem awoke_queue_insert_after_correct_witness:
  "\<exists>q'. awoke_queue_insert_after (\<lambda>_. True) q_example 0 [5] = Some (et_ok, q') \<and> queue_list q' = [[7], [5]]"
  using awoke_queue_insert_after_correct[of q_example "[5]" 0 "\<lambda>_. True"] q_example_inv q_example_flags
  by (simp add: q_example_list) (auto simp: q_example_def awoke_queue_full_def)

text \<open>C6: \<open>awoke_queue_delete\<close> on a queue that is not full removes exactly the node at the index and
  keeps the order of the others; on a full queue its copy loop reads one node past the end of
  the node storage, so every deletion from a full queue is undefined behaviour.\<close>

theorem awoke_queue_delete_correct:
  assumes "queue_inv q" "0 < node_size q" "0 \<le> i" "i \<le> curr q"
  shows "if awoke_queue_full q then awoke_queue_delete q i = None
         else \<exists>q'. awoke_queue_delete q i = Some (et_ok, q') \<and> queue_inv q' \<and>
                queue_list q' = take (nat i) (queue_list q) @ drop (Suc (nat i)) (queue_list q)"
  using awoke_queue_delete_list[OF assms(1) _ assms(3,4)] awoke_queue_delete_full[OF assms(1) _ assms(2-4)]
  by simp

theorem awoke_queue_delete_correct_witness:
  "(\<exists>q'. awoke_queue_delete q_example 0 = Some (et_ok, q') \<and> queue_list q' = []) \<and>
   awoke_queue_delete (q_example\<lparr>curr := 2\<rparr>) 1 = None"
  using awoke_queue_delete_correct[of q_example 0] q_example_inv
    awoke_queue_delete_correct[of "q_example\<lparr>curr := 2\<rparr>" 1]
  by (auto simp: q_example_def queue_inv_def awoke_queue_full_def queue_list_def nodes_def)

text \<open>Cleaning empties the queue and leaves it usable: the loop of dequeues terminates inside
  the node storage, and the capacity, node size and flags are unchanged.\<close>

theorem awoke_queue_clean_correct:
  assumes "queue_inv q" "alloc (node_size q)"
  shows "\<exists>q'. awoke_queue_clean alloc q = Some q' \<and> queue_inv q' \<and> queue_list q' = [] \<and>
           awoke_queue_size q' = 0 \<and> node_nr q' = node_nr q \<and> node_size q' = node_size q \<and> flag q' = flag q"
  using awoke_queue_clean_list[where alloc = alloc, OF assms]
  by (auto simp: awoke_queue_size_def queue_list_Nil queue_inv_def)

theorem awoke_queue_clean_correct_witness:
  "\<exists>q'. awoke_queue_clean (\<lambda>_. True) q_example = Some q' \<and> queue_list q' = [] \<and> node_nr q' = 3"
  using awoke_queue_clean_correct[OF q_example_inv, of "\<lambda>_. True"] by (auto simp: q_example_def)

end
