(* ===== verification/Awoke_Fifo.thy ===== *)
theory Awoke_Fifo
  imports Fifo_Spec
begin

text \<open>
  The ring buffers \<open>awoke_fifo\<close> and array FIFO (\<open>awoke_afifo\<close>) of
  \<open>lib/libutil/src/awoke_queue.c\<close>. The counters are \<open>unsigned int\<close>, so they are 32-bit
  words: a fresh ring has \<open>tail = -1\<close>, that is 0xffffffff, and its first enqueue
  relies on \<open>tail + 1\<close> wrapping to 0. The arguments that the code tests for NULL are
  options; a zero capacity makes \<open>%\<close> undefined. \<open>fifo_list\<close> reads the ring from \<open>head\<close>.
\<close>

record awoke_fifo =
  fifo_mem :: bytes
  fifo_flags :: u16
  nodesize :: nat
  head :: u32
  tail :: u32
  fifo_nr :: u32
  capacity :: u32

definition AWOKE_FIFO_F_CDF :: u16 where "AWOKE_FIFO_F_CDF = 0x0001"
definition AWOKE_FIFO_F_RES :: u16 where "AWOKE_FIFO_F_RES = 0x0002"
definition AWOKE_FIFO_F_RBK :: u16 where "AWOKE_FIFO_F_RBK = 0x0004"

text \<open>\<open>%\<close> on unsigned integers, and the byte offset of a slot.\<close>

definition u_rem :: "u32 \<Rightarrow> u32 \<Rightarrow> u32 option" where
  "u_rem a b = (if b = 0 then None else Some (a mod b))"

definition slot_off :: "awoke_fifo \<Rightarrow> u32 \<Rightarrow> int" where
  "slot_off f i = int (unat i) * int (nodesize f)"

definition awoke_fifo_empty :: "awoke_fifo option \<Rightarrow> bool" where
  "awoke_fifo_empty fp = (case fp of None \<Rightarrow> False | Some f \<Rightarrow> fifo_nr f = 0)"

definition awoke_fifo_full :: "awoke_fifo option \<Rightarrow> bool" where
  "awoke_fifo_full fp = (case fp of None \<Rightarrow> False | Some f \<Rightarrow> fifo_nr f = capacity f)"

definition awoke_fifo_resize :: "awoke_fifo option \<Rightarrow> u32 \<Rightarrow> err_type \<times> awoke_fifo option" where
  "awoke_fifo_resize fp cap = (et_ok, fp)"

definition awoke_fifo_size :: "awoke_fifo option \<Rightarrow> u32 option" where
  "awoke_fifo_size fp = map_option fifo_nr fp"

definition awoke_fifo_get ::
  "awoke_fifo option \<Rightarrow> bytes option \<Rightarrow> int \<Rightarrow> (err_type \<times> bytes option) option" where
  "awoke_fifo_get fp u index = (case (fp, u) of
      (Some f, Some _) \<Rightarrow>
        if index < 0 then Some (et_param, u)
        else if awoke_fifo_empty fp then Some (et_empty, u)
        else do {
          s \<leftarrow> u_rem (head f + word_of_int index) (capacity f);
          x \<leftarrow> mem_read (fifo_mem f) (slot_off f s) (nodesize f);
          Some (et_ok, Some x) }
    | _ \<Rightarrow> Some (et_param, u))"

definition awoke_fifo_dequeue ::
  "awoke_fifo option \<Rightarrow> bytes option \<Rightarrow> (err_type \<times> bytes option \<times> awoke_fifo option) option" where
  "awoke_fifo_dequeue fp u = (case (fp, u) of
      (Some f, Some _) \<Rightarrow>
        if awoke_fifo_empty fp then Some (et_empty, u, fp)
        else do {
          x \<leftarrow> mem_read (fifo_mem f) (slot_off f (head f)) (nodesize f);
          h \<leftarrow> u_rem (head f + 1) (capacity f);
          Some (et_ok, Some x, Some (f\<lparr>head := h, fifo_nr := fifo_nr f - 1\<rparr>)) }
    | _ \<Rightarrow> Some (et_param, u, fp))"

text \<open>The store at the slot after \<open>tail\<close>, common to both enqueue functions.\<close>

definition fifo_store :: "awoke_fifo \<Rightarrow> bytes \<Rightarrow> (err_type \<times> awoke_fifo option) option" where
  "fifo_store f x = do {
     t \<leftarrow> u_rem (tail f + 1) (capacity f);
     m \<leftarrow> mem_write (fifo_mem f) (slot_off f t) x;
     Some (et_ok, Some (f\<lparr>tail := t, fifo_mem := m, fifo_nr := fifo_nr f + 1\<rparr>)) }"

definition awoke_fifo_enqueue ::
  "allocator \<Rightarrow> awoke_fifo option \<Rightarrow> bytes option \<Rightarrow> (err_type \<times> awoke_fifo option) option" where
  "awoke_fifo_enqueue alloc fp u = (case (fp, u) of
      (Some f, Some x) \<Rightarrow>
        if awoke_fifo_full fp then
          if mask_exst (fifo_flags f) AWOKE_FIFO_F_RBK then do {
            (_, _, fp1) \<leftarrow> awoke_fifo_dequeue fp
                            (if alloc (nodesize f) then Some (zeros (nodesize f)) else None);
            f1 \<leftarrow> fp1;
            fifo_store f1 x }
          else if mask_exst (fifo_flags f) AWOKE_FIFO_F_RES then do {
            f1 \<leftarrow> snd (awoke_fifo_resize fp (capacity f * 2));
            fifo_store f1 x }
          else Some (et_full, fp)
        else fifo_store f x
    | _ \<Rightarrow> Some (et_param, fp))"

text \<open>
  Creation. \<open>sizeof(awoke_fifo)\<close> is 64 on the 64-bit target. The allocation of the node
  storage is not checked: a NULL block is the empty block, which no access may touch.
\<close>

definition sizeof_awoke_fifo :: nat where "sizeof_awoke_fifo = 64"

definition fifo_allocnr :: "int \<Rightarrow> nat" where
  "fifo_allocnr cap = (if cap = 0 then 1 else nat cap)"

definition awoke_fifo_create :: "allocator \<Rightarrow> nat \<Rightarrow> int \<Rightarrow> u16 \<Rightarrow> awoke_fifo option" where
  "awoke_fifo_create alloc ns cap fl =
     (if ns = 0 then None
      else if cap < 0 then None
      else if \<not> alloc sizeof_awoke_fifo then None
      else
        let fl0 = (if cap = 0 then mask_push 0 AWOKE_FIFO_F_RES else 0);
            n = fifo_allocnr cap * ns
        in Some \<lparr>fifo_mem = (if alloc n then zeros n else []), fifo_flags = mask_push fl0 fl,
                 nodesize = ns, head = 0, tail = -1, fifo_nr = 0, capacity = word_of_int cap\<rparr>)"

definition awoke_fifo_init ::
  "awoke_fifo \<Rightarrow> bytes \<Rightarrow> int \<Rightarrow> int \<Rightarrow> u16 \<Rightarrow> err_type \<times> awoke_fifo" where
  "awoke_fifo_init f addr ns cap fl =
     (if ns \<le> 0 then (et_param, f)
      else if cap < 0 then (et_param, f)
      else
        let fl0 = (if cap = 0 then mask_push (fifo_flags f) AWOKE_FIFO_F_RES else fifo_flags f)
        in (et_ok, f\<lparr>head := 0, tail := -1, fifo_nr := 0, nodesize := nat ns, capacity := word_of_int cap,
                     fifo_flags := mask_push fl0 fl, fifo_mem := addr\<rparr>))"

definition awoke_afifo_create :: "bytes \<Rightarrow> int \<Rightarrow> int \<Rightarrow> awoke_fifo \<Rightarrow> awoke_fifo" where
  "awoke_afifo_create addr ns cap f =
     (if ns \<le> 0 then f
      else if cap < 0 then f
      else f\<lparr>head := 0, tail := -1, fifo_nr := 0, nodesize := nat ns, capacity := word_of_int cap,
             fifo_flags := mask_push (fifo_flags f) AWOKE_FIFO_F_RBK, fifo_mem := addr\<rparr>)"

definition awoke_afifo_enqueue ::
  "awoke_fifo option \<Rightarrow> bytes option \<Rightarrow> (err_type \<times> awoke_fifo option) option" where
  "awoke_afifo_enqueue fp u = (case (fp, u) of
      (Some f, Some x) \<Rightarrow>
        if awoke_fifo_full fp then
          if mask_exst (fifo_flags f) AWOKE_FIFO_F_RBK then do {
            m \<leftarrow> mem_write (fifo_mem f) (slot_off f (head f)) (zeros (nodesize f));
            h \<leftarrow> u_rem (head f + 1) (capacity f);
            fifo_store (f\<lparr>fifo_mem := m, head := h, fifo_nr := fifo_nr f - 1\<rparr>) x }
          else Some (et_full, fp)
        else fifo_store f x
    | _ \<Rightarrow> Some (et_param, fp))"

definition awoke_afifo_dequeue ::
  "awoke_fifo option \<Rightarrow> bytes option \<Rightarrow> (err_type \<times> bytes option \<times> awoke_fifo option) option" where
  "awoke_afifo_dequeue fp u = (case (fp, u) of
      (Some f, Some _) \<Rightarrow>
        if awoke_fifo_empty fp then Some (et_empty, u, fp)
        else do {
          x \<leftarrow> mem_read (fifo_mem f) (slot_off f (head f)) (nodesize f);
          h \<leftarrow> u_rem (head f + 1) (capacity f);
          Some (et_ok, Some x, Some (f\<lparr>head := h, fifo_nr := fifo_nr f - 1\<rparr>)) }
    | _ \<Rightarrow> Some (et_param, u, fp))"

section \<open>Invariant and abstraction\<close>

definition ring_inv :: "awoke_fifo \<Rightarrow> bool" where
  "ring_inv f \<longleftrightarrow> 0 < unat (capacity f) \<and> unat (fifo_nr f) \<le> unat (capacity f) \<and>
     unat (head f) < unat (capacity f) \<and>
     unat ((tail f + 1) mod capacity f) = (unat (head f) + unat (fifo_nr f)) mod unat (capacity f) \<and>
     unat (capacity f) * nodesize f \<le> length (fifo_mem f)"

text \<open>The resize flag is honoured only where the rollback flag is set too.\<close>

definition fifo_inv :: "awoke_fifo \<Rightarrow> bool" where
  "fifo_inv f \<longleftrightarrow> ring_inv f \<and>
     (mask_exst (fifo_flags f) AWOKE_FIFO_F_RES \<longrightarrow> mask_exst (fifo_flags f) AWOKE_FIFO_F_RBK)"

definition ring_slot :: "awoke_fifo \<Rightarrow> nat \<Rightarrow> nat" where
  "ring_slot f i = (unat (head f) + i) mod unat (capacity f)"

definition fifo_list :: "awoke_fifo \<Rightarrow> bytes list" where
  "fifo_list f = map (\<lambda>i. node_at (nodesize f) (fifo_mem f) (ring_slot f i)) [0..<unat (fifo_nr f)]"

definition fifo_cap :: "awoke_fifo \<Rightarrow> nat" where
  "fifo_cap f = unat (capacity f)"

definition fifo_elem :: "awoke_fifo \<Rightarrow> bytes \<Rightarrow> bool" where
  "fifo_elem f x \<longleftrightarrow> length x = nodesize f"

lemma fifo_elem_cong: "nodesize f' = nodesize f \<Longrightarrow> fifo_elem f' = fifo_elem f"
  by (intro ext) (simp add: fifo_elem_def)

lemma fifo_list_length [simp]: "length (fifo_list f) = unat (fifo_nr f)"
  by (simp add: fifo_list_def)

lemma fifo_list_nth:
  "i < unat (fifo_nr f) \<Longrightarrow> fifo_list f ! i = node_at (nodesize f) (fifo_mem f) (ring_slot f i)"
  by (simp add: fifo_list_def)

lemma fifo_list_eqI:
  "unat (fifo_nr f) = length xs \<Longrightarrow>
   (\<And>i. i < length xs \<Longrightarrow> node_at (nodesize f) (fifo_mem f) (ring_slot f i) = xs ! i) \<Longrightarrow> fifo_list f = xs"
  by (simp add: list_eq_iff_nth_eq fifo_list_nth)

section \<open>Lemmas: modular slots\<close>

lemma mod_slots_distinct:
  assumes "i < j" "j - i < c"
  shows "(h + i) mod c \<noteq> (h + j) mod (c::nat)"
proof
  assume "(h + i) mod c = (h + j) mod c"
  then have "c dvd (h + j) - (h + i)" by (metis mod_eq_dvd_iff_nat add_le_mono less_imp_le_nat assms(1) order_refl)
  then have "c dvd j - i" by simp
  with assms show False by (auto dest: dvd_imp_le)
qed

lemma u_rem_Some: "0 < unat b \<Longrightarrow> u_rem a b = Some (a mod b)"
  by (auto simp: u_rem_def)

lemma unat_Suc_mod:
  assumes "unat a < unat b"
  shows "unat ((a + 1) mod b) = Suc (unat a) mod unat (b::u32)"
proof -
  have "unat a + 1 < 2 ^ 32" using assms unat_u32_less[of b] by simp
  then have "unat (a + 1) = Suc (unat a)" by (simp add: unat_word_ariths)
  then show ?thesis by (simp add: unat_mod)
qed

lemma ring_slot_less: "ring_inv f \<Longrightarrow> ring_slot f i < unat (capacity f)"
  by (simp add: ring_slot_def ring_inv_def)

lemma ring_slot_fits:
  "ring_inv f \<Longrightarrow> ring_slot f i * nodesize f + nodesize f \<le> length (fifo_mem f)"
  using node_fits[OF ring_slot_less] by (simp add: ring_inv_def)

lemma fifo_full_iff: "awoke_fifo_full (Some f) \<longleftrightarrow> length (fifo_list f) = fifo_cap f"
  by (simp add: awoke_fifo_full_def fifo_cap_def word_unat_eq_iff)

lemma fifo_empty_iff: "awoke_fifo_empty (Some f) \<longleftrightarrow> fifo_list f = []"
  by (simp add: awoke_fifo_empty_def unat_eq_0 flip: length_0_conv)

section \<open>Lemmas: storing and dropping\<close>

lemma fifo_store_room:
  assumes inv: "ring_inv f" and x: "fifo_elem f x" and room: "unat (fifo_nr f) < unat (capacity f)"
  shows "\<exists>f'. fifo_store f x = Some (et_ok, Some f') \<and> ring_inv f' \<and> fifo_list f' = fifo_list f @ [x] \<and>
           capacity f' = capacity f \<and> nodesize f' = nodesize f \<and> fifo_flags f' = fifo_flags f"
proof -
  let ?ns = "nodesize f" and ?c = "unat (capacity f)" and ?n = "unat (fifo_nr f)"
  let ?t = "(tail f + 1) mod capacity f"
  have t: "unat ?t = ring_slot f ?n" "0 < ?c" using inv by (auto simp: ring_inv_def ring_slot_def)
  from mem_write_node[OF ring_slot_fits[OF inv, of ?n]] x
  obtain m where m: "mem_write (fifo_mem f) (slot_off f ?t) x = Some m" "length m = length (fifo_mem f)"
      "node_at ?ns m (ring_slot f ?n) = x"
      "\<forall>j. j \<noteq> ring_slot f ?n \<longrightarrow> node_at ?ns m j = node_at ?ns (fifo_mem f) j"
    by (auto simp: fifo_elem_def slot_off_def t)
  let ?f = "f\<lparr>tail := ?t, fifo_mem := m, fifo_nr := fifo_nr f + 1\<rparr>"
  have "?n + 1 < 2 ^ 32" using room unat_u32_less[of "capacity f"] by simp
  then have n: "unat (fifo_nr f + 1) = Suc ?n" by (simp add: unat_word_ariths)
  have "unat ?t < ?c" using t(2) by (simp add: unat_mod)
  then have "unat ((?t + 1) mod capacity f) = Suc ((unat (head f) + ?n) mod ?c) mod ?c"
    using t(1) by (simp add: unat_Suc_mod ring_slot_def)
  then have inv': "ring_inv ?f"
    using inv room n m(2) by (simp add: ring_inv_def mod_Suc_eq)
  have "fifo_list ?f = fifo_list f @ [x]"
  proof (rule fifo_list_eqI)
    fix i assume "i < length (fifo_list f @ [x])"
    then consider "i < ?n" | "i = ?n" by fastforce
    then show "node_at (nodesize ?f) (fifo_mem ?f) (ring_slot ?f i) = (fifo_list f @ [x]) ! i"
    proof cases
      case 1
      then have "ring_slot f i \<noteq> ring_slot f ?n"
        unfolding ring_slot_def using room by (intro mod_slots_distinct) auto
      with 1 m(4) show ?thesis by (simp add: nth_append fifo_list_nth ring_slot_def)
    next
      case 2
      with m(3) show ?thesis by (simp add: nth_append ring_slot_def)
    qed
  qed (simp add: n)
  with inv' m(1) t(2) show ?thesis by (simp add: fifo_store_def u_rem_Some)
qed

lemma ring_drop_front:
  assumes inv: "ring_inv f" and ne: "fifo_list f = y # ys"
    and m: "length m = length (fifo_mem f)"
      "\<forall>j. j \<noteq> unat (head f) \<longrightarrow> node_at (nodesize f) m j = node_at (nodesize f) (fifo_mem f) j"
  shows "ring_inv (f\<lparr>fifo_mem := m, head := (head f + 1) mod capacity f, fifo_nr := fifo_nr f - 1\<rparr>)"
    and "fifo_list (f\<lparr>fifo_mem := m, head := (head f + 1) mod capacity f, fifo_nr := fifo_nr f - 1\<rparr>) = ys"
    and "mem_read (fifo_mem f) (slot_off f (head f)) (nodesize f) = Some y"
proof -
  let ?f = "f\<lparr>fifo_mem := m, head := (head f + 1) mod capacity f, fifo_nr := fifo_nr f - 1\<rparr>"
  let ?c = "unat (capacity f)"
  have n: "unat (fifo_nr f) = Suc (length ys)" using ne fifo_list_length[of f] by (simp del: fifo_list_length)
  then have "fifo_nr f \<noteq> 0" by auto
  then have n': "unat (fifo_nr f - 1) = length ys" using n by (simp add: unat_minus_one)
  have h: "unat (head f) < ?c" using inv by (simp add: ring_inv_def)
  have h': "unat ((head f + 1) mod capacity f) = Suc (unat (head f)) mod ?c" by (rule unat_Suc_mod[OF h])
  have slot: "ring_slot ?f i = ring_slot f (Suc i)" for i
    by (simp add: ring_slot_def h' mod_add_left_eq)
  show "ring_inv ?f"
    using inv n n' h' m(1) unfolding ring_inv_def
    by (simp add: mod_add_left_eq)
  have s0: "ring_slot f 0 = unat (head f)" using h by (simp add: ring_slot_def)
  show "fifo_list ?f = ys"
  proof (rule fifo_list_eqI)
    fix i assume i: "i < length ys"
    have "Suc i < ?c" using i n inv by (simp add: ring_inv_def)
    then have "ring_slot f (Suc i) \<noteq> ring_slot f 0"
      unfolding ring_slot_def using mod_slots_distinct[of 0 "Suc i" ?c "unat (head f)"] by simp
    then show "node_at (nodesize ?f) (fifo_mem ?f) (ring_slot ?f i) = ys ! i"
      using m(2) s0 i n ne fifo_list_nth[of "Suc i" f] by (simp add: slot)
  qed (simp add: n')
  show "mem_read (fifo_mem f) (slot_off f (head f)) (nodesize f) = Some y"
    using mem_read_node[OF ring_slot_fits[OF inv, of 0]] s0 n ne fifo_list_nth[of 0 f]
    by (simp add: slot_off_def)
qed

section \<open>The operations on the list of nodes\<close>

lemma mem_unchanged: "f\<lparr>head := h, fifo_nr := n\<rparr> = f\<lparr>fifo_mem := fifo_mem f, head := h, fifo_nr := n\<rparr>"
  by simp

lemma awoke_fifo_dequeue_list:
  assumes "ring_inv f" "fifo_list f = y # ys"
  shows "\<exists>f'. awoke_fifo_dequeue (Some f) (Some u) = Some (et_ok, Some y, Some f') \<and> ring_inv f' \<and>
           fifo_list f' = ys \<and> capacity f' = capacity f \<and> nodesize f' = nodesize f \<and>
           fifo_flags f' = fifo_flags f"
proof -
  note d = ring_drop_front[OF assms refl, folded mem_unchanged]
  have "0 < unat (capacity f)" "\<not> awoke_fifo_empty (Some f)"
    using assms by (simp_all add: ring_inv_def fifo_empty_iff)
  with d show ?thesis by (simp add: awoke_fifo_dequeue_def u_rem_Some)
qed

lemma awoke_afifo_dequeue_eq: "awoke_afifo_dequeue = awoke_fifo_dequeue"
  by (intro ext) (simp add: awoke_afifo_dequeue_def awoke_fifo_dequeue_def)

lemma fifo_full_ne:
  assumes "ring_inv f" "length (fifo_list f) = fifo_cap f"
  obtains y ys where "fifo_list f = y # ys"
proof -
  have "0 < length (fifo_list f)" using assms by (simp add: ring_inv_def fifo_cap_def)
  then show ?thesis using that by (cases "fifo_list f") auto
qed

lemma awoke_fifo_enqueue_room:
  assumes "ring_inv f" "fifo_elem f x" "length (fifo_list f) < fifo_cap f"
  shows "\<exists>f'. awoke_fifo_enqueue alloc (Some f) (Some x) = Some (et_ok, Some f') \<and> ring_inv f' \<and>
           fifo_list f' = fifo_list f @ [x] \<and> capacity f' = capacity f \<and> nodesize f' = nodesize f \<and>
           fifo_flags f' = fifo_flags f"
  using fifo_store_room[OF assms(1,2)] assms(3)
  by (simp add: awoke_fifo_enqueue_def fifo_full_iff) (simp add: fifo_cap_def)

lemma awoke_fifo_enqueue_roll:
  assumes inv: "ring_inv f" and x: "fifo_elem f x" and full: "length (fifo_list f) = fifo_cap f"
    and rb: "mask_exst (fifo_flags f) AWOKE_FIFO_F_RBK" and al: "alloc (nodesize f)"
  shows "\<exists>f'. awoke_fifo_enqueue alloc (Some f) (Some x) = Some (et_ok, Some f') \<and> ring_inv f' \<and>
           fifo_list f' = tl (fifo_list f) @ [x] \<and> capacity f' = capacity f \<and> nodesize f' = nodesize f \<and>
           fifo_flags f' = fifo_flags f"
proof -
  obtain y ys where ys: "fifo_list f = y # ys" using fifo_full_ne[OF inv full] .
  from awoke_fifo_dequeue_list[OF inv ys, of "zeros (nodesize f)"] obtain f1 where
    f1: "awoke_fifo_dequeue (Some f) (Some (zeros (nodesize f))) = Some (et_ok, Some y, Some f1)"
      "ring_inv f1" "fifo_list f1 = ys" "capacity f1 = capacity f" "nodesize f1 = nodesize f"
      "fifo_flags f1 = fifo_flags f" by blast
  have "unat (fifo_nr f1) < unat (capacity f1)" "fifo_elem f1 x"
    using f1 ys full x fifo_list_length[of f1] by (simp_all add: fifo_cap_def fifo_elem_def del: fifo_list_length)
  from fifo_store_room[OF f1(2) this(2,1)] f1 full rb al ys show ?thesis
    by (auto simp: awoke_fifo_enqueue_def fifo_full_iff)
qed

lemma awoke_fifo_enqueue_full:
  "length (fifo_list f) = fifo_cap f \<Longrightarrow> \<not> mask_exst (fifo_flags f) AWOKE_FIFO_F_RBK \<Longrightarrow>
   \<not> mask_exst (fifo_flags f) AWOKE_FIFO_F_RES \<Longrightarrow>
     awoke_fifo_enqueue alloc (Some f) (Some x) = Some (et_full, Some f)"
  by (simp add: awoke_fifo_enqueue_def fifo_full_iff)

lemma awoke_afifo_enqueue_room:
  assumes "ring_inv f" "fifo_elem f x" "length (fifo_list f) < fifo_cap f"
  shows "\<exists>f'. awoke_afifo_enqueue (Some f) (Some x) = Some (et_ok, Some f') \<and> ring_inv f' \<and>
           fifo_list f' = fifo_list f @ [x] \<and> capacity f' = capacity f \<and> nodesize f' = nodesize f \<and>
           fifo_flags f' = fifo_flags f"
  using fifo_store_room[OF assms(1,2)] assms(3)
  by (simp add: awoke_afifo_enqueue_def fifo_full_iff) (simp add: fifo_cap_def)

lemma awoke_afifo_enqueue_roll:
  assumes inv: "ring_inv f" and x: "fifo_elem f x" and full: "length (fifo_list f) = fifo_cap f"
    and rb: "mask_exst (fifo_flags f) AWOKE_FIFO_F_RBK"
  shows "\<exists>f'. awoke_afifo_enqueue (Some f) (Some x) = Some (et_ok, Some f') \<and> ring_inv f' \<and>
           fifo_list f' = tl (fifo_list f) @ [x] \<and> capacity f' = capacity f \<and> nodesize f' = nodesize f \<and>
           fifo_flags f' = fifo_flags f"
proof -
  obtain y ys where ys: "fifo_list f = y # ys" using fifo_full_ne[OF inv full] .
  have cap: "0 < unat (capacity f)" and s0: "ring_slot f 0 = unat (head f)"
    using inv by (auto simp: ring_inv_def ring_slot_def)
  from mem_write_node[OF ring_slot_fits[OF inv, of 0], of "zeros (nodesize f)"]
  obtain m where m: "mem_write (fifo_mem f) (slot_off f (head f)) (zeros (nodesize f)) = Some m"
      "length m = length (fifo_mem f)"
      "\<forall>j. j \<noteq> unat (head f) \<longrightarrow> node_at (nodesize f) m j = node_at (nodesize f) (fifo_mem f) j"
    by (auto simp: slot_off_def s0)
  let ?f = "f\<lparr>fifo_mem := m, head := (head f + 1) mod capacity f, fifo_nr := fifo_nr f - 1\<rparr>"
  note d = ring_drop_front(1,2)[OF inv ys m(2,3)]
  have "unat (fifo_nr ?f) < unat (capacity ?f)" "fifo_elem ?f x"
    using d(2) ys full x fifo_list_length[of ?f] by (simp_all add: fifo_cap_def fifo_elem_def del: fifo_list_length)
  from fifo_store_room[OF d(1) this(2,1)] d(2) full rb ys m(1) cap show ?thesis
    by (auto simp: awoke_afifo_enqueue_def fifo_full_iff u_rem_Some)
qed

text \<open>Both rings implement the bounded FIFO.\<close>

definition fifo_enq_obs :: "allocator \<Rightarrow> awoke_fifo \<Rightarrow> bytes \<Rightarrow> (err_type \<times> awoke_fifo) option" where
  "fifo_enq_obs alloc f x = do {
     (e, fp) \<leftarrow> awoke_fifo_enqueue alloc (Some f) (Some x); f' \<leftarrow> fp; Some (e, f') }"

definition afifo_enq_obs :: "awoke_fifo \<Rightarrow> bytes \<Rightarrow> (err_type \<times> awoke_fifo) option" where
  "afifo_enq_obs f x = do {
     (e, fp) \<leftarrow> awoke_afifo_enqueue (Some f) (Some x); f' \<leftarrow> fp; Some (e, f') }"

definition deq_obs ::
  "(awoke_fifo option \<Rightarrow> bytes option \<Rightarrow> (err_type \<times> bytes option \<times> awoke_fifo option) option) \<Rightarrow>
   awoke_fifo \<Rightarrow> (err_type \<times> bytes option \<times> awoke_fifo) option" where
  "deq_obs dequeue f = do {
     (e, u, fp) \<leftarrow> dequeue (Some f) (Some (zeros (nodesize f)));
     f' \<leftarrow> fp;
     Some (e, if e = et_ok then u else None, f') }"

lemmas fifo_obs_defs = fifo_enq_obs_def afifo_enq_obs_def deq_obs_def fifo_cap_def fifo_inv_def

lemma deq_obs_empty:
  "fifo_list f = [] \<Longrightarrow> deq_obs awoke_fifo_dequeue f = Some (et_empty, None, f)"
  by (simp add: deq_obs_def awoke_fifo_dequeue_def fifo_empty_iff)

lemma deq_obs_list:
  assumes "fifo_inv f" "fifo_list f = y # ys"
  shows "\<exists>f'. deq_obs awoke_fifo_dequeue f = Some (et_ok, Some y, f') \<and> fifo_inv f' \<and> fifo_list f' = ys \<and>
           fifo_cap f' = fifo_cap f \<and>
           mask_exst (fifo_flags f') AWOKE_FIFO_F_RBK = mask_exst (fifo_flags f) AWOKE_FIFO_F_RBK \<and>
           fifo_elem f' = fifo_elem f"
  using awoke_fifo_dequeue_list[OF _ assms(2), of "zeros (nodesize f)"] assms(1)
  by (auto simp: deq_obs_def fifo_inv_def fifo_cap_def intro: fifo_elem_cong)

interpretation rq: bounded_fifo fifo_inv fifo_list fifo_cap
  "\<lambda>f. mask_exst (fifo_flags f) AWOKE_FIFO_F_RBK" fifo_elem "fifo_enq_obs (\<lambda>_. True)"
  "deq_obs awoke_fifo_dequeue"
proof (unfold_locales, goal_cases)
  case (3 f x)
  from 3 awoke_fifo_enqueue_room[of f x "\<lambda>_. True"] show ?case
    by (auto simp: fifo_inv_def fifo_enq_obs_def) (auto simp: fifo_obs_defs intro: fifo_elem_cong)
next
  case (4 f x)
  from 4 awoke_fifo_enqueue_roll[of f x "\<lambda>_. True"] show ?case
    by (auto simp: fifo_inv_def fifo_enq_obs_def) (auto simp: fifo_obs_defs intro: fifo_elem_cong)
next
  case (5 f x)
  then show ?case by (auto simp: fifo_inv_def fifo_enq_obs_def awoke_fifo_enqueue_full)
next
  case (6 f)
  then show ?case by (simp add: deq_obs_empty)
next
  case (7 f y ys)
  then show ?case by (rule deq_obs_list)
qed (simp_all add: fifo_inv_def ring_inv_def fifo_cap_def)

interpretation arq: bounded_fifo fifo_inv fifo_list fifo_cap
  "\<lambda>f. mask_exst (fifo_flags f) AWOKE_FIFO_F_RBK" fifo_elem afifo_enq_obs "deq_obs awoke_afifo_dequeue"
proof (unfold_locales, goal_cases)
  case (3 f x)
  from 3 awoke_afifo_enqueue_room[of f x] show ?case
    by (auto simp: fifo_inv_def afifo_enq_obs_def) (auto simp: fifo_obs_defs intro: fifo_elem_cong)
next
  case (4 f x)
  from 4 awoke_afifo_enqueue_roll[of f x] show ?case
    by (auto simp: fifo_inv_def afifo_enq_obs_def) (auto simp: fifo_obs_defs intro: fifo_elem_cong)
next
  case (5 f x)
  then show ?case by (auto simp: afifo_enq_obs_def awoke_afifo_enqueue_def fifo_full_iff)
next
  case (6 f)
  then show ?case by (simp add: deq_obs_empty awoke_afifo_dequeue_eq)
next
  case (7 f y ys)
  then show ?case unfolding awoke_afifo_dequeue_eq by (rule deq_obs_list)
qed (simp_all add: fifo_inv_def ring_inv_def fifo_cap_def)

section \<open>Lemmas: creation, and where the resize flag leads\<close>

lemma awoke_fifo_create_ok:
  assumes "0 < ns" "0 < cap" "cap < 4294967296" "alloc sizeof_awoke_fifo" "alloc (nat cap * ns)"
    and "mask_exst fl AWOKE_FIFO_F_RES \<longrightarrow> mask_exst fl AWOKE_FIFO_F_RBK"
  shows "\<exists>f. awoke_fifo_create alloc ns cap fl = Some f \<and> fifo_inv f \<and> fifo_list f = [] \<and>
           fifo_cap f = nat cap \<and> nodesize f = ns \<and> fifo_flags f = fl"
proof -
  have "unat (word_of_int cap :: u32) = nat cap"
    using assms(2,3) by (simp add: unat_eq_nat_uint uint_word_of_int)
  then show ?thesis using assms
    by (auto simp: awoke_fifo_create_def Let_def fifo_inv_def ring_inv_def fifo_cap_def fifo_allocnr_def
        mask_push_def simp flip: length_0_conv)
qed

lemma awoke_fifo_enqueue_resize_overflow:
  assumes inv: "ring_inv f" and x: "fifo_elem f x" and full: "length (fifo_list f) = fifo_cap f"
    and cap: "unat (capacity f) < 4294967295"
    and fl: "mask_exst (fifo_flags f) AWOKE_FIFO_F_RES" "\<not> mask_exst (fifo_flags f) AWOKE_FIFO_F_RBK"
  shows "\<exists>f'. awoke_fifo_enqueue alloc (Some f) (Some x) = Some (et_ok, Some f') \<and>
           unat (fifo_nr f') = Suc (fifo_cap f') \<and> hd (fifo_list f') = x \<and> \<not> ring_inv f'"
proof -
  let ?ns = "nodesize f" and ?t = "(tail f + 1) mod capacity f"
  have n: "unat (fifo_nr f) = unat (capacity f)" "0 < unat (capacity f)"
    using full inv by (simp_all add: fifo_cap_def ring_inv_def)
  then have t: "unat ?t = unat (head f)" using inv by (simp add: ring_inv_def)
  have s0: "ring_slot f 0 = unat (head f)" using inv by (simp add: ring_slot_def ring_inv_def)
  from mem_write_node[OF ring_slot_fits[OF inv, of 0], of x] x
  obtain m where m: "mem_write (fifo_mem f) (slot_off f ?t) x = Some m" "node_at ?ns m (unat (head f)) = x"
    by (auto simp: slot_off_def s0 t fifo_elem_def)
  let ?f = "f\<lparr>tail := ?t, fifo_mem := m, fifo_nr := fifo_nr f + 1\<rparr>"
  have k: "unat (fifo_nr f + 1) = Suc (unat (capacity f))"
    using cap n by (simp add: unat_word_ariths)
  have "fifo_list ?f ! 0 = x"
    using k m(2) inv by (subst fifo_list_nth) (simp_all add: ring_slot_def ring_inv_def)
  moreover have "length (fifo_list ?f) = Suc (unat (capacity f))" using k by simp
  ultimately have "hd (fifo_list ?f) = x" by (cases "fifo_list ?f") auto
  moreover have "awoke_fifo_enqueue alloc (Some f) (Some x) = Some (et_ok, Some ?f)"
    using full fl m(1) n(2)
    by (simp add: awoke_fifo_enqueue_def fifo_full_iff awoke_fifo_resize_def fifo_store_def u_rem_Some)
  ultimately show ?thesis using k by (simp add: fifo_cap_def ring_inv_def)
qed

lemma awoke_fifo_create_zero:
  assumes "0 < ns" "alloc sizeof_awoke_fifo"
  shows "\<exists>f. awoke_fifo_create alloc ns 0 fl = Some f \<and> awoke_fifo_enqueue alloc (Some f) (Some x) = None"
proof -
  have "mask_exst (mask_push (mask_push 0 AWOKE_FIFO_F_RES) fl) AWOKE_FIFO_F_RES"
    by (intro mask_exst_push_keeps mask_exst_push_same) (simp add: AWOKE_FIFO_F_RES_def)
  with assms show ?thesis
    by (simp add: awoke_fifo_create_def Let_def awoke_fifo_enqueue_def awoke_fifo_full_def fifo_store_def
        u_rem_def awoke_fifo_resize_def awoke_fifo_dequeue_def awoke_fifo_empty_def)
qed

section \<open>Properties\<close>

definition f_example :: awoke_fifo where
  "f_example = \<lparr>fifo_mem = [0, 0], fifo_flags = 4, nodesize = 1, head = 0, tail = -1, fifo_nr = 0, capacity = 2\<rparr>"

lemma f_example_inv: "fifo_inv f_example"
  by (simp add: f_example_def fifo_inv_def ring_inv_def mask_exst_def AWOKE_FIFO_F_RES_def AWOKE_FIFO_F_RBK_def)

lemma f_example_spec:
  "fifo_list f_example = []" "fifo_cap f_example = 2" "mask_exst (fifo_flags f_example) AWOKE_FIFO_F_RBK"
  "nodesize f_example = 1"
  by (simp_all add: f_example_def fifo_list_def fifo_cap_def mask_exst_def AWOKE_FIFO_F_RBK_def)

text \<open>C2: the ring buffer refines a bounded FIFO. From a ring that satisfies its invariant (which excludes
  rings created with \<open>RES\<close> and without \<open>RBK\<close>), any
  sequence of enqueues and dequeues with nodes of the right size stays inside the node storage,
  returns what the list specification returns and keeps the invariant; the wrap-around of the
  32-bit \<open>tail\<close> from -1 and of the slots at the end of the array is covered.\<close>

theorem awoke_fifo_refines_fifo:
  assumes "fifo_inv f" "\<forall>x \<in> enq_elems ps. length x = nodesize f"
  shows "\<exists>f'. fifo_run (fifo_enq_obs (\<lambda>_. True)) (deq_obs awoke_fifo_dequeue) f ps =
              Some (fst (spec_run (fifo_cap f) (mask_exst (fifo_flags f) AWOKE_FIFO_F_RBK) (fifo_list f) ps), f') \<and>
            fifo_inv f' \<and>
            fifo_list f' = snd (spec_run (fifo_cap f) (mask_exst (fifo_flags f) AWOKE_FIFO_F_RBK) (fifo_list f) ps)"
  using rq.run_refines[OF assms(1)] assms(2) by (simp add: fifo_elem_def)

theorem awoke_fifo_refines_fifo_witness:
  "\<exists>f'. fifo_run (fifo_enq_obs (\<lambda>_. True)) (deq_obs awoke_fifo_dequeue) f_example
          [Enq [1], Enq [2], Enq [3], Deq] =
          Some ([Enqueued et_ok, Enqueued et_ok, Enqueued et_ok, Dequeued et_ok (Some [2])], f') \<and>
        fifo_list f' = [[3]]"
  using awoke_fifo_refines_fifo[OF f_example_inv, of "[Enq [1], Enq [2], Enq [3], Deq]"]
  by (auto simp: f_example_spec)

text \<open>The array FIFO refines the same bounded FIFO: its own rollback, which clears the oldest
  slot in place, is indistinguishable from dequeuing it.\<close>

theorem awoke_afifo_refines_fifo:
  assumes "fifo_inv f" "\<forall>x \<in> enq_elems ps. length x = nodesize f"
  shows "\<exists>f'. fifo_run afifo_enq_obs (deq_obs awoke_afifo_dequeue) f ps =
              Some (fst (spec_run (fifo_cap f) (mask_exst (fifo_flags f) AWOKE_FIFO_F_RBK) (fifo_list f) ps), f') \<and>
            fifo_inv f' \<and>
            fifo_list f' = snd (spec_run (fifo_cap f) (mask_exst (fifo_flags f) AWOKE_FIFO_F_RBK) (fifo_list f) ps)"
  using arq.run_refines[OF assms(1)] assms(2) by (simp add: fifo_elem_def)

theorem awoke_afifo_refines_fifo_witness:
  "\<exists>f'. fifo_run afifo_enq_obs (deq_obs awoke_afifo_dequeue) f_example [Enq [1], Enq [2], Enq [3]] =
          Some ([Enqueued et_ok, Enqueued et_ok, Enqueued et_ok], f') \<and> fifo_list f' = [[2], [3]]"
  using awoke_afifo_refines_fifo[OF f_example_inv, of "[Enq [1], Enq [2], Enq [3]]"]
  by (auto simp: f_example_spec)

text \<open>A ring created with \<open>awoke_fifo_create\<close> that rolls back keeps the newest nodes: after any
  number of enqueues it holds exactly the last \<open>capacity\<close> of them, in order.\<close>

theorem awoke_fifo_rollback_window:
  assumes "0 < ns" "0 < cap" "cap < 4294967296" "\<forall>x \<in> set xs. length x = ns"
  shows "\<exists>f f'. awoke_fifo_create (\<lambda>_. True) ns cap AWOKE_FIFO_F_RBK = Some f \<and>
           fifo_run (fifo_enq_obs (\<lambda>_. True)) (deq_obs awoke_fifo_dequeue) f (map Enq xs) =
             Some (map (\<lambda>_. Enqueued et_ok) xs, f') \<and>
           fifo_list f' = drop (length xs - nat cap) xs"
proof -
  have rb: "mask_exst AWOKE_FIFO_F_RBK AWOKE_FIFO_F_RBK" by (simp add: mask_exst_def AWOKE_FIFO_F_RBK_def)
  from awoke_fifo_create_ok[of ns cap "\<lambda>_. True" AWOKE_FIFO_F_RBK] assms rb obtain f where
    f: "awoke_fifo_create (\<lambda>_. True) ns cap AWOKE_FIFO_F_RBK = Some f" "fifo_inv f" "fifo_list f = []"
      "fifo_cap f = nat cap" "nodesize f = ns" "fifo_flags f = AWOKE_FIFO_F_RBK" by auto
  have obs: "fst (spec_run c True ys (map Enq xs)) = map (\<lambda>_. Enqueued et_ok) xs" for c and ys :: "bytes list"
    by (induction xs arbitrary: ys) (auto simp: Let_def case_prod_beta)
  have "\<forall>x \<in> enq_elems (map Enq xs). fifo_elem f x" using assms(4) f(5) by (auto simp: enq_elems_def fifo_elem_def)
  from rq.run_refines[OF f(2) this] f rb obs spec_run_rollback[of "[]" "nat cap" xs] assms(2)
  show ?thesis by auto
qed

theorem awoke_fifo_rollback_window_witness:
  "\<exists>f f'. awoke_fifo_create (\<lambda>_. True) 1 2 AWOKE_FIFO_F_RBK = Some f \<and>
      fifo_run (fifo_enq_obs (\<lambda>_. True)) (deq_obs awoke_fifo_dequeue) f (map Enq [[1], [2], [3]]) =
        Some ([Enqueued et_ok, Enqueued et_ok, Enqueued et_ok], f') \<and> fifo_list f' = [[2], [3]]"
  using awoke_fifo_rollback_window[of 1 2 "[[1], [2], [3]]"] by simp

text \<open>The resize flag is not implemented. On a full ring with \<open>AWOKE_FIFO_F_RES\<close> and without
  rollback an enqueue reports success but overwrites the oldest node and leaves more nodes
  counted than the ring has slots; on a ring created with capacity 0, which sets that flag,
  the first enqueue divides by zero.\<close>

theorem awoke_fifo_resize_flag_unsound:
  assumes "ring_inv f" "length x = nodesize f" "length (fifo_list f) = fifo_cap f"
    and "unat (capacity f) < 4294967295" "0 < ns"
    and "mask_exst (fifo_flags f) AWOKE_FIFO_F_RES" "\<not> mask_exst (fifo_flags f) AWOKE_FIFO_F_RBK"
  shows "(\<exists>f'. awoke_fifo_enqueue alloc (Some f) (Some x) = Some (et_ok, Some f') \<and>
            unat (fifo_nr f') = Suc (fifo_cap f') \<and> hd (fifo_list f') = x \<and> \<not> ring_inv f') \<and>
         (\<exists>f0. awoke_fifo_create (\<lambda>_. True) ns 0 fl = Some f0 \<and>
            awoke_fifo_enqueue (\<lambda>_. True) (Some f0) (Some y) = None)"
  using awoke_fifo_enqueue_resize_overflow[of f x alloc] awoke_fifo_create_zero[of ns "\<lambda>_. True" fl y] assms
  by (simp add: fifo_elem_def)

lemma f_resize_example:
  defines "f \<equiv> \<lparr>fifo_mem = [1], fifo_flags = 2, nodesize = 1, head = 0, tail = 0, fifo_nr = 1, capacity = 1\<rparr>"
  shows "ring_inv f" "length (fifo_list f) = fifo_cap f" "unat (capacity f) < 4294967295" "nodesize f = 1"
    "fifo_cap f = 1" "mask_exst (fifo_flags f) AWOKE_FIFO_F_RES" "\<not> mask_exst (fifo_flags f) AWOKE_FIFO_F_RBK"
  by (simp_all add: f_def ring_inv_def fifo_cap_def fifo_list_def mask_exst_def AWOKE_FIFO_F_RES_def AWOKE_FIFO_F_RBK_def)

theorem awoke_fifo_resize_flag_unsound_witness:
  "\<exists>f'. awoke_fifo_enqueue (\<lambda>_. True)
      (Some \<lparr>fifo_mem = [1], fifo_flags = 2, nodesize = 1, head = 0, tail = 0, fifo_nr = 1, capacity = 1\<rparr>)
      (Some [9]) = Some (et_ok, Some f') \<and> unat (fifo_nr f') = Suc (fifo_cap f')"
  using awoke_fifo_resize_flag_unsound[OF f_resize_example(1) _ f_resize_example(2,3) _ f_resize_example(6,7),
      of "[9]" 1 "\<lambda>_. True" 0 "[]"] by auto

end
