(* ===== verification/Heap_Order.thy ===== *)
theory Heap_Order
  imports Main "HOL-Library.Multiset"
begin

text \<open>
  Binary heaps in an array, position 1 the root, as functions from positions to
  elements. \<open>swim_f\<close> and \<open>sink_f\<close> are the reference versions of the two loops of the
  priority queue; the locale \<open>heap_order\<close> is what they rely on of the comparison
  \<open>gt\<close>: its negation is a total preorder.
\<close>

definition swap_f :: "(nat \<Rightarrow> 'e) \<Rightarrow> nat \<Rightarrow> nat \<Rightarrow> nat \<Rightarrow> 'e" where
  "swap_f el i j = el(i := el j, j := el i)"

function swim_f :: "('e \<Rightarrow> 'e \<Rightarrow> bool) \<Rightarrow> (nat \<Rightarrow> 'e) \<Rightarrow> nat \<Rightarrow> nat \<Rightarrow> 'e" where
  "swim_f gt el k =
     (if 1 < k \<and> gt (el (k div 2)) (el k) then swim_f gt (swap_f el k (k div 2)) (k div 2) else el)"
  by pat_completeness auto
termination by (relation "measure (\<lambda>(gt, el, k). k)") auto

definition min_child :: "('e \<Rightarrow> 'e \<Rightarrow> bool) \<Rightarrow> (nat \<Rightarrow> 'e) \<Rightarrow> nat \<Rightarrow> nat \<Rightarrow> nat" where
  "min_child gt el n k = (if 2 * k < n \<and> gt (el (2 * k)) (el (2 * k + 1)) then 2 * k + 1 else 2 * k)"

lemma min_child_bounds: "2 * k \<le> n \<Longrightarrow> 2 * k \<le> min_child gt el n k \<and> min_child gt el n k \<le> n"
  by (auto simp: min_child_def)

lemma min_child_div [simp]: "min_child gt el n k div 2 = k"
  by (auto simp: min_child_def)

function sink_f :: "('e \<Rightarrow> 'e \<Rightarrow> bool) \<Rightarrow> nat \<Rightarrow> (nat \<Rightarrow> 'e) \<Rightarrow> nat \<Rightarrow> nat \<Rightarrow> 'e" where
  "sink_f gt n el k =
     (if 0 < k \<and> 2 * k \<le> n \<and> gt (el k) (el (min_child gt el n k))
      then sink_f gt n (swap_f el k (min_child gt el n k)) (min_child gt el n k) else el)"
  by pat_completeness auto
termination
proof (relation "measure (\<lambda>(gt, n, el, k). n - k)", goal_cases)
  case (2 gt n el k)
  then show ?case using min_child_bounds[of k n gt el] by auto
qed simp

declare swim_f.simps [simp del] sink_f.simps [simp del]

text \<open>The elements at positions 1 to \<open>n\<close>.\<close>

definition heap_mset :: "(nat \<Rightarrow> 'e) \<Rightarrow> nat \<Rightarrow> 'e multiset" where
  "heap_mset el n = image_mset el (mset_set {1..n})"

definition heap_ok :: "('e \<Rightarrow> 'e \<Rightarrow> bool) \<Rightarrow> (nat \<Rightarrow> 'e) \<Rightarrow> nat \<Rightarrow> bool" where
  "heap_ok gt el n \<longleftrightarrow> (\<forall>i. 2 \<le> i \<and> i \<le> n \<longrightarrow> \<not> gt (el (i div 2)) (el i))"

lemma heap_ok_cong:
  assumes "\<And>i. i \<le> n \<Longrightarrow> el i = el' i"
  shows "heap_ok gt el n = heap_ok gt el' n"
proof -
  have "el (i div 2) = el' (i div 2) \<and> el i = el' i" if "i \<le> n" for i
    using that assms[of i] assms[of "i div 2"] by linarith
  then show ?thesis by (auto simp: heap_ok_def)
qed

section \<open>The loops permute the elements\<close>

lemma heap_mset_Suc: "heap_mset el (Suc n) = add_mset (el (Suc n)) (heap_mset el n)"
  by (simp add: heap_mset_def atLeastAtMostSuc_conv)

lemma heap_mset_cong: "(\<And>i. 1 \<le> i \<Longrightarrow> i \<le> n \<Longrightarrow> el i = el' i) \<Longrightarrow> heap_mset el n = heap_mset el' n"
  unfolding heap_mset_def by (intro image_mset_cong) auto

lemma heap_mset_member: "x \<in># heap_mset el n \<longleftrightarrow> (\<exists>i. 1 \<le> i \<and> i \<le> n \<and> x = el i)"
  by (auto simp: heap_mset_def)

lemma heap_mset_size [simp]: "size (heap_mset el n) = n"
  by (simp add: heap_mset_def)

lemma heap_mset_eq_swap:
  assumes "1 \<le> i" "i \<le> n" "1 \<le> j" "j \<le> n"
  shows "heap_mset (swap_f el i j) n = heap_mset el n"
proof -
  let ?t = "\<lambda>k. if k = i then j else if k = j then i else k"
  have "bij_betw ?t {1..n} {1..n}"
    using assms by (intro bij_betw_byWitness[where f' = ?t]) auto
  then have t: "image_mset ?t (mset_set {1..n}) = mset_set {1..n}"
    using image_mset_mset_set[of ?t "{1..n}"] by (simp add: bij_betw_def)
  have "swap_f el i j = el \<circ> ?t" by (auto simp: swap_f_def fun_eq_iff)
  then have "heap_mset (swap_f el i j) n = image_mset el (image_mset ?t (mset_set {1..n}))"
    unfolding heap_mset_def by (simp only: multiset.map_comp)
  then show ?thesis unfolding t heap_mset_def .
qed

lemma swim_f_mset: "1 \<le> k \<Longrightarrow> k \<le> n \<Longrightarrow> heap_mset (swim_f gt el k) n = heap_mset el n"
proof (induction gt el k rule: swim_f.induct)
  case (1 gt el k)
  show ?case
  proof (cases "1 < k \<and> gt (el (k div 2)) (el k)")
    case True
    then have "1 \<le> k div 2" "k div 2 \<le> n" using "1.prems" by auto
    with "1.IH"[OF True] "1.prems" True show ?thesis
      by (simp add: swim_f.simps[of gt el] heap_mset_eq_swap)
  qed (auto simp: swim_f.simps[of gt el])
qed

lemma sink_f_mset: "k \<le> n \<Longrightarrow> heap_mset (sink_f gt n el k) n = heap_mset el n"
proof (induction gt n el k rule: sink_f.induct)
  case (1 gt n el k)
  show ?case
  proof (cases "0 < k \<and> 2 * k \<le> n \<and> gt (el k) (el (min_child gt el n k))")
    case True
    then have "1 \<le> min_child gt el n k" "min_child gt el n k \<le> n"
      using min_child_bounds[of k n gt el] by auto
    with "1.IH"[OF True] "1.prems" True show ?thesis
      by (simp add: sink_f.simps[of gt n el] heap_mset_eq_swap)
  next
    case False
    then show ?thesis by (subst sink_f.simps) (simp only: if_False)
  qed
qed

lemma swap_f_other: "i \<noteq> a \<Longrightarrow> i \<noteq> b \<Longrightarrow> swap_f el a b i = el i"
  by (simp add: swap_f_def)

lemma swim_f_outside: "n < i \<Longrightarrow> k \<le> n \<Longrightarrow> swim_f gt el k i = el i"
proof (induction gt el k rule: swim_f.induct)
  case (1 gt el k)
  then show ?case by (auto simp: swim_f.simps[of gt el k] swap_f_other)
qed

lemma sink_f_outside: "n < i \<Longrightarrow> k \<le> n \<Longrightarrow> sink_f gt n el k i = el i"
proof (induction gt n el k rule: sink_f.induct)
  case (1 gt n el k)
  then show ?case using min_child_bounds[of k n gt el]
    by (subst sink_f.simps) (auto simp: swap_f_other)
qed

section \<open>The loops restore the heap order\<close>

locale heap_order =
  fixes gt :: "'e \<Rightarrow> 'e \<Rightarrow> bool"
  assumes gt_asym: "gt a b \<Longrightarrow> \<not> gt b a"
    and le_trans: "\<not> gt a b \<Longrightarrow> \<not> gt b c \<Longrightarrow> \<not> gt a c"
begin

lemma le_refl: "\<not> gt a a"
  using gt_asym by blast

lemma swim_heap:
  "\<forall>i. 2 \<le> i \<and> i \<le> n \<and> i \<noteq> k \<longrightarrow> \<not> gt (el (i div 2)) (el i) \<Longrightarrow>
   \<forall>c. 2 \<le> c \<and> c \<le> n \<and> c div 2 = k \<and> 2 \<le> k \<longrightarrow> \<not> gt (el (k div 2)) (el c) \<Longrightarrow>
   k \<le> n \<Longrightarrow> heap_ok gt (swim_f gt el k) n"
proof (induction k arbitrary: el rule: less_induct)
  case (less k)
  show ?case
  proof (cases "1 < k \<and> gt (el (k div 2)) (el k)")
    case False
    have "\<not> gt (el (i div 2)) (el i)" if "2 \<le> i" "i \<le> n" for i
      using less.prems(1) False that by (cases "i = k") auto
    with False show ?thesis by (subst swim_f.simps) (auto simp: heap_ok_def)
  next
    case True
    let ?p = "k div 2" and ?el = "swap_f el k (k div 2)"
    have p: "?p < k" "1 \<le> ?p" "?p \<le> n" using True less.prems(3) by auto
    have "\<not> gt (?el (i div 2)) (?el i)" if i: "2 \<le> i" "i \<le> n" "i \<noteq> ?p" for i
    proof -
      consider "i = k" | "i \<noteq> k" "i div 2 = k" | "i \<noteq> k" "i div 2 = ?p" | "i \<noteq> k" "i div 2 \<noteq> k" "i div 2 \<noteq> ?p"
        by blast
      then show ?thesis
      proof cases
        case 1
        with True p gt_asym show ?thesis by (simp add: swap_f_def)
      next
        case 2
        then have "\<not> gt (el ?p) (el i)" using less.prems(2) i True by simp
        moreover have "i \<noteq> k" "i \<noteq> ?p" "k \<noteq> ?p" using 2 p i by auto
        ultimately show ?thesis using 2 by (simp add: swap_f_def)
      next
        case 3
        then have "\<not> gt (el ?p) (el i)" using less.prems(1) i by (metis)
        then have "\<not> gt (el k) (el i)" using le_trans[of "el k" "el ?p" "el i"] gt_asym True by blast
        moreover have "?el (i div 2) = el k" "?el i = el i" using 3 p i by (simp_all add: swap_f_def)
        ultimately show ?thesis by simp
      next
        case 4
        with less.prems(1) i show ?thesis by (simp add: swap_f_def)
      qed
    qed
    moreover have "\<not> gt (?el (?p div 2)) (?el c)" if c: "2 \<le> c" "c \<le> n" "c div 2 = ?p" "2 \<le> ?p" for c
    proof -
      have gp: "\<not> gt (el (?p div 2)) (el ?p)" using less.prems(1) c p by auto
      have ne: "?p div 2 \<noteq> ?p" "?p div 2 \<noteq> k" "c \<noteq> ?p" using c p by auto
      show ?thesis
      proof (cases "c = k")
        case True
        with gp ne p show ?thesis by (simp add: swap_f_def le_refl)
      next
        case False
        then have "\<not> gt (el ?p) (el c)" using less.prems(1) c by (metis)
        then have "\<not> gt (el (?p div 2)) (el c)" by (rule le_trans[OF gp])
        with False ne show ?thesis by (simp add: swap_f_other)
      qed
    qed
    ultimately have "heap_ok gt (swim_f gt ?el ?p) n" using less.IH[OF p(1)] p(3) by blast
    with True show ?thesis by (subst swim_f.simps) simp
  qed
qed

lemma min_child_le:
  assumes "2 * k \<le> n" "c div 2 = k" "c \<le> n" "2 \<le> c"
  shows "\<not> gt (el (min_child gt el n k)) (el c)"
proof -
  have "c = 2 * k \<or> c = 2 * k + 1" using assms(2) by auto
  then show ?thesis using assms(1,3) le_refl gt_asym by (auto simp: min_child_def)
qed

lemma sink_heap:
  "\<forall>i. 2 \<le> i \<and> i \<le> n \<and> i div 2 \<noteq> k \<longrightarrow> \<not> gt (el (i div 2)) (el i) \<Longrightarrow>
   \<forall>c. 2 \<le> c \<and> c \<le> n \<and> c div 2 = k \<and> 2 \<le> k \<longrightarrow> \<not> gt (el (k div 2)) (el c) \<Longrightarrow>
   1 \<le> k \<Longrightarrow> heap_ok gt (sink_f gt n el k) n"
proof (induction "n - k" arbitrary: el k rule: less_induct)
  case less
  let ?j = "min_child gt el n k"
  show ?case
  proof (cases "2 * k \<le> n \<and> gt (el k) (el ?j)")
    case False
    have "\<not> gt (el (i div 2)) (el i)" if i: "2 \<le> i" "i \<le> n" for i
    proof (cases "i div 2 = k")
      case True
      then have "2 * k \<le> n" using i by auto
      with False True i min_child_le[of k n i el] show ?thesis using le_trans by blast
    qed (use less.prems(1) i in blast)
    with False show ?thesis by (subst sink_f.simps) (auto simp: heap_ok_def)
  next
    case True
    let ?el = "swap_f el k ?j"
    have j: "?j div 2 = k" "k < ?j" "?j \<le> n" "2 \<le> ?j"
      using True less.prems(3) min_child_bounds[of k n gt el] by auto
    have "\<not> gt (?el (i div 2)) (?el i)" if i: "2 \<le> i" "i \<le> n" "i div 2 \<noteq> ?j" for i
    proof -
      consider "i = ?j" | "i = k" | "i \<noteq> ?j" "i \<noteq> k" "i div 2 = k" | "i \<noteq> ?j" "i \<noteq> k" "i div 2 \<noteq> k"
        by blast
      then show ?thesis
      proof cases
        case 1
        with j True gt_asym show ?thesis by (simp add: swap_f_def)
      next
        case 2
        then have "\<not> gt (el (k div 2)) (el ?j)" using less.prems(2) j i by blast
        moreover have "k div 2 \<noteq> k" "k div 2 \<noteq> ?j" "k \<noteq> ?j" using 2 j i by auto
        ultimately show ?thesis using 2 by (simp add: swap_f_def)
      next
        case 3
        with min_child_le[of k n i el] True i j show ?thesis by (simp add: swap_f_def)
      next
        case 4
        with less.prems(1) i show ?thesis by (simp add: swap_f_def)
      qed
    qed
    moreover have "\<not> gt (?el (?j div 2)) (?el c)" if c: "2 \<le> c" "c \<le> n" "c div 2 = ?j" for c
    proof -
      have "\<not> gt (el ?j) (el c)" using less.prems(1) c j by (metis less_irrefl)
      moreover have "c \<noteq> k" "c \<noteq> ?j" using c j by auto
      ultimately show ?thesis using j by (simp add: swap_f_def)
    qed
    ultimately have "heap_ok gt (sink_f gt n ?el ?j) n"
      using less.hyps[of ?j ?el] j by (simp add: diff_less_mono2)
    with True less.prems(3) show ?thesis by (subst sink_f.simps) simp
  qed
qed

lemma heap_root: "heap_ok gt el n \<Longrightarrow> 1 \<le> i \<Longrightarrow> i \<le> n \<Longrightarrow> \<not> gt (el 1) (el i)"
proof (induction i rule: less_induct)
  case (less i)
  show ?case
  proof (cases "i = 1")
    case True
    then show ?thesis by (simp add: le_refl)
  next
    case False
    then have "1 \<le> i div 2" "i div 2 < i" "i div 2 \<le> n" using less.prems by auto
    then have "\<not> gt (el 1) (el (i div 2))" using less by blast
    moreover have "\<not> gt (el (i div 2)) (el i)" using less.prems False by (auto simp: heap_ok_def)
    ultimately show ?thesis by (rule le_trans)
  qed
qed

end

end
