(* ===== verification/Awoke_Minpq.thy ===== *)
theory Awoke_Minpq
  imports Prelude Heap_Order
begin

text \<open>
  The priority queue \<open>awoke_minpq\<close> of \<open>lib/libutil/src/awoke_queue.c\<close>: a binary heap
  from position 1 in two parallel arrays, the priorities \<open>pq_p\<close> and the nodes in the
  byte block \<open>pq_q\<close>; position 0 is unused. Without a comparator the priorities order
  the heap, with one the nodes do. \<open>pq_el\<close> reads position \<open>i\<close> as a pair of priority and
  node, and the loops are shown to compute \<open>swim_f\<close> and \<open>sink_f\<close> of \<open>Heap_Order\<close> on it.
\<close>

record awoke_minpq =
  pq_nr :: int
  pq_cap :: int
  pq_nodesize :: nat
  pq_p :: "int list"
  pq_q :: bytes
  pq_flags :: u16
  comparator :: "(bytes \<Rightarrow> bytes \<Rightarrow> bool) option"

definition AWOKE_MINPQ_F_CDC :: u16 where "AWOKE_MINPQ_F_CDC = 0x0001"
definition AWOKE_MINPQ_F_RES :: u16 where "AWOKE_MINPQ_F_RES = 0x0002"

definition awoke_minpq_size :: "awoke_minpq \<Rightarrow> int" where
  "awoke_minpq_size q = pq_nr q"

definition awoke_minpq_full :: "awoke_minpq \<Rightarrow> bool" where
  "awoke_minpq_full q \<longleftrightarrow> pq_cap q = pq_nr q"

definition awoke_minpq_empty :: "awoke_minpq \<Rightarrow> bool" where
  "awoke_minpq_empty q \<longleftrightarrow> pq_nr q = 0"

text \<open>
  Resizing copies the nodes, and fills the new priority array from the same node
  block: the priorities become the node bytes read as little-endian integers.
\<close>

fun le_ints :: "bytes \<Rightarrow> int list" where
  "le_ints (a # b # c # d # bs) =
     c_int (uint a + 2 ^ 8 * uint b + 2 ^ 16 * uint c + 2 ^ 24 * uint d) # le_ints bs"
| "le_ints _ = []"

definition awoke_minpq_resize ::
  "allocator \<Rightarrow> awoke_minpq \<Rightarrow> int \<Rightarrow> (err_type \<times> awoke_minpq) option" where
  "awoke_minpq_resize alloc q cap =
     (if cap \<le> pq_nr q then Some (et_param, q)
      else if \<not> alloc (pq_nodesize q * nat (cap + 1)) then Some (et_nomem, q)
      else if \<not> alloc (4 * nat (cap + 1)) then Some (et_nomem, q)
      else do {
        v \<leftarrow> mem_read (pq_q q) 0 (pq_nodesize q * nat (pq_nr q + 1));
        new_v \<leftarrow> mem_write (zeros (pq_nodesize q * nat (cap + 1))) 0 v;
        r \<leftarrow> mem_read (pq_q q) 0 (4 * nat (pq_nr q + 1));
        new_p \<leftarrow> mem_write (zeros (4 * nat (cap + 1))) 0 r;
        Some (et_ok, q\<lparr>pq_q := new_v, pq_p := le_ints new_p, pq_cap := cap\<rparr>) })"

definition awoke_minpq_min :: "awoke_minpq \<Rightarrow> (err_type \<times> int option) option" where
  "awoke_minpq_min q =
     (if awoke_minpq_empty q then Some (et_empty, None)
      else do { p \<leftarrow> arr_get (pq_p q) 1; Some (et_ok, Some p) })"

definition minpq_greater :: "awoke_minpq \<Rightarrow> int \<Rightarrow> int \<Rightarrow> bool option" where
  "minpq_greater q i j = (case comparator q of
      None \<Rightarrow> do { a \<leftarrow> arr_get (pq_p q) i; b \<leftarrow> arr_get (pq_p q) j; Some (a > b) }
    | Some cmp \<Rightarrow> do {
        x \<leftarrow> mem_read (pq_q q) (i * int (pq_nodesize q)) (pq_nodesize q);
        y \<leftarrow> mem_read (pq_q q) (j * int (pq_nodesize q)) (pq_nodesize q);
        Some (cmp x y) })"

definition minpq_swap :: "allocator \<Rightarrow> awoke_minpq \<Rightarrow> int \<Rightarrow> int \<Rightarrow> awoke_minpq option" where
  "minpq_swap alloc q i j = do {
     tempp \<leftarrow> arr_get (pq_p q) i;
     pj \<leftarrow> arr_get (pq_p q) j;
     p1 \<leftarrow> arr_set (pq_p q) i pj;
     p2 \<leftarrow> arr_set p1 j tempp;
     _ \<leftarrow> (if alloc (pq_nodesize q) then Some () else None);
     tempu \<leftarrow> mem_read (pq_q q) (i * int (pq_nodesize q)) (pq_nodesize q);
     y \<leftarrow> mem_read (pq_q q) (j * int (pq_nodesize q)) (pq_nodesize q);
     m1 \<leftarrow> mem_write (pq_q q) (i * int (pq_nodesize q)) y;
     m2 \<leftarrow> mem_write m1 (j * int (pq_nodesize q)) tempu;
     Some (q\<lparr>pq_p := p2, pq_q := m2\<rparr>) }"

text \<open>The index of a child is doubled in an \<open>int\<close>, which overflows behind 2^30.\<close>

partial_function (option) minpq_sink :: "allocator \<Rightarrow> awoke_minpq \<Rightarrow> int \<Rightarrow> awoke_minpq option" where
  "minpq_sink alloc q k =
     (if 2 * k > 2147483647 then None
      else if 2 * k \<le> pq_nr q then do {
        g \<leftarrow> (if 2 * k < pq_nr q then minpq_greater q (2 * k) (2 * k + 1) else Some False);
        let j = (if g then 2 * k + 1 else 2 * k);
        h \<leftarrow> minpq_greater q k j;
        if \<not> h then Some q else do { q' \<leftarrow> minpq_swap alloc q k j; minpq_sink alloc q' j } }
      else Some q)"

partial_function (option) minpq_swim :: "allocator \<Rightarrow> awoke_minpq \<Rightarrow> int \<Rightarrow> awoke_minpq option" where
  "minpq_swim alloc q k =
     (if 1 < k then do {
        g \<leftarrow> minpq_greater q (k div 2) k;
        if g then do { q' \<leftarrow> minpq_swap alloc q k (k div 2); minpq_swim alloc q' (k div 2) } else Some q }
      else Some q)"

definition awoke_minpq_get :: "awoke_minpq \<Rightarrow> int \<Rightarrow> (err_type \<times> (bytes \<times> int) option) option" where
  "awoke_minpq_get q index =
     (if awoke_minpq_empty q then Some (et_empty, None)
      else do {
        u \<leftarrow> mem_read (pq_q q) (index * int (pq_nodesize q)) (pq_nodesize q);
        p \<leftarrow> arr_get (pq_p q) index;
        Some (et_ok, Some (u, p)) })"

definition awoke_minpq_insert ::
  "allocator \<Rightarrow> awoke_minpq \<Rightarrow> bytes \<Rightarrow> int \<Rightarrow> (err_type \<times> awoke_minpq) option" where
  "awoke_minpq_insert alloc q u p =
     (if awoke_minpq_full q \<and> \<not> mask_exst (pq_flags q) AWOKE_MINPQ_F_RES then Some (et_full, q)
      else do {
        q1 \<leftarrow> (if awoke_minpq_full q then do {
                  let q0 = (if pq_cap q = 0 then q\<lparr>pq_cap := 1\<rparr> else q);
                  cap2 \<leftarrow> (if pq_cap q0 * 2 > 2147483647 then None else Some (pq_cap q0 * 2));
                  (_, q1) \<leftarrow> awoke_minpq_resize alloc q0 cap2;
                  Some q1 }
               else Some q);
        let n = pq_nr q1 + 1;
        p1 \<leftarrow> arr_set (pq_p q1) n p;
        m1 \<leftarrow> mem_write (pq_q q1) (n * int (pq_nodesize q1)) u;
        q2 \<leftarrow> minpq_swim alloc (q1\<lparr>pq_nr := n, pq_p := p1, pq_q := m1\<rparr>) n;
        Some (et_ok, q2) })"

text \<open>What \<open>del\<close> and \<open>delmin\<close> do once the index is known.\<close>

definition minpq_remove ::
  "allocator \<Rightarrow> awoke_minpq \<Rightarrow> int \<Rightarrow> (err_type \<times> (bytes \<times> int) option \<times> awoke_minpq) option" where
  "minpq_remove alloc q index = do {
     u \<leftarrow> mem_read (pq_q q) (index * int (pq_nodesize q)) (pq_nodesize q);
     p \<leftarrow> arr_get (pq_p q) index;
     pl \<leftarrow> arr_get (pq_p q) (pq_nr q);
     p1 \<leftarrow> arr_set (pq_p q) index pl;
     x \<leftarrow> mem_read (pq_q q) (pq_nr q * int (pq_nodesize q)) (pq_nodesize q);
     m1 \<leftarrow> mem_write (pq_q q) (index * int (pq_nodesize q)) x;
     q1 \<leftarrow> minpq_sink alloc (q\<lparr>pq_p := p1, pq_q := m1, pq_nr := pq_nr q - 1\<rparr>) index;
     p2 \<leftarrow> arr_set (pq_p q1) (pq_nr q1 + 1) 0;
     let q2 = q1\<lparr>pq_p := p2\<rparr>;
     quarter \<leftarrow> c_div (pq_cap q2 - 1) 4;
     half \<leftarrow> c_div (pq_cap q2) 2;
     q3 \<leftarrow> (if 0 < pq_nr q2 \<and> pq_nr q2 = quarter \<and> mask_exst (pq_flags q2) AWOKE_MINPQ_F_RES
            then do { (_, q3) \<leftarrow> awoke_minpq_resize alloc q2 half; Some q3 } else Some q2);
     m3 \<leftarrow> mem_write (pq_q q3) ((pq_nr q3 + 1) * int (pq_nodesize q3)) (zeros (pq_nodesize q3));
     Some (et_ok, Some (u, p), q3\<lparr>pq_q := m3\<rparr>) }"

definition awoke_minpq_del ::
  "allocator \<Rightarrow> awoke_minpq \<Rightarrow> int \<Rightarrow> (err_type \<times> (bytes \<times> int) option \<times> awoke_minpq) option" where
  "awoke_minpq_del alloc q index =
     (if awoke_minpq_empty q then Some (et_empty, None, q)
      else if index < 1 then Some (et_param, None, q)
      else minpq_remove alloc q index)"

definition awoke_minpq_delmin ::
  "allocator \<Rightarrow> awoke_minpq \<Rightarrow> (err_type \<times> (bytes \<times> int) option \<times> awoke_minpq) option" where
  "awoke_minpq_delmin alloc q =
     (if awoke_minpq_empty q then Some (et_empty, None, q)
      else minpq_remove alloc q 1)"

text \<open>
  Initialising a structure whose flags may already hold bits, and creating a zeroed
  one. The allocations of the arrays are not checked: a NULL array has no elements.
\<close>

definition minpq_allocnr :: "int \<Rightarrow> int option" where
  "minpq_allocnr cap = (if cap = 0 then Some 1 else if cap = 2147483647 then None else Some (cap + 1))"

definition awoke_minpq_init ::
  "allocator \<Rightarrow> awoke_minpq \<Rightarrow> nat \<Rightarrow> int \<Rightarrow> (bytes \<Rightarrow> bytes \<Rightarrow> bool) option \<Rightarrow> u16 \<Rightarrow>
   (err_type \<times> awoke_minpq) option" where
  "awoke_minpq_init alloc q ns cap cmp fl = do {
     let f1 = (if cap = 0 then mask_push (pq_flags q) AWOKE_MINPQ_F_RES else pq_flags q);
     let f2 = (if cmp \<noteq> None then mask_push f1 AWOKE_MINPQ_F_CDC else f1);
     allocnr \<leftarrow> minpq_allocnr cap;
     let n = nat allocnr;
     Some (et_ok, q\<lparr>pq_nr := 0, pq_nodesize := ns, pq_cap := cap, pq_flags := mask_push f2 fl,
                  comparator := (if cmp \<noteq> None then cmp else comparator q),
                  pq_p := (if alloc (n * 4) then replicate n 0 else []),
                  pq_q := (if alloc (n * ns) then zeros (n * ns) else [])\<rparr>) }"

definition sizeof_awoke_minpq :: nat where "sizeof_awoke_minpq = 80"

definition awoke_minpq_create ::
  "allocator \<Rightarrow> nat \<Rightarrow> int \<Rightarrow> (bytes \<Rightarrow> bytes \<Rightarrow> bool) option \<Rightarrow> u16 \<Rightarrow> awoke_minpq option option" where
  "awoke_minpq_create alloc ns cap cmp fl =
     (if ns = 0 then Some None
      else if cap < 0 then Some None
      else if \<not> alloc sizeof_awoke_minpq then Some None
      else do {
        let f1 = (if cap = 0 then mask_push 0 AWOKE_MINPQ_F_RES else 0);
        let f2 = (if cmp \<noteq> None then mask_push f1 AWOKE_MINPQ_F_CDC else f1);
        allocnr \<leftarrow> minpq_allocnr cap;
        let n = nat allocnr;
        Some (Some \<lparr>pq_nr = 0, pq_cap = cap, pq_nodesize = ns,
                 pq_p = (if alloc (n * 4) then replicate n 0 else []),
                 pq_q = (if alloc (n * ns) then zeros (n * ns) else []),
                 pq_flags = mask_push f2 fl, comparator = cmp\<rparr>) })"

text \<open>
  Freeing releases both arrays and the structure behind the caller's pointer and clears only
  a local copy of it, so the caller's pointer is left dangling.
\<close>

definition awoke_minpq_free :: "awoke_minpq cptr cptr \<Rightarrow> awoke_minpq cptr cptr option" where
  "awoke_minpq_free pq = (case pq of
      Null \<Rightarrow> Some Null
    | Freed \<Rightarrow> None
    | Live Null \<Rightarrow> Some (Live Null)
    | Live p \<Rightarrow> do { p' \<leftarrow> mem_free p; Some (Live p') })"

section \<open>Invariant and abstraction\<close>

definition pq_mem_ok :: "awoke_minpq \<Rightarrow> bool" where
  "pq_mem_ok q \<longleftrightarrow> 0 \<le> pq_nr q \<and> pq_nr q \<le> pq_cap q \<and> pq_cap q < 1073741824 \<and>
     length (pq_p q) = nat (pq_cap q) + 1 \<and> length (pq_q q) = (nat (pq_cap q) + 1) * pq_nodesize q"

definition pq_el :: "awoke_minpq \<Rightarrow> nat \<Rightarrow> int \<times> bytes" where
  "pq_el q i = (pq_p q ! i, node_at (pq_nodesize q) (pq_q q) i)"

definition cmp_gt :: "(bytes \<Rightarrow> bytes \<Rightarrow> bool) option \<Rightarrow> int \<times> bytes \<Rightarrow> int \<times> bytes \<Rightarrow> bool" where
  "cmp_gt cmp a b = (case cmp of None \<Rightarrow> fst a > fst b | Some c \<Rightarrow> c (snd a) (snd b))"

abbreviation pq_gt :: "awoke_minpq \<Rightarrow> int \<times> bytes \<Rightarrow> int \<times> bytes \<Rightarrow> bool" where
  "pq_gt q \<equiv> cmp_gt (comparator q)"

text \<open>What the code needs of a custom comparator: "greater" is a strict weak order.\<close>

definition cmp_order :: "(bytes \<Rightarrow> bytes \<Rightarrow> bool) \<Rightarrow> bool" where
  "cmp_order c \<longleftrightarrow> (\<forall>x y. c x y \<longrightarrow> \<not> c y x) \<and> (\<forall>x y z. \<not> c x y \<longrightarrow> \<not> c y z \<longrightarrow> \<not> c x z)"

definition pq_ordered :: "awoke_minpq \<Rightarrow> bool" where
  "pq_ordered q \<longleftrightarrow> (case comparator q of None \<Rightarrow> True | Some c \<Rightarrow> cmp_order c)"

definition pq_inv :: "awoke_minpq \<Rightarrow> bool" where
  "pq_inv q \<longleftrightarrow> pq_mem_ok q \<and> pq_ordered q \<and> heap_ok (pq_gt q) (pq_el q) (nat (pq_nr q))"

definition pq_mset :: "awoke_minpq \<Rightarrow> (int \<times> bytes) multiset" where
  "pq_mset q = heap_mset (pq_el q) (nat (pq_nr q))"

text \<open>Everything but the contents of the two arrays.\<close>

definition pq_frame :: "awoke_minpq \<Rightarrow> awoke_minpq \<Rightarrow> bool" where
  "pq_frame q q' \<longleftrightarrow> pq_nr q' = pq_nr q \<and> pq_cap q' = pq_cap q \<and> pq_nodesize q' = pq_nodesize q \<and>
     pq_flags q' = pq_flags q \<and> comparator q' = comparator q \<and>
     length (pq_p q') = length (pq_p q) \<and> length (pq_q q') = length (pq_q q)"

lemma pq_frame_refl [simp]: "pq_frame q q"
  by (simp add: pq_frame_def)

lemma pq_frame_trans: "pq_frame a b \<Longrightarrow> pq_frame b c \<Longrightarrow> pq_frame a c"
  by (simp add: pq_frame_def)

lemma pq_frame_mem_ok: "pq_frame q q' \<Longrightarrow> pq_mem_ok q' = pq_mem_ok q"
  by (simp add: pq_frame_def pq_mem_ok_def)

interpretation prio: heap_order "cmp_gt None"
  by unfold_locales (auto simp: cmp_gt_def)

lemma cmp_gt_order:
  assumes "pq_ordered q"
  shows "heap_order (pq_gt q)"
proof (cases "comparator q")
  case None
  with prio.heap_order_axioms show ?thesis by simp
next
  case (Some c)
  then have "cmp_order c" using assms by (simp add: pq_ordered_def)
  then have asym: "\<And>x y. c x y \<Longrightarrow> \<not> c y x" and trans: "\<And>x y z. \<not> c x y \<Longrightarrow> \<not> c y z \<Longrightarrow> \<not> c x z"
    unfolding cmp_order_def by blast+
  show ?thesis
  proof
    show "pq_gt q a b \<Longrightarrow> \<not> pq_gt q b a" for a b
      unfolding cmp_gt_def Some option.case by (rule asym)
    show "\<not> pq_gt q a b \<Longrightarrow> \<not> pq_gt q b e \<Longrightarrow> \<not> pq_gt q a e" for a b e
      unfolding cmp_gt_def Some option.case by (rule trans)
  qed
qed

section \<open>The loops compute the reference versions\<close>

lemma pq_fits:
  "pq_mem_ok q \<Longrightarrow> i \<le> nat (pq_cap q) \<Longrightarrow>
     i < length (pq_p q) \<and> i * pq_nodesize q + pq_nodesize q \<le> length (pq_q q)"
  by (auto simp: pq_mem_ok_def intro!: node_fits[of i "nat (pq_cap q) + 1"])

lemma minpq_greater_el:
  assumes "pq_mem_ok q" "i \<le> nat (pq_cap q)" "j \<le> nat (pq_cap q)"
  shows "minpq_greater q (int i) (int j) = Some (pq_gt q (pq_el q i) (pq_el q j))"
  using pq_fits[OF assms(1,2)] pq_fits[OF assms(1,3)]
  by (simp add: minpq_greater_def cmp_gt_def pq_el_def mem_read_node arr_get_Some split: option.split)

lemma minpq_swap_el:
  assumes ok: "pq_mem_ok q" and i: "i \<le> nat (pq_cap q)" and j: "j \<le> nat (pq_cap q)"
    and al: "alloc (pq_nodesize q)"
  shows "\<exists>q'. minpq_swap alloc q (int i) (int j) = Some q' \<and> pq_frame q q' \<and>
           pq_el q' = swap_f (pq_el q) i j"
proof -
  let ?ns = "pq_nodesize q" and ?x = "node_at (pq_nodesize q) (pq_q q)"
  note fi = pq_fits[OF ok i] and fj = pq_fits[OF ok j]
  obtain m1 where m1: "mem_write (pq_q q) (int i * int ?ns) (?x j) = Some m1" "length m1 = length (pq_q q)"
      "node_at ?ns m1 i = ?x j" "\<forall>k. k \<noteq> i \<longrightarrow> node_at ?ns m1 k = ?x k"
    using mem_write_node[of i ?ns "pq_q q" "?x j"] fi fj by (auto simp: node_at_length)
  obtain m2 where m2: "mem_write m1 (int j * int ?ns) (?x i) = Some m2" "length m2 = length m1"
      "node_at ?ns m2 j = ?x i" "\<forall>k. k \<noteq> j \<longrightarrow> node_at ?ns m2 k = node_at ?ns m1 k"
    using mem_write_node[of j ?ns m1 "?x i"] fi fj m1(2) by (auto simp: node_at_length)
  let ?q = "q\<lparr>pq_p := (pq_p q)[i := pq_p q ! j, j := pq_p q ! i], pq_q := m2\<rparr>"
  have "minpq_swap alloc q (int i) (int j) = Some ?q"
    using fi fj m1(1) m2(1) al by (simp add: minpq_swap_def arr_get_Some arr_set_Some mem_read_node)
  moreover have "pq_el ?q k = swap_f (pq_el q) i j k" for k
    using fi fj m1(3,4) m2(3,4) by (cases "k = i"; cases "k = j") (auto simp: pq_el_def swap_f_def)
  ultimately show ?thesis using m1(2) m2(2) by (auto simp: pq_frame_def)
qed

lemma minpq_swim_el:
  "pq_mem_ok q \<Longrightarrow> k \<le> nat (pq_cap q) \<Longrightarrow> alloc (pq_nodesize q) \<Longrightarrow>
   \<exists>q'. minpq_swim alloc q (int k) = Some q' \<and> pq_frame q q' \<and> pq_el q' = swim_f (pq_gt q) (pq_el q) k"
proof (induction k arbitrary: q rule: less_induct)
  case (less k)
  show ?case
  proof (cases "1 < k \<and> pq_gt q (pq_el q (k div 2)) (pq_el q k)")
    case True
    have k2: "k div 2 \<le> nat (pq_cap q)" "k div 2 < k" "int k div 2 = int (k div 2)" using less.prems(2) True by auto
    obtain q1 where q1: "minpq_swap alloc q (int k) (int (k div 2)) = Some q1" "pq_frame q q1"
        "pq_el q1 = swap_f (pq_el q) k (k div 2)"
      using minpq_swap_el[where alloc = alloc, OF less.prems(1,2) k2(1) less.prems(3)] by blast
    then have c: "comparator q1 = comparator q" "pq_cap q1 = pq_cap q" "pq_nodesize q1 = pq_nodesize q"
      by (simp_all add: pq_frame_def)
    from less.IH[OF k2(2), of q1] less.prems q1 k2 c obtain q2 where
      q2: "minpq_swim alloc q1 (int (k div 2)) = Some q2" "pq_frame q1 q2"
        "pq_el q2 = swim_f (pq_gt q) (pq_el q1) (k div 2)"
      by (auto simp: pq_frame_mem_ok)
    show ?thesis
      using True q1 q2 k2 minpq_greater_el[OF less.prems(1) k2(1) less.prems(2)] pq_frame_trans[OF q1(2) q2(2)]
      by (subst minpq_swim.simps) (simp add: swim_f.simps[of _ "pq_el q"])
  next
    case False
    then show ?thesis
      using minpq_greater_el[OF less.prems(1) _ less.prems(2), of "k div 2"] less.prems(2)
      by (subst minpq_swim.simps) (auto simp: swim_f.simps[of _ "pq_el q"] zdiv_int)
  qed
qed

lemma minpq_sink_el:
  "pq_mem_ok q \<Longrightarrow> 1 \<le> k \<Longrightarrow> k \<le> nat (pq_cap q) \<Longrightarrow> alloc (pq_nodesize q) \<Longrightarrow>
   \<exists>q'. minpq_sink alloc q (int k) = Some q' \<and> pq_frame q q' \<and>
        pq_el q' = sink_f (pq_gt q) (nat (pq_nr q)) (pq_el q) k"
proof (induction "nat (pq_nr q) - k" arbitrary: q k rule: less_induct)
  case less
  let ?n = "nat (pq_nr q)" let ?j = "min_child (pq_gt q) (pq_el q) ?n k"
  show ?case
  proof (cases "2 * k \<le> ?n")
    case False
    with less.prems show ?thesis
      by (auto simp: minpq_sink.simps[of alloc q] sink_f.simps[of _ _ "pq_el q"] pq_mem_ok_def)
  next
    case True
    have n: "?n \<le> nat (pq_cap q)" "0 \<le> pq_nr q" using less.prems(1) by (auto simp: pq_mem_ok_def)
    have j: "k < ?j" "?j \<le> ?n" using min_child_bounds[OF True, of "pq_gt q" "pq_el q"] less.prems(2) by auto
    have bound: "(2 * int k \<le> pq_nr q) = True" "(2 * int k < pq_nr q) = (2 * k < ?n)" "(2 * int k > 2147483647) = False"
      using True n less.prems(1) by (auto simp: pq_mem_ok_def)
    have g: "(if 2 * int k < pq_nr q then minpq_greater q (2 * int k) (2 * int k + 1) else Some False) =
        Some (2 * k < ?n \<and> pq_gt q (pq_el q (2 * k)) (pq_el q (2 * k + 1)))"
      using minpq_greater_el[OF less.prems(1), of "2 * k" "2 * k + 1"] n by (auto simp: add.commute)
    have jj: "(if 2 * k < ?n \<and> pq_gt q (pq_el q (2 * k)) (pq_el q (2 * k + 1)) then 2 * int k + 1 else 2 * int k) = int ?j"
      by (simp add: min_child_def)
    have h: "minpq_greater q (int k) (int ?j) = Some (pq_gt q (pq_el q k) (pq_el q ?j))"
      using minpq_greater_el[OF less.prems(1), of k ?j] less.prems(3) n j by auto
    have step: "minpq_sink alloc q (int k) = (if \<not> pq_gt q (pq_el q k) (pq_el q ?j) then Some q
        else do { q' \<leftarrow> minpq_swap alloc q (int k) (int ?j); minpq_sink alloc q' (int ?j) })"
      unfolding minpq_sink.simps[of alloc q "int k"]
      by (simp only: bound(1,3) if_True if_False g Option.bind.simps Let_def jj h)
    show ?thesis
    proof (cases "pq_gt q (pq_el q k) (pq_el q ?j)")
      case False
      then show ?thesis by (simp add: step sink_f.simps[of _ _ "pq_el q"])
    next
      case sw: True
      obtain q1 where q1: "minpq_swap alloc q (int k) (int ?j) = Some q1" "pq_frame q q1"
          "pq_el q1 = swap_f (pq_el q) k ?j"
        using minpq_swap_el[where alloc = alloc, OF less.prems(1,3) _ less.prems(4)] n j by (meson order_trans)
      then have c: "comparator q1 = comparator q" "pq_cap q1 = pq_cap q" "pq_nodesize q1 = pq_nodesize q" "pq_nr q1 = pq_nr q"
        by (simp_all add: pq_frame_def)
      have "nat (pq_nr q1) - ?j < ?n - k" using j c(4) by (simp add: diff_less_mono2)
      from less.hyps[OF this] less.prems q1 n j c obtain q2 where
        q2: "minpq_sink alloc q1 (int ?j) = Some q2" "pq_frame q1 q2"
          "pq_el q2 = sink_f (pq_gt q) ?n (pq_el q1) ?j"
        by (auto simp: pq_frame_mem_ok)
      then show ?thesis
        using True sw q1 less.prems(2) pq_frame_trans[OF q1(2) q2(2)]
        by (simp add: step sink_f.simps[of _ _ "pq_el q"])
    qed
  qed
qed

section \<open>The operations on the multiset of elements\<close>

lemma pq_el_nr: "pq_el (q\<lparr>pq_nr := n\<rparr>) = pq_el q"
  by (intro ext) (simp add: pq_el_def)

lemma pq_store:
  assumes ok: "pq_mem_ok q" and i: "i \<le> nat (pq_cap q)" and u: "length u = pq_nodesize q"
  shows "\<exists>p1 m1. arr_set (pq_p q) (int i) p = Some p1 \<and>
           mem_write (pq_q q) (int i * int (pq_nodesize q)) u = Some m1 \<and>
           length p1 = length (pq_p q) \<and> length m1 = length (pq_q q) \<and>
           pq_el (q\<lparr>pq_p := p1, pq_q := m1\<rparr>) = (pq_el q)(i := (p, u))"
proof -
  note fi = pq_fits[OF ok i]
  obtain m1 where m1: "mem_write (pq_q q) (int i * int (pq_nodesize q)) u = Some m1"
      "length m1 = length (pq_q q)" "node_at (pq_nodesize q) m1 i = u"
      "\<forall>k. k \<noteq> i \<longrightarrow> node_at (pq_nodesize q) m1 k = node_at (pq_nodesize q) (pq_q q) k"
    using mem_write_node[of i "pq_nodesize q" "pq_q q" u] fi u by auto
  with fi show ?thesis by (auto simp: arr_set_Some pq_el_def fun_eq_iff)
qed

lemma awoke_minpq_insert_room:
  assumes inv: "pq_inv q" and u: "length u = pq_nodesize q" and room: "pq_nr q < pq_cap q"
    and al: "alloc (pq_nodesize q)"
  shows "\<exists>q'. awoke_minpq_insert alloc q u p = Some (et_ok, q') \<and> pq_inv q' \<and>
           pq_mset q' = add_mset (p, u) (pq_mset q) \<and> pq_nr q' = pq_nr q + 1 \<and> pq_cap q' = pq_cap q \<and>
           pq_nodesize q' = pq_nodesize q \<and> pq_flags q' = pq_flags q \<and> comparator q' = comparator q"
proof -
  have ok: "pq_mem_ok q" and ord: "pq_ordered q" and hp: "heap_ok (pq_gt q) (pq_el q) (nat (pq_nr q))"
    using inv by (auto simp: pq_inv_def)
  let ?k = "Suc (nat (pq_nr q))"
  have nn: "0 \<le> pq_nr q" using ok by (simp add: pq_mem_ok_def)
  have k: "?k \<le> nat (pq_cap q)" "pq_nr q + 1 = int ?k" using room nn by auto
  obtain p1 m1 where st: "arr_set (pq_p q) (int ?k) p = Some p1"
      "mem_write (pq_q q) (int ?k * int (pq_nodesize q)) u = Some m1"
      "length p1 = length (pq_p q)" "length m1 = length (pq_q q)"
      "pq_el (q\<lparr>pq_p := p1, pq_q := m1\<rparr>) = (pq_el q)(?k := (p, u))"
    using pq_store[OF ok k(1) u] by blast
  let ?q1 = "q\<lparr>pq_nr := int ?k, pq_p := p1, pq_q := m1\<rparr>"
  have el1: "pq_el ?q1 = (pq_el q)(?k := (p, u))" using st(5) by (simp add: pq_el_def fun_eq_iff)
  have "pq_mem_ok ?q1" using ok k(1) st(3,4) nn room by (simp add: pq_mem_ok_def)
  from minpq_swim_el[OF this, of ?k alloc] k(1) al obtain q2 where
    q2: "minpq_swim alloc ?q1 (int ?k) = Some q2" "pq_frame ?q1 q2"
      "pq_el q2 = swim_f (pq_gt q) (pq_el ?q1) ?k"
    by auto
  have fr: "pq_nr q2 = int ?k" "comparator q2 = comparator q" using q2(2) by (auto simp: pq_frame_def)
  have nk: "nat (pq_nr q2) = ?k" unfolding fr(1) by (rule nat_int)
  have hp2: "heap_ok (pq_gt q) (pq_el q2) ?k"
    unfolding q2(3) el1 using hp
    by (intro heap_order.swim_heap[OF cmp_gt_order[OF ord]]) (auto simp: heap_ok_def)
  have "pq_mset q2 = add_mset (p, u) (pq_mset q)"
  proof -
    have "pq_mset q2 = heap_mset (swim_f (pq_gt q) ((pq_el q)(?k := (p, u))) ?k) ?k"
      unfolding pq_mset_def fr(1) q2(3) el1 by (simp only: nat_int)
    also have "\<dots> = heap_mset ((pq_el q)(?k := (p, u))) ?k" by (rule swim_f_mset) auto
    also have "\<dots> = add_mset (p, u) (pq_mset q)"
      using heap_mset_cong[of "nat (pq_nr q)" "(pq_el q)(?k := (p, u))" "pq_el q"]
      by (simp add: heap_mset_Suc pq_mset_def)
    finally show ?thesis .
  qed
  moreover have "awoke_minpq_insert alloc q u p = Some (et_ok, q2)"
    using room st(1,2) q2(1) unfolding awoke_minpq_insert_def Let_def
    by (simp add: awoke_minpq_full_def k(2) del: of_nat_Suc int_nat_eq)
  moreover have "pq_mem_ok q2" using \<open>pq_mem_ok ?q1\<close> q2(2) by (simp add: pq_frame_mem_ok)
  then have "pq_inv q2" using ord hp2 unfolding pq_inv_def nk pq_ordered_def fr(2) by simp
  ultimately show ?thesis using q2(2) unfolding k(2) pq_frame_def by simp
qed

text \<open>
  Removing position \<open>i\<close> without the resize flag: the last element takes its place and
  sinks.
\<close>

lemma minpq_remove_el:
  assumes ok: "pq_mem_ok q" and i: "1 \<le> i" "i \<le> nat (pq_nr q)" and al: "alloc (pq_nodesize q)"
    and fl: "\<not> mask_exst (pq_flags q) AWOKE_MINPQ_F_RES"
  shows "\<exists>q'. minpq_remove alloc q (int i) = Some (et_ok, Some (snd (pq_el q i), fst (pq_el q i)), q') \<and>
           pq_mem_ok q' \<and> pq_nr q' = pq_nr q - 1 \<and> pq_cap q' = pq_cap q \<and>
           pq_nodesize q' = pq_nodesize q \<and> pq_flags q' = pq_flags q \<and> comparator q' = comparator q \<and>
           (\<forall>k \<le> nat (pq_nr q) - 1. pq_el q' k =
              sink_f (pq_gt q) (nat (pq_nr q) - 1) ((pq_el q)(i := pq_el q (nat (pq_nr q)))) i k)"
proof -
  let ?n = "nat (pq_nr q)" and ?ns = "pq_nodesize q"
  have nc: "?n \<le> nat (pq_cap q)" "i \<le> nat (pq_cap q)" "pq_nr q = int ?n"
    using ok i by (auto simp: pq_mem_ok_def)
  note fi = pq_fits[OF ok nc(2)] and fn = pq_fits[OF ok nc(1)]
  obtain p1 m1 where st: "arr_set (pq_p q) (int i) (fst (pq_el q ?n)) = Some p1"
      "mem_write (pq_q q) (int i * int ?ns) (snd (pq_el q ?n)) = Some m1"
      "length p1 = length (pq_p q)" "length m1 = length (pq_q q)"
      "pq_el (q\<lparr>pq_p := p1, pq_q := m1\<rparr>) = (pq_el q)(i := pq_el q ?n)"
    using pq_store[OF ok nc(2), of "snd (pq_el q ?n)" "fst (pq_el q ?n)"] fn
    by (auto simp: pq_el_def node_at_length)
  let ?q1 = "q\<lparr>pq_p := p1, pq_q := m1, pq_nr := int (?n - 1)\<rparr>"
  have el1: "pq_el ?q1 = (pq_el q)(i := pq_el q ?n)" using st(5) by (simp add: pq_el_def fun_eq_iff)
  have ok1: "pq_mem_ok ?q1" using ok st i by (auto simp: pq_mem_ok_def)
  from minpq_sink_el[OF this i(1), of alloc] nc(2) al obtain q2 where
    q2: "minpq_sink alloc ?q1 (int i) = Some q2" "pq_frame ?q1 q2"
      "pq_el q2 = sink_f (pq_gt q) (?n - 1) (pq_el ?q1) i"
    by auto
  have ok2: "pq_mem_ok q2" using ok1 q2(2) by (simp add: pq_frame_mem_ok)
  have fr: "pq_nr q2 = int (?n - 1)" "pq_cap q2 = pq_cap q" "pq_nodesize q2 = ?ns"
      "pq_flags q2 = pq_flags q" "comparator q2 = comparator q"
    using q2(2) by (simp_all add: pq_frame_def)
  obtain p3 m3 where st2: "arr_set (pq_p q2) (int ?n) 0 = Some p3"
      "mem_write (pq_q q2) (int ?n * int ?ns) (zeros ?ns) = Some m3"
      "length p3 = length (pq_p q2)" "length m3 = length (pq_q q2)"
      "pq_el (q2\<lparr>pq_p := p3, pq_q := m3\<rparr>) = (pq_el q2)(?n := (0, zeros ?ns))"
    using pq_store[OF ok2, of ?n "zeros ?ns" 0] nc(1) fr by auto
  let ?q3 = "q2\<lparr>pq_p := p3, pq_q := m3\<rparr>"
  have g: "mem_read (pq_q q) (int i * int ?ns) ?ns = Some (snd (pq_el q i))"
      "arr_get (pq_p q) (int i) = Some (fst (pq_el q i))"
      "arr_get (pq_p q) (pq_nr q) = Some (fst (pq_el q ?n))"
      "mem_read (pq_q q) (pq_nr q * int ?ns) ?ns = Some (snd (pq_el q ?n))"
    using fi fn mem_read_node[of ?n ?ns "pq_q q"] ok
    by (auto simp: pq_el_def mem_read_node arr_get_def pq_mem_ok_def)
  have m: "pq_nr q - 1 = int (?n - 1)" using i nc(3) by auto
  have nr2: "pq_nr q2 = pq_nr q - 1" using fr(1) unfolding m .
  have sk: "minpq_sink alloc (q\<lparr>pq_p := p1, pq_q := m1, pq_nr := pq_nr q - 1\<rparr>) (int i) = Some q2"
    unfolding m by (rule q2(1))
  have s3: "arr_set (pq_p q2) (pq_nr q) 0 = Some p3" "mem_write (pq_q q2) (pq_nr q * int ?ns) (zeros ?ns) = Some m3"
    using st2(1,2) unfolding nc(3)[symmetric] by auto
  have d: "\<exists>a. c_div (pq_cap q - 1) 4 = Some a" "\<exists>a. c_div (pq_cap q) 2 = Some a"
    by (simp_all add: c_div_def)
  have "minpq_remove alloc q (int i) = Some (et_ok, Some (snd (pq_el q i), fst (pq_el q i)), ?q3)"
    using st(1,2) s3 sk fl d unfolding minpq_remove_def g Option.bind.simps Let_def
    by (auto simp: fr(2-5) nr2)
  moreover have "pq_mem_ok ?q3" using ok2 st2(3,4) by (simp add: pq_mem_ok_def)
  moreover have "pq_el ?q3 k = sink_f (pq_gt q) (?n - 1) ((pq_el q)(i := pq_el q ?n)) i k" if "k \<le> ?n - 1" for k
    using that i unfolding st2(5) q2(3) el1 by auto
  ultimately show ?thesis by (intro exI[of _ ?q3]) (simp add: fr(2-5) nr2)
qed

lemma heap_mset_remove:
  assumes "1 \<le> i" "i \<le> n"
  shows "heap_mset (el(i := el n)) (n - 1) = heap_mset el n - {#el i#}"
proof -
  obtain m where n: "n = Suc m" using assms by (cases n) auto
  have "add_mset (el i) (heap_mset (el(i := el n)) m) = heap_mset el n"
  proof (cases "i = n")
    case True
    then show ?thesis using heap_mset_cong[of m "el(i := el n)" el] n by (simp add: heap_mset_Suc)
  next
    case False
    have "heap_mset el n = heap_mset (swap_f el i n) n" using assms by (simp add: heap_mset_eq_swap)
    also have "\<dots> = add_mset (el i) (heap_mset (swap_f el i n) m)"
      using False unfolding n heap_mset_Suc by (simp add: swap_f_def)
    also have "heap_mset (swap_f el i n) m = heap_mset (el(i := el n)) m"
      using n by (intro heap_mset_cong) (auto simp: swap_f_def)
    finally show ?thesis by simp
  qed
  then show ?thesis using n by (metis add_mset_remove_trivial diff_Suc_1)
qed

lemma awoke_minpq_delmin_ok:
  assumes inv: "pq_inv q" and ne: "0 < pq_nr q" and al: "alloc (pq_nodesize q)"
    and fl: "\<not> mask_exst (pq_flags q) AWOKE_MINPQ_F_RES"
  shows "\<exists>u p q'. awoke_minpq_delmin alloc q = Some (et_ok, Some (u, p), q') \<and> pq_inv q' \<and>
           (p, u) \<in># pq_mset q \<and> (\<forall>e \<in># pq_mset q. \<not> pq_gt q (p, u) e) \<and>
           pq_mset q' = pq_mset q - {#(p, u)#} \<and> pq_nr q' = pq_nr q - 1 \<and> pq_cap q' = pq_cap q \<and>
           pq_nodesize q' = pq_nodesize q \<and> pq_flags q' = pq_flags q \<and> comparator q' = comparator q"
proof -
  let ?n = "nat (pq_nr q)" and ?el = "(pq_el q)(1 := pq_el q (nat (pq_nr q)))"
  have ok: "pq_mem_ok q" and ord: "pq_ordered q" and hp: "heap_ok (pq_gt q) (pq_el q) ?n"
    using inv by (auto simp: pq_inv_def)
  note ho = cmp_gt_order[OF ord]
  have n: "1 \<le> ?n" using ne by simp
  from minpq_remove_el[where i = 1 and alloc = alloc, OF ok _ n al fl] obtain q' where
    q': "minpq_remove alloc q 1 = Some (et_ok, Some (snd (pq_el q 1), fst (pq_el q 1)), q')"
      "pq_mem_ok q'" "pq_nr q' = pq_nr q - 1" "pq_cap q' = pq_cap q" "pq_nodesize q' = pq_nodesize q"
      "pq_flags q' = pq_flags q" "comparator q' = comparator q"
      "\<forall>k \<le> ?n - 1. pq_el q' k = sink_f (pq_gt q) (?n - 1) ?el 1 k"
    by auto
  have n': "nat (pq_nr q') = ?n - 1" using q'(3) ne by simp
  have "heap_ok (pq_gt q) (sink_f (pq_gt q) (?n - 1) ?el 1) (?n - 1)"
  proof (rule heap_order.sink_heap[OF ho])
    show "\<forall>i. 2 \<le> i \<and> i \<le> ?n - 1 \<and> i div 2 \<noteq> 1 \<longrightarrow> \<not> pq_gt q (?el (i div 2)) (?el i)"
      using hp by (auto simp: heap_ok_def)
  qed simp_all
  then have "heap_ok (pq_gt q) (pq_el q') (?n - 1)"
    using q'(8) heap_ok_cong[of "?n - 1" "pq_el q'"] by blast
  then have "pq_inv q'" using q' ord n' by (simp add: pq_inv_def pq_ordered_def)
  moreover have "pq_mset q' = pq_mset q - {#pq_el q 1#}"
  proof (cases "?n = 1")
    case True
    then show ?thesis using n' by (simp add: pq_mset_def heap_mset_def)
  next
    case False
    have "pq_mset q' = heap_mset (sink_f (pq_gt q) (?n - 1) ?el 1) (?n - 1)"
      unfolding pq_mset_def n' using q'(8) by (intro heap_mset_cong) auto
    also have "\<dots> = heap_mset ?el (?n - 1)" using False n by (intro sink_f_mset) auto
    finally show ?thesis using heap_mset_remove[of 1 ?n "pq_el q"] n by (simp add: pq_mset_def)
  qed
  moreover have "pq_el q 1 \<in># pq_mset q" using n by (auto simp: pq_mset_def heap_mset_member)
  moreover have "\<forall>e \<in># pq_mset q. \<not> pq_gt q (pq_el q 1) e"
    using heap_order.heap_root[OF ho hp] by (auto simp: pq_mset_def heap_mset_member)
  ultimately show ?thesis using q' ne by (simp add: awoke_minpq_delmin_def awoke_minpq_empty_def)
qed

lemma awoke_minpq_create_ok:
  assumes "0 < ns" "0 < cap" "cap < 1073741824" "\<And>n. alloc n" "case cmp of None \<Rightarrow> True | Some c \<Rightarrow> cmp_order c"
  shows "\<exists>q. awoke_minpq_create alloc ns cap cmp fl = Some (Some q) \<and> pq_inv q \<and> pq_mset q = {#} \<and>
           pq_cap q = cap \<and> pq_nodesize q = ns \<and> comparator q = cmp"
  using assms
  by (auto simp: awoke_minpq_create_def Let_def minpq_allocnr_def pq_inv_def pq_mem_ok_def pq_ordered_def
      heap_ok_def pq_mset_def heap_mset_def nat_add_distrib)


section \<open>Properties\<close>

text \<open>A session: insert a list of nodes, then remove the minimum until \<open>n\<close> have been removed.\<close>

fun pq_insert_all :: "allocator \<Rightarrow> awoke_minpq \<Rightarrow> (int \<times> bytes) list \<Rightarrow> awoke_minpq option" where
  "pq_insert_all alloc q [] = Some q"
| "pq_insert_all alloc q ((p, u) # xs) = do {
     (_, q') \<leftarrow> awoke_minpq_insert alloc q u p;
     pq_insert_all alloc q' xs }"

fun pq_drain :: "allocator \<Rightarrow> awoke_minpq \<Rightarrow> nat \<Rightarrow> ((int \<times> bytes) list \<times> awoke_minpq) option" where
  "pq_drain alloc q 0 = Some ([], q)"
| "pq_drain alloc q (Suc n) = do {
     (_, r, q') \<leftarrow> awoke_minpq_delmin alloc q;
     (u, p) \<leftarrow> r;
     (xs, q'') \<leftarrow> pq_drain alloc q' n;
     Some ((p, u) # xs, q'') }"

lemma pq_insert_all_ok:
  assumes "pq_inv q" "pq_nr q + int (length xs) \<le> pq_cap q" "\<forall>x \<in> set xs. length (snd x) = pq_nodesize q"
    and al: "alloc (pq_nodesize q)"
  shows "\<exists>q'. pq_insert_all alloc q xs = Some q' \<and> pq_inv q' \<and> pq_mset q' = pq_mset q + mset xs \<and>
           pq_nr q' = pq_nr q + int (length xs) \<and> pq_nodesize q' = pq_nodesize q \<and>
           pq_flags q' = pq_flags q \<and> comparator q' = comparator q"
  using assms
proof (induction xs arbitrary: q)
  case Nil
  then show ?case by simp
next
  case (Cons x xs)
  obtain p u where x: "x = (p, u)" by fastforce
  from awoke_minpq_insert_room[where alloc = alloc and p = p, OF Cons.prems(1), of u] Cons.prems x
  obtain q1 where q1: "awoke_minpq_insert alloc q u p = Some (et_ok, q1)" "pq_inv q1"
      "pq_mset q1 = add_mset (p, u) (pq_mset q)" "pq_nr q1 = pq_nr q + 1" "pq_cap q1 = pq_cap q"
      "pq_nodesize q1 = pq_nodesize q" "pq_flags q1 = pq_flags q" "comparator q1 = comparator q" by auto
  from Cons.IH[OF q1(2)] Cons.prems q1 show ?case unfolding x by auto
qed

lemma pq_drain_ok:
  assumes "pq_inv q" "pq_nr q = int n" "alloc (pq_nodesize q)" "\<not> mask_exst (pq_flags q) AWOKE_MINPQ_F_RES"
  shows "\<exists>xs q'. pq_drain alloc q n = Some (xs, q') \<and> pq_inv q' \<and> pq_nr q' = 0 \<and> mset xs = pq_mset q \<and>
           sorted_wrt (\<lambda>a b. \<not> pq_gt q a b) xs"
  using assms
proof (induction n arbitrary: q)
  case 0
  then show ?case by (simp add: pq_mset_def heap_mset_def)
next
  case (Suc n)
  from awoke_minpq_delmin_ok[where alloc = alloc, OF Suc.prems(1) _ Suc.prems(3,4)] Suc.prems(2)
  obtain u p q1 where q1: "awoke_minpq_delmin alloc q = Some (et_ok, Some (u, p), q1)" "pq_inv q1"
      "(p, u) \<in># pq_mset q" "\<forall>e \<in># pq_mset q. \<not> pq_gt q (p, u) e" "pq_mset q1 = pq_mset q - {#(p, u)#}"
      "pq_nr q1 = int n" "pq_nodesize q1 = pq_nodesize q" "pq_flags q1 = pq_flags q" "comparator q1 = comparator q"
    by auto
  from Suc.IH[OF q1(2,6)] Suc.prems q1(7,8,9) obtain xs q' where
    xs: "pq_drain alloc q1 n = Some (xs, q')" "pq_inv q'" "pq_nr q' = 0" "mset xs = pq_mset q1"
      "sorted_wrt (\<lambda>a b. \<not> pq_gt q a b) xs" by auto
  have "set xs \<subseteq> set_mset (pq_mset q)" using xs(4) q1(5) by (metis diff_subset_eq_self set_mset_mono set_mset_mset)
  with q1 xs show ?case by auto
qed

text \<open>Inserting into a priority queue with room keeps the heap order for the configured
  comparison and adds exactly the given node with its priority; a full queue that may not
  resize refuses with \<open>et_full\<close> and is unchanged.\<close>

theorem awoke_minpq_insert_correct:
  assumes "pq_inv q" "length u = pq_nodesize q" "alloc (pq_nodesize q)"
    and "\<not> mask_exst (pq_flags q) AWOKE_MINPQ_F_RES"
  shows "if pq_nr q = pq_cap q then awoke_minpq_insert alloc q u p = Some (et_full, q)
         else \<exists>q'. awoke_minpq_insert alloc q u p = Some (et_ok, q') \<and> pq_inv q' \<and>
           pq_mset q' = add_mset (p, u) (pq_mset q) \<and> awoke_minpq_size q' = awoke_minpq_size q + 1"
  using awoke_minpq_insert_room[where alloc = alloc and p = p, OF assms(1,2) _ assms(3)] assms(1,4)
  by (auto simp: awoke_minpq_insert_def awoke_minpq_full_def awoke_minpq_size_def pq_inv_def pq_mem_ok_def)

text \<open>A queue of one-byte nodes with room for seven, holding the given priorities.\<close>

definition pq_example :: "int list \<Rightarrow> awoke_minpq" where
  "pq_example ps = \<lparr>pq_nr = int (length ps), pq_cap = 7, pq_nodesize = 1,
     pq_p = 0 # ps @ replicate (7 - length ps) 0, pq_q = zeros 8, pq_flags = 0, comparator = None\<rparr>"

lemma heap_ok_upto: "heap_ok gt el n \<longleftrightarrow> (\<forall>i \<in> set [2..<Suc n]. \<not> gt (el (i div 2)) (el i))"
  by (auto simp: heap_ok_def)

lemma pq_example_inv: "pq_inv (pq_example [])" "pq_inv (pq_example [1, 10, 2, 11, 12, 3, 4])"
  by (simp_all add: pq_example_def pq_inv_def pq_mem_ok_def pq_ordered_def heap_ok_upto upt_rec pq_el_def
      cmp_gt_def)

theorem awoke_minpq_insert_correct_witness:
  "\<exists>q'. awoke_minpq_insert (\<lambda>_. True) (pq_example []) [5] 3 = Some (et_ok, q') \<and> pq_mset q' = {#(3, [5])#}"
  using awoke_minpq_insert_correct[OF pq_example_inv(1), of "[5]" "\<lambda>_. True" 3]
  by (auto simp: pq_example_def pq_mset_def heap_mset_def mask_exst_def)

text \<open>C4: \<open>delmin\<close> on a queue that does not resize itself (\<open>AWOKE_MINPQ_F_RES\<close> is not set). On a non-empty queue it
  returns an element no other element is below, removes exactly that one and keeps the heap order; on an empty queue
  it returns \<open>et_empty\<close> and changes nothing. With the flag the queue shrinks itself and loses its priorities
  (\<open>awoke_minpq_resize_loses_priorities\<close>), so the property is stated without it.\<close>

theorem awoke_minpq_delmin_correct:
  assumes "pq_inv q" "alloc (pq_nodesize q)" "\<not> mask_exst (pq_flags q) AWOKE_MINPQ_F_RES"
  shows "if awoke_minpq_empty q then awoke_minpq_delmin alloc q = Some (et_empty, None, q)
         else \<exists>u p q'. awoke_minpq_delmin alloc q = Some (et_ok, Some (u, p), q') \<and> pq_inv q' \<and>
           (p, u) \<in># pq_mset q \<and> (\<forall>e \<in># pq_mset q. \<not> pq_gt q (p, u) e) \<and>
           pq_mset q' = pq_mset q - {#(p, u)#} \<and> pq_cap q' = pq_cap q"
proof (cases "awoke_minpq_empty q")
  case False
  then have "0 < pq_nr q" using assms(1) by (simp add: awoke_minpq_empty_def pq_inv_def pq_mem_ok_def)
  from awoke_minpq_delmin_ok[where alloc = alloc, OF assms(1) this assms(2,3)] False show ?thesis by auto
qed (simp add: awoke_minpq_delmin_def)

theorem awoke_minpq_delmin_correct_witness:
  "\<exists>u p q'. awoke_minpq_delmin (\<lambda>_. True) (pq_example [1, 10, 2, 11, 12, 3, 4]) = Some (et_ok, Some (u, p), q') \<and>
     pq_inv q' \<and> (p, u) \<in># pq_mset (pq_example [1, 10, 2, 11, 12, 3, 4])"
  using awoke_minpq_delmin_correct[OF pq_example_inv(2), of "\<lambda>_. True"]
  by (auto simp: pq_example_def mask_exst_def awoke_minpq_empty_def)

text \<open>C3: the priority queue sorts. A queue created without a comparator and without flags, with a capacity
  below 2^30 (so that the index of a child fits into an \<open>int\<close>), filled with at most \<open>cap\<close> elements and drained by
  \<open>delmin\<close>, returns a permutation of them in ascending order of priority.\<close>

theorem awoke_minpq_sorts:
  assumes "0 < ns" "0 < cap" "cap < 1073741824" "int (length xs) \<le> cap" "\<forall>x \<in> set xs. length (snd x) = ns"
  shows "\<exists>q q1 q2 ys. awoke_minpq_create (\<lambda>_. True) ns cap None 0 = Some (Some q) \<and>
           pq_insert_all (\<lambda>_. True) q xs = Some q1 \<and> pq_drain (\<lambda>_. True) q1 (length xs) = Some (ys, q2) \<and>
           mset ys = mset xs \<and> sorted (map fst ys) \<and> awoke_minpq_empty q2"
proof -
  obtain q where q: "awoke_minpq_create (\<lambda>_. True) ns cap None 0 = Some (Some q)" "pq_inv q" "pq_mset q = {#}"
      "pq_cap q = cap" "pq_nodesize q = ns" "comparator q = None"
    using awoke_minpq_create_ok[of ns cap "\<lambda>_. True" None 0] assms by auto
  have nr: "pq_nr q = 0" using q(2,3) by (auto simp: pq_mset_def heap_mset_def pq_inv_def pq_mem_ok_def dest: arg_cong[of _ _ size])
  have fl: "\<not> mask_exst (pq_flags q) AWOKE_MINPQ_F_RES"
    using q(1) assms by (auto simp: awoke_minpq_create_def minpq_allocnr_def Let_def mask_push_def mask_exst_def split: if_splits)
  obtain q1 where q1: "pq_insert_all (\<lambda>_. True) q xs = Some q1" "pq_inv q1" "pq_mset q1 = mset xs"
      "pq_nr q1 = int (length xs)" "pq_flags q1 = pq_flags q" "comparator q1 = None"
    using pq_insert_all_ok[of q xs "\<lambda>_. True"] q nr assms by auto
  obtain ys q2 where q2: "pq_drain (\<lambda>_. True) q1 (length xs) = Some (ys, q2)" "pq_nr q2 = 0" "mset ys = mset xs"
      "sorted_wrt (\<lambda>a b. \<not> pq_gt q1 a b) ys"
    using pq_drain_ok[of q1 "length xs" "\<lambda>_. True"] q1 fl by auto
  have "sorted (map fst ys)"
    unfolding sorted_wrt_map using q2(4)
    by (rule sorted_wrt_mono_rel[rotated]) (auto simp: cmp_gt_def q1(6))
  with q q1 q2 show ?thesis by (auto simp: awoke_minpq_empty_def)
qed

theorem awoke_minpq_sorts_witness:
  "\<exists>q q1 q2 ys. awoke_minpq_create (\<lambda>_. True) 1 4 None 0 = Some (Some q) \<and>
     pq_insert_all (\<lambda>_. True) q [(3, [30]), (1, [10]), (2, [20])] = Some q1 \<and>
     pq_drain (\<lambda>_. True) q1 3 = Some (ys, q2) \<and> sorted (map fst ys) \<and> mset ys = {#(1, [10]), (2, [20]), (3, [30])#}"
  using awoke_minpq_sorts[of 1 4 "[(3, [30]), (1, [10]), (2, [20])]"] by (auto simp: add_mset_commute numeral_3_eq_3)

text \<open>\<open>del\<close> at a valid position returns the node and priority stored there and removes exactly
  that element; position 0 and negative ones are refused with \<open>et_param\<close>.\<close>

theorem awoke_minpq_del_removes:
  assumes "pq_mem_ok q" "pq_nr q \<noteq> 0" "alloc (pq_nodesize q)" "\<not> mask_exst (pq_flags q) AWOKE_MINPQ_F_RES"
    and "i \<le> pq_nr q"
  shows "if i < 1 then awoke_minpq_del alloc q i = Some (et_param, None, q)
         else \<exists>q'. awoke_minpq_del alloc q i =
                Some (et_ok, Some (snd (pq_el q (nat i)), fst (pq_el q (nat i))), q') \<and> pq_mem_ok q' \<and>
              pq_mset q' = pq_mset q - {#pq_el q (nat i)#}"
proof (cases "i < 1")
  case False
  let ?n = "nat (pq_nr q)" and ?i = "nat i"
  let ?el = "(pq_el q)(?i := pq_el q ?n)"
  have i: "1 \<le> ?i" "?i \<le> ?n" "int ?i = i" using False assms by auto
  from minpq_remove_el[where alloc = alloc, OF assms(1) i(1,2) assms(3,4)] i(3) obtain q' where
    q': "minpq_remove alloc q i = Some (et_ok, Some (snd (pq_el q ?i), fst (pq_el q ?i)), q')" "pq_mem_ok q'"
      "pq_nr q' = pq_nr q - 1" "\<forall>k \<le> ?n - 1. pq_el q' k = sink_f (pq_gt q) (?n - 1) ?el ?i k" by auto
  have n': "nat (pq_nr q') = ?n - 1" using q'(3) by simp
  have "pq_mset q' = heap_mset (sink_f (pq_gt q) (?n - 1) ?el ?i) (?n - 1)"
    unfolding pq_mset_def n' using q'(4) by (intro heap_mset_cong) auto
  also have "\<dots> = heap_mset ?el (?n - 1)"
  proof (cases "?i \<le> ?n - 1")
    case True
    then show ?thesis by (rule sink_f_mset)
  next
    case False
    then have "\<not> 2 * ?i \<le> ?n - 1" by simp
    then show ?thesis by (simp add: sink_f.simps)
  qed
  also have "\<dots> = pq_mset q - {#pq_el q ?i#}" unfolding pq_mset_def by (rule heap_mset_remove[OF i(1,2)])
  finally show ?thesis using False q' assms(2) by (simp add: awoke_minpq_del_def awoke_minpq_empty_def)
qed (use assms in \<open>simp add: awoke_minpq_del_def awoke_minpq_empty_def\<close>)

theorem awoke_minpq_del_removes_witness:
  "\<exists>q'. awoke_minpq_del (\<lambda>_. True) (pq_example [1, 10, 2, 11, 12, 3, 4]) 4 = Some (et_ok, Some ([0], 11), q') \<and>
     pq_mem_ok q'"
  using awoke_minpq_del_removes[of "pq_example [1, 10, 2, 11, 12, 3, 4]" "\<lambda>_. True" 4] pq_example_inv(2)
  by (auto simp: pq_inv_def pq_el_def node_at_def pq_example_def mask_exst_def)


text \<open>\<open>del\<close> does not keep the heap order. It lets the element that fills the gap sink but
  never swim, so from a correct heap deleting an inner position can leave a child that is smaller
  than its parent.\<close>

theorem awoke_minpq_del_breaks_heap:
  "\<exists>q q' r. pq_inv q \<and> awoke_minpq_del (\<lambda>_. True) q 4 = Some (et_ok, r, q') \<and> \<not> pq_inv q'"
proof -
  let ?q = "pq_example [1, 10, 2, 11, 12, 3, 4]"
  have "\<exists>r q'. awoke_minpq_del (\<lambda>_. True) ?q 4 = Some (et_ok, r, q') \<and>
          pq_p q' = [0, 1, 10, 2, 4, 12, 3, 0] \<and> pq_nr q' = 6 \<and> comparator q' = None"
    by (simp add: awoke_minpq_del_def awoke_minpq_empty_def minpq_remove_def pq_example_def mem_read_def
        mem_write_def arr_get_def arr_set_def minpq_sink.simps c_div_def mask_exst_def)
  then obtain r q' where d: "awoke_minpq_del (\<lambda>_. True) ?q 4 = Some (et_ok, r, q')"
      "pq_p q' = [0, 1, 10, 2, 4, 12, 3, 0]" "pq_nr q' = 6" "comparator q' = None" by blast
  have "\<not> pq_inv q'"
    by (simp add: pq_inv_def d heap_ok_upto upt_rec pq_el_def cmp_gt_def)
  with d(1) pq_example_inv(2) show ?thesis by blast
qed

text \<open>Growing the queue loses its priorities. The new priority array is copied from the node
  storage, so the result of a successful resize does not depend on the priorities the queue had:
  two queues with the same nodes and different priorities become the same queue.\<close>

theorem awoke_minpq_resize_loses_priorities:
  assumes "awoke_minpq_resize alloc q cap = Some (et_ok, q')"
  shows "awoke_minpq_resize alloc (q\<lparr>pq_p := ps\<rparr>) cap = Some (et_ok, q')"
  using assms by (auto simp: awoke_minpq_resize_def bind_eq_Some_conv split: if_splits)

theorem awoke_minpq_resize_loses_priorities_witness:
  "\<exists>q'. awoke_minpq_resize (\<lambda>_. True)
       \<lparr>pq_nr = 1, pq_cap = 1, pq_nodesize = 4, pq_p = [0, 9], pq_q = zeros 8, pq_flags = 2, comparator = None\<rparr> 2 =
         Some (et_ok, q') \<and> pq_p q' = [0, 0, 0] \<and>
     awoke_minpq_resize (\<lambda>_. True)
       \<lparr>pq_nr = 1, pq_cap = 1, pq_nodesize = 4, pq_p = [0, 5], pq_q = zeros 8, pq_flags = 2, comparator = None\<rparr> 2 =
         Some (et_ok, q')"
proof -
  let ?q = "\<lparr>pq_nr = 1, pq_cap = 1, pq_nodesize = 4, pq_p = [0, 9], pq_q = zeros 8, pq_flags = 2, comparator = None\<rparr>"
  have "awoke_minpq_resize (\<lambda>_. True) ?q 2 =
          Some (et_ok, ?q\<lparr>pq_q := zeros 12, pq_p := [0, 0, 0], pq_cap := 2\<rparr>)"
    by (simp add: awoke_minpq_resize_def mem_read_def mem_write_def numeral_eq_Suc c_int_def)
  from this awoke_minpq_resize_loses_priorities[OF this, of "[0, 5]"] show ?thesis by auto
qed

end
