(* ===== verification/Awoke_Bitmap.thy ===== *)
theory Awoke_Bitmap
  imports Prelude
begin

text \<open>
  The bitmaps of \<open>lib/libutil/include/awoke_bitmap.h\<close> and \<open>src/awoke_bitmap.c\<close>: an array of
  32-bit words. The masks are built in \<open>unsigned long\<close> and meet an \<open>unsigned int\<close> in every
  use, so their low 32 bits are the model's words; a shift by a negative amount, which a
  negative \<open>start\<close> gives, is undefined. \<open>bm_bit\<close> reads a bitmap as a set of positions, and the
  range loops are shown once for both of their word operations in the locale \<open>bit_writer\<close>.
\<close>

section \<open>Model\<close>

definition BITMAP_FIRST_WORD_MASK :: "int \<Rightarrow> u32 option" where
  "BITMAP_FIRST_WORD_MASK start = do {
     r \<leftarrow> c_rem start 32;
     if r < 0 then None else Some (push_bit (nat r) (NOT 0)) }"

definition BITMAP_LAST_WORD_MASK :: "int \<Rightarrow> u32 option" where
  "BITMAP_LAST_WORD_MASK nbits = do {
     r \<leftarrow> c_rem nbits 32;
     if r < 0 then None else if r \<noteq> 0 then Some (push_bit (nat r) 1 - 1) else Some (NOT 0) }"

definition update_word :: "(u32 \<Rightarrow> u32 \<Rightarrow> u32) \<Rightarrow> u32 list \<Rightarrow> int \<Rightarrow> u32 \<Rightarrow> u32 list option" where
  "update_word f bm p m = do { w \<leftarrow> arr_get bm p; arr_set bm p (f w m) }"

definition bitop :: "(u32 \<Rightarrow> u32 \<Rightarrow> u32) \<Rightarrow> u32 \<Rightarrow> u32 list \<Rightarrow> u32 list option" where
  "bitop f b bm = update_word f bm (uint (drop_bit 5 b)) (push_bit (unat (b AND 31)) 1)"

definition u_set_bit :: "u32 \<Rightarrow> u32 list \<Rightarrow> u32 list option" where
  "u_set_bit = bitop (\<lambda>w m. w OR m)"

definition u_clear_bit :: "u32 \<Rightarrow> u32 list \<Rightarrow> u32 list option" where
  "u_clear_bit = bitop (\<lambda>w m. w AND NOT m)"

definition u_change_bit :: "u32 \<Rightarrow> u32 list \<Rightarrow> u32 list option" where
  "u_change_bit = bitop (\<lambda>w m. w XOR m)"

definition test_bit :: "int \<Rightarrow> u32 list \<Rightarrow> int option" where
  "test_bit nr addr = do {
     k \<leftarrow> c_div nr 32;
     w \<leftarrow> arr_get addr k;
     Some (uint (1 AND drop_bit (nat (nr AND 31)) w)) }"

fun words_all :: "(u32 \<Rightarrow> bool) \<Rightarrow> u32 list \<Rightarrow> int \<Rightarrow> nat \<Rightarrow> bool option" where
  "words_all ok bm k 0 = Some True"
| "words_all ok bm k (Suc n) = do { w \<leftarrow> arr_get bm k; if \<not> ok w then Some False else words_all ok bm (k + 1) n }"

definition awoke_bitmap_empty :: "u32 list \<Rightarrow> int \<Rightarrow> bool option" where
  "awoke_bitmap_empty bitmap bits = do {
     lim \<leftarrow> c_div bits 32;
     z \<leftarrow> words_all (\<lambda>w. w = 0) bitmap 0 (nat lim);
     r \<leftarrow> c_rem bits 32;
     if \<not> z then Some False
     else if r \<noteq> 0 then do {
       w \<leftarrow> arr_get bitmap (max 0 lim);
       m \<leftarrow> BITMAP_LAST_WORD_MASK bits;
       Some (w AND m = 0) }
     else Some True }"

definition awoke_bitmap_full :: "u32 list \<Rightarrow> int \<Rightarrow> bool option" where
  "awoke_bitmap_full bitmap bits = do {
     lim \<leftarrow> c_div bits 32;
     z \<leftarrow> words_all (\<lambda>w. NOT w = 0) bitmap 0 (nat lim);
     r \<leftarrow> c_rem bits 32;
     if \<not> z then Some False
     else if r \<noteq> 0 then do {
       w \<leftarrow> arr_get bitmap (max 0 lim);
       m \<leftarrow> BITMAP_LAST_WORD_MASK bits;
       Some (NOT w AND m = 0) }
     else Some True }"

text \<open>
  The loop of \<open>awoke_bitmap_set\<close> and \<open>awoke_bitmap_clear\<close>, with the word operation as a
  parameter: whole words while \<open>nr\<close> covers the rest of the current one, then the last one.
\<close>

partial_function (option) range_loop ::
  "(u32 \<Rightarrow> u32 \<Rightarrow> u32) \<Rightarrow> int \<Rightarrow> int \<Rightarrow> int \<Rightarrow> int \<Rightarrow> u32 \<Rightarrow> u32 list \<Rightarrow> u32 list option" where
  "range_loop f sz p nr bits m bm =
     (if nr - bits \<ge> 0 then do {
        bm' \<leftarrow> update_word f bm p m;
        range_loop f sz (p + 1) (nr - bits) 32 (NOT 0) bm' }
      else if nr \<noteq> 0 then do {
        l \<leftarrow> BITMAP_LAST_WORD_MASK sz;
        update_word f bm p (m AND l) }
      else Some bm)"

definition bitmap_range :: "(u32 \<Rightarrow> u32 \<Rightarrow> u32) \<Rightarrow> u32 list \<Rightarrow> int \<Rightarrow> int \<Rightarrow> u32 list option" where
  "bitmap_range f bm start nr = do {
     p \<leftarrow> c_div start 32;
     r \<leftarrow> c_rem start 32;
     m \<leftarrow> BITMAP_FIRST_WORD_MASK start;
     range_loop f (start + nr) p nr (32 - r) m bm }"

definition awoke_bitmap_set :: "u32 list \<Rightarrow> int \<Rightarrow> int \<Rightarrow> u32 list option" where
  "awoke_bitmap_set = bitmap_range (\<lambda>w m. w OR m)"

definition awoke_bitmap_clear :: "u32 list \<Rightarrow> int \<Rightarrow> int \<Rightarrow> u32 list option" where
  "awoke_bitmap_clear = bitmap_range (\<lambda>w m. w AND NOT m)"

section \<open>A bitmap as a set of positions\<close>

definition bm_bit :: "u32 list \<Rightarrow> nat \<Rightarrow> bool" where
  "bm_bit bm i \<longleftrightarrow> i < 32 * length bm \<and> bit (bm ! (i div 32)) (i mod 32)"

lemma bit_push_minus_one: "n < 32 \<Longrightarrow> bit (push_bit n 1 - 1 :: u32) j \<longleftrightarrow> j < n"
  by (auto simp flip: mask_eq_exp_minus_1 simp: push_bit_eq_mult bit_mask_iff)

lemma first_word_mask:
  "0 \<le> start \<Longrightarrow> \<exists>m. BITMAP_FIRST_WORD_MASK start = Some m \<and> (\<forall>j < 32. bit m j \<longleftrightarrow> nat (start mod 32) \<le> j)"
  by (auto simp: BITMAP_FIRST_WORD_MASK_def c_rem_nonneg bit_simps)

lemma last_word_mask:
  assumes "0 \<le> nbits" "nbits mod 32 \<noteq> 0"
  shows "\<exists>m. BITMAP_LAST_WORD_MASK nbits = Some m \<and> (\<forall>j < 32. bit m j \<longleftrightarrow> j < nat (nbits mod 32))"
proof -
  have "nat (nbits mod 32) < 32" by simp
  with assms show ?thesis
    by (auto simp: BITMAP_LAST_WORD_MASK_def c_rem_nonneg bit_push_minus_one simp del: push_bit_of_1)
qed

lemma pos_in_word:
  assumes "0 \<le> a" "b \<le> 32"
  shows "i div 32 = p \<and> nat a \<le> i mod 32 \<and> i mod 32 < nat b \<longleftrightarrow>
           32 * int p + a \<le> int i \<and> int i < 32 * int p + b"
proof -
  obtain q r where i: "i = 32 * q + r" "r < 32" "i div 32 = q" "i mod 32 = r"
    by (metis div_mult_mod_eq mod_less_divisor mult.commute zero_less_numeral)
  show ?thesis
  proof
    assume h: "32 * int p + a \<le> int i \<and> int i < 32 * int p + b"
    then have "32 * int p \<le> 32 * int q + int r" "32 * int q + int r < 32 * int p + 32" using i(1) assms by auto
    then have "q = p" using i(2) by presburger
    with h i assms show "i div 32 = p \<and> nat a \<le> i mod 32 \<and> i mod 32 < nat b" by auto
  qed (use i assms in auto)
qed

lemma update_word_Some:
  "0 \<le> p \<Longrightarrow> nat p < length bm \<Longrightarrow> update_word f bm p m = Some (bm[nat p := f (bm ! nat p) m])"
  by (simp add: update_word_def mem_simps)

text \<open>What the loop needs of its word operation: under the mask every bit takes the value \<open>v\<close>.\<close>

locale bit_writer =
  fixes f :: "u32 \<Rightarrow> u32 \<Rightarrow> u32" and v :: bool
  assumes bit_f: "j < 32 \<Longrightarrow> bit (f w m) j \<longleftrightarrow> (if bit m j then v else bit w j)"
begin

lemma bm_bit_update:
  assumes "p < length bm"
  shows "bm_bit (bm[p := f (bm ! p) m]) i \<longleftrightarrow>
           (if i div 32 = p \<and> bit m (i mod 32) then v else bm_bit bm i)"
proof (cases "i div 32 = p")
  case True
  then have "i < 32 * length bm" using assms by auto
  with True show ?thesis by (auto simp: bm_bit_def bit_f)
qed (auto simp: bm_bit_def)

lemma last_step:
  assumes "0 \<le> nr" "nr < bits" "bits \<le> 32" "nr \<noteq> 0" "p < length bm"
    and m: "\<forall>j < 32. bit m j \<longleftrightarrow> nat (32 - bits) \<le> j"
    and l: "BITMAP_LAST_WORD_MASK (32 * int p + 32 - bits + nr) = Some l"
  shows "bm_bit (bm[p := f (bm ! p) (m AND l)]) i \<longleftrightarrow>
           (if 32 * int p + 32 - bits \<le> int i \<and> int i < 32 * int p + 32 - bits + nr then v else bm_bit bm i)"
proof -
  have e: "(32 * int p + 32 - bits + nr) mod 32 = 32 - bits + nr"
    using assms(1-4) mod_mult_self4[of 32 "int p" "32 - bits + nr"] by (simp add: algebra_simps)
  have "\<forall>j < 32. bit l j \<longleftrightarrow> j < nat (32 - bits + nr)"
    using last_word_mask[of "32 * int p + 32 - bits + nr"] l e assms(1-4) by auto
  then have "i div 32 = p \<and> bit (m AND l) (i mod 32) \<longleftrightarrow>
      32 * int p + 32 - bits \<le> int i \<and> int i < 32 * int p + 32 - bits + nr"
    using m assms(1-4) pos_in_word[of "32 - bits" "32 - bits + nr" i p] by (simp add: bit_and_iff algebra_simps)
  then show ?thesis using bm_bit_update[OF assms(5)] by simp
qed

lemma range_loop_ok:
  assumes "0 \<le> nr" "0 < bits" "bits \<le> 32" "32 * int p + 32 - bits + nr \<le> 32 * int (length bm)"
    and "\<forall>j < 32. bit m j \<longleftrightarrow> nat (32 - bits) \<le> j"
  shows "\<exists>bm'. range_loop f (32 * int p + 32 - bits + nr) (int p) nr bits m bm = Some bm' \<and>
           length bm' = length bm \<and>
           (\<forall>i. bm_bit bm' i \<longleftrightarrow>
             (if 32 * int p + 32 - bits \<le> int i \<and> int i < 32 * int p + 32 - bits + nr then v else bm_bit bm i))"
  using assms
proof (induction "nat nr" arbitrary: nr p bits m bm rule: less_induct)
  case less
  let ?size = "32 * int p + 32 - bits + nr"
  consider (whole) "nr \<ge> bits" | (part) "nr < bits" "nr \<noteq> 0" | (stop) "nr = 0" using less.prems by linarith
  then show ?case
  proof cases
    case whole
    let ?bm = "bm[p := f (bm ! p) m]"
    have p: "p < length bm" using whole less.prems by linarith
    have size: "32 * int (Suc p) + 32 - 32 + (nr - bits) = ?size" by simp
    have IH: "\<exists>bm'. range_loop f (32 * int (Suc p) + 32 - 32 + (nr - bits)) (int (Suc p)) (nr - bits) 32 (NOT 0) ?bm = Some bm' \<and>
        length bm' = length ?bm \<and>
        (\<forall>i. bm_bit bm' i \<longleftrightarrow> (if 32 * int (Suc p) + 32 - 32 \<le> int i \<and>
           int i < 32 * int (Suc p) + 32 - 32 + (nr - bits) then v else bm_bit ?bm i))"
      using whole less.prems by (intro less.hyps) auto
    then obtain bm' where m': "range_loop f ?size (int (Suc p)) (nr - bits) 32 (NOT 0) ?bm = Some bm'"
        "length bm' = length bm"
        "\<And>i. bm_bit bm' i \<longleftrightarrow> (if 32 * int (Suc p) \<le> int i \<and> int i < ?size then v else bm_bit ?bm i)"
      unfolding size by auto
    have "range_loop f ?size (int p) nr bits m bm = Some bm'"
      using whole p m'(1) by (subst range_loop.simps) (simp add: update_word_Some add.commute)
    moreover have "bm_bit bm' i \<longleftrightarrow> (if 32 * int p + 32 - bits \<le> int i \<and> int i < ?size then v else bm_bit bm i)" for i
    proof -
      have "i div 32 = p \<and> bit m (i mod 32) \<longleftrightarrow> 32 * int p + 32 - bits \<le> int i \<and> int i < 32 * int (Suc p)"
        using less.prems pos_in_word[of "32 - bits" 32 i p] by (simp add: algebra_simps)
      then show ?thesis using m'(3)[of i] bm_bit_update[OF p, of m i] whole less.prems(2) by auto
    qed
    ultimately show ?thesis using m'(2) by blast
  next
    case part
    have p: "p < length bm" using part less.prems by linarith
    have "?size mod 32 \<noteq> 0" using part less.prems by presburger
    then obtain l where l: "BITMAP_LAST_WORD_MASK ?size = Some l" using last_word_mask[of ?size] less.prems by auto
    have "range_loop f ?size (int p) nr bits m bm = Some (bm[p := f (bm ! p) (m AND l)])"
      using part p by (subst range_loop.simps) (simp add: update_word_Some l)
    with last_step[OF _ part(1) _ part(2) p _ l] less.prems show ?thesis by simp
  next
    case stop
    then show ?thesis using less.prems by (subst range_loop.simps) auto
  qed
qed

lemma bitmap_range_ok:
  assumes "0 \<le> start" "0 \<le> nr" "start + nr \<le> 32 * int (length bm)"
  shows "\<exists>bm'. bitmap_range f bm start nr = Some bm' \<and> length bm' = length bm \<and>
           (\<forall>i. bm_bit bm' i \<longleftrightarrow> (if start \<le> int i \<and> int i < start + nr then v else bm_bit bm i))"
proof -
  let ?p = "nat (start div 32)" and ?b = "32 - start mod 32"
  have e: "32 * int ?p + 32 - ?b = start" "int ?p = start div 32" using assms(1) by auto
  obtain m where m: "BITMAP_FIRST_WORD_MASK start = Some m" "\<forall>j < 32. bit m j \<longleftrightarrow> nat (start mod 32) \<le> j"
    using first_word_mask[OF assms(1)] by blast
  have "0 < ?b" "?b \<le> 32" using pos_mod_bound[of 32 start] pos_mod_sign[of 32 start] by auto
  from range_loop_ok[OF assms(2) this, of ?p bm m] m assms(1,3) show ?thesis
    unfolding e by (simp add: bitmap_range_def c_div_nonneg c_rem_nonneg)
qed

end

interpretation setter: bit_writer "\<lambda>w m. w OR m" True
  by unfold_locales (simp add: bit_or_iff)

interpretation clearer: bit_writer "\<lambda>w m. w AND NOT m" False
  by unfold_locales (simp add: bit_and_iff bit_not_iff)

section \<open>Single bits and the scans\<close>

lemma words_all_iff:
  "int k + int n \<le> int (length bm) \<Longrightarrow>
     words_all ok bm (int k) n = Some (\<forall>i < n. ok (bm ! (k + i)))"
proof (induction n arbitrary: k)
  case (Suc n)
  have "words_all ok bm (int (Suc k)) n = Some (\<forall>i < n. ok (bm ! (Suc k + i)))"
    using Suc.prems by (intro Suc.IH) simp
  then show ?case using Suc.prems by (auto simp: mem_simps add.commute less_Suc_eq_0_disj)
qed simp

lemma word_zero_iff: "(w::u32) = 0 \<longleftrightarrow> (\<forall>j < 32. \<not> bit w j)"
  by (auto simp: bit_eq_iff)

lemma word_full_iff: "NOT (w::u32) = 0 \<longleftrightarrow> (\<forall>j < 32. bit w j)"
  by (auto simp: word_zero_iff bit_simps)

lemma all_words_bits:
  "(\<forall>k < n. \<forall>j < 32. P (32 * k + j)) \<longleftrightarrow> (\<forall>i < 32 * n. P (i::nat))"
proof
  assume h: "\<forall>k < n. \<forall>j < 32. P (32 * k + j)"
  show "\<forall>i < 32 * n. P i"
  proof (intro allI impI)
    fix i assume "i < 32 * n"
    then have "i div 32 < n" "i mod 32 < 32" by auto
    with h have "P (32 * (i div 32) + i mod 32)" by blast
    then show "P i" by simp
  qed
next
  assume h: "\<forall>i < 32 * n. P i"
  show "\<forall>k < n. \<forall>j < 32. P (32 * k + j)"
  proof (intro allI impI)
    fix k j :: nat assume "k < n" "j < 32"
    then have "32 * k + j < 32 * n" by linarith
    with h show "P (32 * k + j)" by blast
  qed
qed


text \<open>
  Both scans are \<open>words_all\<close> followed by a test of the last word; \<open>neg\<close> says which of them.
\<close>

lemma scan_words_bits:
  assumes "n \<le> length bm"
  shows "words_all (\<lambda>w. w = 0) bm 0 n = Some (\<forall>i < 32 * n. \<not> bm_bit bm i)"
    and "words_all (\<lambda>w. NOT w = 0) bm 0 n = Some (\<forall>i < 32 * n. bm_bit bm i)"
proof -
  have b: "bm_bit bm (32 * k + j) = bit (bm ! k) j" if "k < n" "j < 32" for k j
    using that assms by (auto simp: bm_bit_def)
  show "words_all (\<lambda>w. w = 0) bm 0 n = Some (\<forall>i < 32 * n. \<not> bm_bit bm i)"
    using words_all_iff[of 0 n bm "\<lambda>w. w = 0"] all_words_bits[of n "\<lambda>i. \<not> bm_bit bm i"] assms b
    by (simp add: word_zero_iff)
  show "words_all (\<lambda>w. NOT w = 0) bm 0 n = Some (\<forall>i < 32 * n. bm_bit bm i)"
    using words_all_iff[of 0 n bm "\<lambda>w. NOT w = 0"] all_words_bits[of n "bm_bit bm"] assms b
    by (simp add: word_full_iff)
qed

lemma upto_split:
  assumes "0 \<le> bits"
  shows "(\<forall>i < nat bits. P i) \<longleftrightarrow>
     (\<forall>i < 32 * nat (bits div 32). P i) \<and> (\<forall>j < nat (bits mod 32). P (32 * nat (bits div 32) + j))"
proof -
  have "nat bits = 32 * nat (bits div 32) + nat (bits mod 32)"
    using assms by (metis nat_div_distrib nat_mod_distrib nat_numeral mult_div_mod_eq zero_le_numeral)
  moreover have "(\<forall>i < a + b. P i) \<longleftrightarrow> (\<forall>i < a. P i) \<and> (\<forall>j < b. P (a + j))" for a b :: nat
    by (metis add_less_cancel_left le_Suc_ex linorder_not_less trans_less_add1)
  ultimately show ?thesis by simp
qed

lemma last_word_scan:
  assumes "0 \<le> bits" "bits \<le> 32 * int (length bm)" "bits mod 32 \<noteq> 0" "BITMAP_LAST_WORD_MASK bits = Some m"
  shows "bits div 32 < int (length bm)"
    and "bm ! nat (bits div 32) AND m = 0 \<longleftrightarrow> (\<forall>j < nat (bits mod 32). \<not> bm_bit bm (32 * nat (bits div 32) + j))"
    and "NOT (bm ! nat (bits div 32)) AND m = 0 \<longleftrightarrow> (\<forall>j < nat (bits mod 32). bm_bit bm (32 * nat (bits div 32) + j))"
proof -
  show k: "bits div 32 < int (length bm)" using assms(2,3) by presburger
  have m: "bit m j \<longleftrightarrow> j < nat (bits mod 32)" if "j < 32" for j
    using last_word_mask[OF assms(1,3)] assms(4) that by auto
  have r: "j < nat (bits mod 32) \<Longrightarrow> j < 32" for j by (simp add: nat_less_iff)
  have b: "bm_bit bm (32 * nat (bits div 32) + j) = bit (bm ! nat (bits div 32)) j" if "j < 32" for j
    using that k assms(1) by (auto simp: bm_bit_def nat_less_iff)
  show "bm ! nat (bits div 32) AND m = 0 \<longleftrightarrow> (\<forall>j < nat (bits mod 32). \<not> bm_bit bm (32 * nat (bits div 32) + j))"
    unfolding word_zero_iff using m r b by (auto simp: bit_and_iff)
  show "NOT (bm ! nat (bits div 32)) AND m = 0 \<longleftrightarrow> (\<forall>j < nat (bits mod 32). bm_bit bm (32 * nat (bits div 32) + j))"
    unfolding word_zero_iff using m r b by (auto simp: bit_and_iff bit_not_iff)
qed

lemma bit_position:
  "uint (drop_bit 5 b) = int (unat b div 32)" "unat (b AND 31) = unat (b::u32) mod 32"
proof -
  show "uint (drop_bit 5 b) = int (unat b div 32)"
    by (simp add: drop_bit_eq_div uint_div_distrib zdiv_int)
  have "b AND 31 = take_bit 5 b" by (simp add: take_bit_eq_mask mask_eq_exp_minus_1)
  then show "unat (b AND 31) = unat b mod 32" by (simp add: take_bit_eq_mod unat_mod_distrib)
qed

lemma bitop_ok:
  assumes "unat b < 32 * length bm"
    and "\<And>w m j. j < 32 \<Longrightarrow> bit (f w m) j \<longleftrightarrow> (if bit m j then g (bit w j) else bit w j)"
  shows "\<exists>bm'. bitop f b bm = Some bm' \<and> length bm' = length bm \<and>
           (\<forall>i. bm_bit bm' i \<longleftrightarrow> (if i = unat b then g (bm_bit bm i) else bm_bit bm i))"
proof -
  let ?p = "unat b div 32" and ?m = "push_bit (unat b mod 32) 1 :: u32"
  have p: "?p < length bm" using assms(1) by auto
  let ?bm = "bm[?p := f (bm ! ?p) ?m]"
  have "bitop f b bm = Some ?bm" using p by (simp add: bitop_def bit_position update_word_Some)
  moreover have "bm_bit ?bm i \<longleftrightarrow> (if i = unat b then g (bm_bit bm i) else bm_bit bm i)" for i
  proof (cases "i div 32 = ?p")
    case True
    then have "i < 32 * length bm" using p by linarith
    moreover have "i = unat b \<longleftrightarrow> i mod 32 = unat b mod 32" using True by (metis mult_div_mod_eq)
    moreover have "bit ?m (i mod 32) \<longleftrightarrow> i mod 32 = unat b mod 32" by (auto simp: bit_simps)
    ultimately show ?thesis using True p assms(2)[of "i mod 32" "bm ! ?p" ?m] by (simp add: bm_bit_def)
  next
    case False
    then show ?thesis by (auto simp: bm_bit_def)
  qed
  ultimately show ?thesis by auto
qed

lemma test_bit_ok:
  assumes "0 \<le> nr" "nr < 32 * int (length bm)"
  shows "test_bit nr bm = Some (if bm_bit bm (nat nr) then 1 else 0)"
proof -
  have e: "nr AND 31 = nr mod 32" using take_bit_eq_mask[of 5 nr] by (simp add: take_bit_eq_mod mask_eq_exp_minus_1)
  have k: "nat (nr div 32) = nat nr div 32" "nat (nr mod 32) = nat nr mod 32"
    using assms(1) by (simp_all add: nat_div_distrib nat_mod_distrib)
  have "nat nr div 32 < length bm" "nat nr < 32 * length bm" using assms by auto
  moreover have "1 AND drop_bit n w = (if bit w n then 1 else (0::u32))" for n w
    by (simp add: and.commute[of 1] and_one_eq odd_iff_mod_2_eq_one bit_iff_odd_drop_bit mod2_eq_if)
  ultimately show ?thesis
    using assms(1) by (simp add: test_bit_def c_div_nonneg e k mem_simps bm_bit_def)
qed

lemma bm_bit_zeros: "\<not> bm_bit (replicate n 0) i"
  by (auto simp: bm_bit_def less_mult_imp_div_less mult.commute)

section \<open>Properties\<close>

text \<open>C7: setting or clearing a range changes exactly the bits of \<open>[start, start + nr)\<close>: whatever the
  alignment of the range to 32-bit words, the loop terminates inside the array and every other bit
  keeps its value.\<close>

theorem awoke_bitmap_range_correct:
  assumes "0 \<le> start" "0 \<le> nr" "start + nr \<le> 32 * int (length bm)"
  shows "(\<exists>bm'. awoke_bitmap_set bm start nr = Some bm' \<and> length bm' = length bm \<and>
           (\<forall>i. bm_bit bm' i \<longleftrightarrow> start \<le> int i \<and> int i < start + nr \<or> bm_bit bm i)) \<and>
         (\<exists>bm'. awoke_bitmap_clear bm start nr = Some bm' \<and> length bm' = length bm \<and>
           (\<forall>i. bm_bit bm' i \<longleftrightarrow> \<not> (start \<le> int i \<and> int i < start + nr) \<and> bm_bit bm i))"
  using setter.bitmap_range_ok[OF assms] clearer.bitmap_range_ok[OF assms]
  unfolding awoke_bitmap_set_def awoke_bitmap_clear_def by (auto split: if_splits)

theorem awoke_bitmap_range_correct_witness:
  "\<exists>bm'. awoke_bitmap_set (replicate 3 0) 20 50 = Some bm' \<and> bm_bit bm' 20 \<and> bm_bit bm' 69 \<and>
     \<not> bm_bit bm' 19 \<and> \<not> bm_bit bm' 70"
  using awoke_bitmap_range_correct[of 20 50 "replicate 3 0"] by (auto simp: bm_bit_zeros)

text \<open>\<open>empty\<close> and \<open>full\<close> decide exactly the first \<open>bits\<close> bits: bits of the last word beyond them
  do not matter, and no word beyond them is read.\<close>

theorem awoke_bitmap_scan_correct:
  assumes "0 \<le> bits" "bits \<le> 32 * int (length bm)"
  shows "awoke_bitmap_empty bm bits = Some (\<forall>i < nat bits. \<not> bm_bit bm i) \<and>
         awoke_bitmap_full bm bits = Some (\<forall>i < nat bits. bm_bit bm i)"
proof -
  have k: "nat (bits div 32) \<le> length bm" using assms by linarith
  obtain y z where yz: "words_all (\<lambda>w. w = 0) bm 0 (nat (bits div 32)) = Some y"
      "words_all (\<lambda>w. NOT w = 0) bm 0 (nat (bits div 32)) = Some z"
      "y \<longleftrightarrow> (\<forall>i < 32 * nat (bits div 32). \<not> bm_bit bm i)" "z \<longleftrightarrow> (\<forall>i < 32 * nat (bits div 32). bm_bit bm i)"
    using scan_words_bits[OF k] by blast
  show ?thesis
  proof (cases "bits mod 32 = 0")
    case True
    then show ?thesis unfolding upto_split[OF assms(1)] yz(3,4)[symmetric] using assms yz(1,2)
      by (simp add: awoke_bitmap_empty_def awoke_bitmap_full_def c_div_nonneg c_rem_nonneg)
  next
    case False
    obtain m where m: "BITMAP_LAST_WORD_MASK bits = Some m" using last_word_mask[OF assms(1) False] by blast
    note l = last_word_scan[OF assms False m]
    have "0 \<le> bits div 32" using assms(1) by simp
    then have g: "arr_get bm (bits div 32) = Some (bm ! nat (bits div 32))" using l(1)
      by (simp add: mem_simps nat_less_iff)
    show ?thesis
      unfolding upto_split[OF assms(1)] yz(3,4)[symmetric] l(2,3)[symmetric] using assms(1) yz(1,2) False
      by (simp add: awoke_bitmap_empty_def awoke_bitmap_full_def c_div_nonneg c_rem_nonneg m g)
  qed
qed

theorem awoke_bitmap_scan_correct_witness:
  "awoke_bitmap_empty [0, 0xFFFFFFF0] 36 = Some (\<forall>i < nat 36. \<not> bm_bit [0, 0xFFFFFFF0] i)"
  using awoke_bitmap_scan_correct[of 36 "[0, 0xFFFFFFF0]"] by simp

text \<open>The single-bit operations set, clear and flip exactly bit \<open>b\<close>, and \<open>test_bit\<close> reads it.\<close>

theorem awoke_bit_operations_correct:
  assumes "unat b < 32 * length bm"
  shows "(\<exists>bm'. u_set_bit b bm = Some bm' \<and> length bm' = length bm \<and> (\<forall>i. bm_bit bm' i \<longleftrightarrow> i = unat b \<or> bm_bit bm i)) \<and>
         (\<exists>bm'. u_clear_bit b bm = Some bm' \<and> length bm' = length bm \<and> (\<forall>i. bm_bit bm' i \<longleftrightarrow> i \<noteq> unat b \<and> bm_bit bm i)) \<and>
         (\<exists>bm'. u_change_bit b bm = Some bm' \<and> length bm' = length bm \<and> (\<forall>i. bm_bit bm' i \<longleftrightarrow> (i = unat b) \<noteq> bm_bit bm i)) \<and>
         test_bit (int (unat b)) bm = Some (if bm_bit bm (unat b) then 1 else 0)"
proof (intro conjI)
  show "test_bit (int (unat b)) bm = Some (if bm_bit bm (unat b) then 1 else 0)"
    using test_bit_ok[of "int (unat b)" bm] assms unfolding nat_int by linarith
  show "\<exists>bm'. u_set_bit b bm = Some bm' \<and> length bm' = length bm \<and> (\<forall>i. bm_bit bm' i \<longleftrightarrow> i = unat b \<or> bm_bit bm i)"
    using bitop_ok[where g = "\<lambda>_. True", OF assms setter.bit_f] unfolding u_set_bit_def by (auto split: if_splits)
  show "\<exists>bm'. u_clear_bit b bm = Some bm' \<and> length bm' = length bm \<and> (\<forall>i. bm_bit bm' i \<longleftrightarrow> i \<noteq> unat b \<and> bm_bit bm i)"
    using bitop_ok[where g = "\<lambda>_. False", OF assms clearer.bit_f] unfolding u_clear_bit_def by (auto split: if_splits)
  show "\<exists>bm'. u_change_bit b bm = Some bm' \<and> length bm' = length bm \<and> (\<forall>i. bm_bit bm' i \<longleftrightarrow> (i = unat b) \<noteq> bm_bit bm i)"
  proof -
    have "bit (w XOR m) j \<longleftrightarrow> (if bit m j then \<not> bit w j else bit w j)" for w m :: u32 and j by (auto simp: bit_simps)
    from bitop_ok[where g = Not, OF assms this] show ?thesis unfolding u_change_bit_def by (auto split: if_splits)
  qed
qed

theorem awoke_bit_operations_correct_witness:
  "\<exists>bm'. u_set_bit 40 (replicate 2 0) = Some bm' \<and> bm_bit bm' 40 \<and> \<not> bm_bit bm' 41"
  using awoke_bit_operations_correct[of 40 "replicate 2 0"] by (auto simp: bm_bit_zeros)

end
