(* ===== verification/Awoke_Buffer.thy ===== *)
theory Awoke_Buffer
  imports Prelude
begin

text \<open>
  The growing buffers of \<open>lib/libutil/src/awoke_buffer.c\<close>, in the default configuration
  without \<open>AWOKE_BUFFCHUNK_FIXED\<close>, and the pools that collect them.

  The data pointer of a chunk is an optional block, \<open>None\<close> for NULL. The static counter
  behind \<open>buffchunk_id\<close> is passed explicitly. The bytes a \<open>realloc\<close> adds to a block are
  unspecified: the parameter \<open>junk\<close> supplies them. A pool keeps its chunks as the list that
  a traversal of its intrusive list visits; \<open>Awoke_List\<close> shows that \<open>list_append\<close> on the
  head adds at the end of that list.
\<close>

section \<open>Chunks\<close>

record awoke_buffchunk =
  bc_id :: u16
  bc_p :: "bytes option"
  bc_size :: int
  bc_length :: int

definition AWOKE_BUFFCHUNK_LIMIT :: int where "AWOKE_BUFFCHUNK_LIMIT = 1024 * 128"
definition AWOKE_BUFFCHUNK_POOL_LIMIT :: int where "AWOKE_BUFFCHUNK_POOL_LIMIT = 1024 * 128 * 16"

definition awoke_buffchunk_dynamic :: "awoke_buffchunk \<Rightarrow> bool" where
  "awoke_buffchunk_dynamic c \<longleftrightarrow> bc_p c \<noteq> None"

definition buffchunk_id :: "u16 \<Rightarrow> u16 \<times> u16" where
  "buffchunk_id ctr = (ctr, ctr + 1)"

definition bc_block :: "awoke_buffchunk \<Rightarrow> bytes" where
  "bc_block c = (case bc_p c of None \<Rightarrow> [] | Some m \<Rightarrow> m)"

definition size_t :: "int \<Rightarrow> nat" where
  "size_t n = nat (n mod 2 ^ 64)"

definition sizeof_awoke_buffchunk :: nat where "sizeof_awoke_buffchunk = 40"

definition awoke_buffchunk_create :: "allocator \<Rightarrow> u16 \<Rightarrow> int \<Rightarrow> awoke_buffchunk option \<times> u16" where
  "awoke_buffchunk_create alloc ctr sz =
     (if sz \<le> 0 \<or> sz > AWOKE_BUFFCHUNK_LIMIT then (None, ctr)
      else if \<not> alloc sizeof_awoke_buffchunk then (None, ctr)
      else if \<not> alloc (size_t sz) then (None, ctr)
      else let (i, ctr') = buffchunk_id ctr
           in (Some \<lparr>bc_id = i, bc_p = Some (zeros (size_t sz)), bc_size = sz, bc_length = 0\<rparr>, ctr'))"

definition buffchunk_init :: "awoke_buffchunk \<Rightarrow> awoke_buffchunk" where
  "buffchunk_init c = c\<lparr>bc_p := None, bc_size := 0, bc_length := 0\<rparr>"

definition awoke_buffchunk_init :: "u16 \<Rightarrow> awoke_buffchunk \<Rightarrow> err_type \<times> awoke_buffchunk \<times> u16" where
  "awoke_buffchunk_init ctr c =
     (let (i, ctr') = buffchunk_id ctr in (et_ok, (buffchunk_init c)\<lparr>bc_id := i\<rparr>, ctr'))"

text \<open>The chunk owns its block, so cleaning frees it and forgets it.\<close>

definition awoke_buffchunk_clean :: "awoke_buffchunk \<Rightarrow> awoke_buffchunk" where
  "awoke_buffchunk_clean c =
     buffchunk_init (if awoke_buffchunk_dynamic c then c\<lparr>bc_p := None\<rparr> else c)"

definition awoke_buffchunk_backoff :: "awoke_buffchunk \<Rightarrow> int \<Rightarrow> awoke_buffchunk option" where
  "awoke_buffchunk_backoff c back = do {
     x \<leftarrow> mem_read (bc_block c) back (size_t (bc_size c));
     m \<leftarrow> mem_write (bc_block c) 0 x;
     Some (c\<lparr>bc_p := map_option (\<lambda>_. m) (bc_p c), bc_length := bc_length c - back\<rparr>) }"

definition awoke_buffchunk_clear :: "awoke_buffchunk \<Rightarrow> awoke_buffchunk option" where
  "awoke_buffchunk_clear c = do {
     m \<leftarrow> mem_write (bc_block c) 0 (zeros (size_t (bc_size c)));
     Some (c\<lparr>bc_p := map_option (\<lambda>_. m) (bc_p c), bc_length := 0\<rparr>) }"

definition awoke_buffchunk_free :: "awoke_buffchunk cptr cptr \<Rightarrow> awoke_buffchunk cptr cptr option" where
  "awoke_buffchunk_free pc = (case pc of
      Null \<Rightarrow> Some Null
    | Freed \<Rightarrow> None
    | Live Null \<Rightarrow> Some (Live Null)
    | Live p \<Rightarrow> do { p' \<leftarrow> mem_free p; Some (Live p') })"

definition awoke_buffchunk_remain :: "awoke_buffchunk \<Rightarrow> int" where
  "awoke_buffchunk_remain c = bc_size c - bc_length c"

definition awoke_buffchunk_write ::
  "awoke_buffchunk \<Rightarrow> bytes option \<Rightarrow> int \<Rightarrow> bool \<Rightarrow> (err_type \<times> awoke_buffchunk) option" where
  "awoke_buffchunk_write c data len trybest = (case data of
      None \<Rightarrow> Some (et_param, c)
    | Some d \<Rightarrow>
       (if len \<le> 0 then Some (et_param, c)
        else let remain = awoke_buffchunk_remain c in
          if remain = 0 then Some (et_full, c)
          else if \<not> trybest \<and> len > remain then Some (et_full, c)
          else let copylen = (if trybest \<and> len > remain then remain else len) in do {
            x \<leftarrow> mem_read d 0 (size_t copylen);
            m \<leftarrow> mem_write (bc_block c) (bc_length c) x;
            Some (et_ok, c\<lparr>bc_p := map_option (\<lambda>_. m) (bc_p c), bc_length := bc_length c + copylen\<rparr>) }))"

partial_function (option) awoke_buffchunk_resize ::
  "allocator \<Rightarrow> (nat \<Rightarrow> u8) \<Rightarrow> awoke_buffchunk \<Rightarrow> int \<Rightarrow> bool \<Rightarrow> (err_type \<times> awoke_buffchunk) option" where
  "awoke_buffchunk_resize alloc junk c resize trybest =
     (if \<not> trybest \<and> resize > AWOKE_BUFFCHUNK_LIMIT then Some (et_mem_limit, c)
      else if \<not> trybest \<and> resize < bc_length c then Some (et_fail, c)
      else do {
        let sz = (if trybest then min resize AWOKE_BUFFCHUNK_LIMIT else resize);
        c1 \<leftarrow> (case bc_p c of
            Some m \<Rightarrow> do {
              r \<leftarrow> mem_realloc alloc junk m (size_t sz);
              Some (map_option (\<lambda>m'. c\<lparr>bc_p := Some m',
                bc_length := (if bc_length c > sz \<and> trybest then sz else bc_length c)\<rparr>) r) }
          | None \<Rightarrow> Some (if alloc (size_t sz) then Some (c\<lparr>bc_p := Some (zeros (size_t sz))\<rparr>) else None));
        case c1 of
          Some c' \<Rightarrow> Some (et_ok, c'\<lparr>bc_size := sz\<rparr>)
        | None \<Rightarrow> (if trybest then awoke_buffchunk_resize alloc junk c (sz div 2) trybest
                   else Some (et_nomem, c)) })"

definition awoke_buffchunk_sizelimit :: int where
  "awoke_buffchunk_sizelimit = AWOKE_BUFFCHUNK_LIMIT"

definition awoke_buffchunk_copy ::
  "awoke_buffchunk \<Rightarrow> awoke_buffchunk \<Rightarrow> (err_type \<times> awoke_buffchunk) option" where
  "awoke_buffchunk_copy dst src =
     (if bc_length src > bc_size dst then Some (err_empty, dst)
      else do {
        x \<leftarrow> mem_read (bc_block src) 0 (size_t (bc_length src));
        m \<leftarrow> mem_write (bc_block dst) 0 x;
        Some (et_ok, dst\<lparr>bc_p := map_option (\<lambda>_. m) (bc_p dst), bc_length := bc_length src\<rparr>) })"

section \<open>Pools\<close>

record awoke_buffchunk_pool =
  bp_size :: int
  bp_length :: int
  bp_maxsize :: int
  bp_chunknr :: int
  bp_chunklist :: "awoke_buffchunk list"

definition sizeof_awoke_buffchunk_pool :: nat where "sizeof_awoke_buffchunk_pool = 32"

definition awoke_buffchunk_pool_create :: "allocator \<Rightarrow> int \<Rightarrow> awoke_buffchunk_pool option" where
  "awoke_buffchunk_pool_create alloc maxsize =
     (if \<not> alloc sizeof_awoke_buffchunk_pool then None
      else Some \<lparr>bp_size = 0, bp_length = 0, bp_maxsize = min AWOKE_BUFFCHUNK_POOL_LIMIT maxsize,
                 bp_chunknr = 0, bp_chunklist = []\<rparr>)"

definition awoke_buffchunk_pool_init :: "int \<Rightarrow> err_type \<times> awoke_buffchunk_pool" where
  "awoke_buffchunk_pool_init maxsize =
     (et_ok, \<lparr>bp_size = 0, bp_length = 0, bp_maxsize = maxsize, bp_chunknr = 0, bp_chunklist = []\<rparr>)"

definition awoke_buffchunk_pool_clean :: "awoke_buffchunk_pool \<Rightarrow> awoke_buffchunk_pool" where
  "awoke_buffchunk_pool_clean pool =
     pool\<lparr>bp_chunklist := [], bp_size := 0, bp_length := 0, bp_chunknr := 0\<rparr>"

definition awoke_buffchunk_pool_free ::
  "awoke_buffchunk_pool cptr cptr \<Rightarrow> awoke_buffchunk_pool cptr cptr option" where
  "awoke_buffchunk_pool_free pp = (case pp of
      Null \<Rightarrow> Some Null
    | Freed \<Rightarrow> None
    | Live Null \<Rightarrow> Some (Live Null)
    | Live p \<Rightarrow> do { p' \<leftarrow> mem_free p; Some (Live p') })"

definition awoke_buffchunk_pool_chunkadd ::
  "awoke_buffchunk_pool option \<Rightarrow> awoke_buffchunk option \<Rightarrow> err_type \<times> awoke_buffchunk_pool option" where
  "awoke_buffchunk_pool_chunkadd pool chunk = (case (pool, chunk) of
      (Some p, Some c) \<Rightarrow>
        (if bp_maxsize p - bp_size p < bc_size c then (et_mem_limit, pool)
         else if \<exists>d \<in> set (bp_chunklist p). bc_id d = bc_id c then (et_exist, pool)
         else (et_ok, Some (p\<lparr>bp_chunklist := bp_chunklist p @ [c], bp_chunknr := bp_chunknr p + 1,
                              bp_size := bp_size p + bc_size c, bp_length := bp_length p + bc_length c\<rparr>)))
    | _ \<Rightarrow> (et_param, pool))"

definition awoke_buffchunk_pool_chunkget :: "awoke_buffchunk_pool option \<Rightarrow> awoke_buffchunk option" where
  "awoke_buffchunk_pool_chunkget pool = (case pool of
      None \<Rightarrow> None
    | Some p \<Rightarrow> (if bp_chunknr p = 0 then None
                  else case bp_chunklist p of c # _ \<Rightarrow> Some c | [] \<Rightarrow> None))"

fun gather :: "awoke_buffchunk \<Rightarrow> awoke_buffchunk list \<Rightarrow> awoke_buffchunk option" where
  "gather chunk [] = Some chunk"
| "gather chunk (c # cs) =
     (if bc_length c = 0 then gather chunk cs
      else if awoke_buffchunk_remain chunk < bc_length c then Some chunk
      else do {
        (_, chunk') \<leftarrow> awoke_buffchunk_write chunk (bc_p c) (bc_length c) False;
        gather chunk' cs })"

definition awoke_buffchunk_pool2chunk ::
  "allocator \<Rightarrow> u16 \<Rightarrow> awoke_buffchunk_pool option \<Rightarrow> (awoke_buffchunk option \<times> u16) option" where
  "awoke_buffchunk_pool2chunk alloc ctr pool = (case pool of
      None \<Rightarrow> Some (None, ctr)
    | Some p \<Rightarrow>
       (if bp_chunknr p = 0 \<or> bp_length p = 0 then Some (None, ctr)
        else case awoke_buffchunk_create alloc ctr (bp_length p) of
          (None, ctr') \<Rightarrow> Some (None, ctr')
        | (Some chunk, ctr') \<Rightarrow> do { chunk' \<leftarrow> gather chunk (bp_chunklist p); Some (Some chunk', ctr') }))"


section \<open>Invariant and contents\<close>

definition chunk_ok :: "awoke_buffchunk \<Rightarrow> bool" where
  "chunk_ok c \<longleftrightarrow> int (length (bc_block c)) = bc_size c \<and> 0 \<le> bc_length c \<and> bc_length c \<le> bc_size c \<and>
     bc_size c < 2147483648"

definition bc_data :: "awoke_buffchunk \<Rightarrow> bytes" where
  "bc_data c = take (nat (bc_length c)) (bc_block c)"

definition pool_ok :: "awoke_buffchunk_pool \<Rightarrow> bool" where
  "pool_ok p \<longleftrightarrow> bp_size p = (\<Sum>c \<leftarrow> bp_chunklist p. bc_size c) \<and> bp_length p = (\<Sum>c \<leftarrow> bp_chunklist p. bc_length c) \<and>
     bp_chunknr p = int (length (bp_chunklist p)) \<and> bp_size p \<le> bp_maxsize p \<and>
     distinct (map bc_id (bp_chunklist p)) \<and> (\<forall>c \<in> set (bp_chunklist p). chunk_ok c)"

lemma size_t_id: "0 \<le> n \<Longrightarrow> n < 2147483648 \<Longrightarrow> size_t n = nat n"
  by (simp add: size_t_def)

lemma bc_data_length: "chunk_ok c \<Longrightarrow> int (length (bc_data c)) = bc_length c"
  by (auto simp: chunk_ok_def bc_data_def)

lemma chunk_ok_block: "chunk_ok c \<Longrightarrow> 0 < bc_size c \<Longrightarrow> \<exists>m. bc_p c = Some m \<and> int (length m) = bc_size c"
  by (auto simp: chunk_ok_def bc_block_def split: option.splits)

text \<open>Storing bytes after the data: the step of every write.\<close>

lemma bc_append:
  assumes ok: "chunk_ok c" and fits: "int (length x) \<le> awoke_buffchunk_remain c" and ne: "x \<noteq> []"
  shows "\<exists>m. mem_write (bc_block c) (bc_length c) x = Some m \<and>
           (let c' = c\<lparr>bc_p := map_option (\<lambda>_. m) (bc_p c), bc_length := bc_length c + int (length x)\<rparr>
            in chunk_ok c' \<and> bc_data c' = bc_data c @ x)"
proof -
  have "0 < bc_size c" using ok fits ne by (cases x) (auto simp: chunk_ok_def awoke_buffchunk_remain_def)
  from chunk_ok_block[OF ok this] obtain m where m: "bc_p c = Some m" "int (length m) = bc_size c" by blast
  then show ?thesis using ok fits
    by (auto simp: chunk_ok_def awoke_buffchunk_remain_def bc_data_def bc_block_def mem_write_def nat_add_distrib
        take_add Let_def)
qed

lemma awoke_buffchunk_write_ok:
  assumes ok: "chunk_ok c" and len: "0 < len" "len \<le> int (length d)" "len < 2147483648"
    and room: "awoke_buffchunk_remain c \<noteq> 0" "trybest \<or> len \<le> awoke_buffchunk_remain c"
  shows "\<exists>c'. awoke_buffchunk_write c (Some d) len trybest = Some (et_ok, c') \<and> chunk_ok c' \<and>
           bc_size c' = bc_size c \<and> bc_data c' = bc_data c @ take (nat (min len (awoke_buffchunk_remain c))) d"
proof -
  let ?n = "min len (awoke_buffchunk_remain c)"
  have n: "0 < ?n" "?n \<le> len" "?n \<le> awoke_buffchunk_remain c"
    using room ok len by (auto simp: awoke_buffchunk_remain_def chunk_ok_def)
  let ?x = "take (nat ?n) d"
  have x: "int (length ?x) = ?n" "?x \<noteq> []" using n len by auto
  have r: "mem_read d 0 (size_t ?n) = Some ?x" using n len by (simp add: size_t_id mem_read_def)
  have e: "(if trybest \<and> len > awoke_buffchunk_remain c then awoke_buffchunk_remain c else len) = ?n"
    using room(2) by auto
  obtain m where m: "mem_write (bc_block c) (bc_length c) ?x = Some m"
    "let c' = c\<lparr>bc_p := map_option (\<lambda>_. m) (bc_p c), bc_length := bc_length c + ?n\<rparr>
     in chunk_ok c' \<and> bc_data c' = bc_data c @ ?x"
    using bc_append[OF ok _ x(2), unfolded x(1), OF n(3)] by blast
  have "awoke_buffchunk_write c (Some d) len trybest =
      Some (et_ok, c\<lparr>bc_p := map_option (\<lambda>_. m) (bc_p c), bc_length := bc_length c + ?n\<rparr>)"
    using len(1) room unfolding awoke_buffchunk_write_def Let_def e by (auto simp: r m(1))
  with m(2) show ?thesis by (auto simp: Let_def)
qed

lemma awoke_buffchunk_create_ok:
  assumes "0 < sz" "sz \<le> AWOKE_BUFFCHUNK_LIMIT" "\<And>n. alloc n"
  shows "\<exists>c. awoke_buffchunk_create alloc ctr sz = (Some c, ctr + 1) \<and> chunk_ok c \<and> bc_size c = sz \<and>
           bc_data c = [] \<and> bc_length c = 0"
  using assms by (auto simp: awoke_buffchunk_create_def AWOKE_BUFFCHUNK_LIMIT_def buffchunk_id_def chunk_ok_def
      bc_block_def bc_data_def size_t_id)

lemma gather_ok:
  assumes "chunk_ok chunk" "\<forall>c \<in> set cs. chunk_ok c" "(\<Sum>c \<leftarrow> cs. bc_length c) \<le> awoke_buffchunk_remain chunk"
  shows "\<exists>r. gather chunk cs = Some r \<and> chunk_ok r \<and> bc_data r = bc_data chunk @ concat (map bc_data cs)"
  using assms
proof (induction cs arbitrary: chunk)
  case Nil
  then show ?case by simp
next
  case (Cons c cs)
  have c: "chunk_ok c" "0 \<le> bc_length c" "bc_length c < 2147483648" using Cons.prems by (auto simp: chunk_ok_def)
  have rest: "0 \<le> (\<Sum>c \<leftarrow> cs. bc_length c)" using Cons.prems by (intro sum_list_nonneg) (auto simp: chunk_ok_def)
  show ?case
  proof (cases "bc_length c = 0")
    case True
    then show ?thesis using Cons by (auto simp: bc_data_def)
  next
    case False
    with c have "0 < bc_size c" by (auto simp: chunk_ok_def)
    with chunk_ok_block[OF c(1)] obtain m where m: "bc_p c = Some m" "int (length m) = bc_size c" by auto
    have fit: "bc_length c \<le> awoke_buffchunk_remain chunk" using Cons.prems(3) rest by simp
    with awoke_buffchunk_write_ok[OF Cons.prems(1), of "bc_length c" m False] c False m(2) obtain chunk' where
      w: "awoke_buffchunk_write chunk (Some m) (bc_length c) False = Some (et_ok, chunk')" "chunk_ok chunk'"
        "bc_size chunk' = bc_size chunk" "bc_data chunk' = bc_data chunk @ bc_data c"
      by (auto simp: chunk_ok_def bc_data_def bc_block_def m(1) min_def)
    have "bc_length chunk' = bc_length chunk + bc_length c"
      using w(4) bc_data_length[OF w(2)] bc_data_length[OF Cons.prems(1)] bc_data_length[OF c(1)] by simp
    then have "(\<Sum>c \<leftarrow> cs. bc_length c) \<le> awoke_buffchunk_remain chunk'"
      using Cons.prems(3) w(3) by (simp add: awoke_buffchunk_remain_def)
    from Cons.IH[OF w(2) _ this] Cons.prems(2) False fit w m(1) show ?thesis by auto
  qed
qed


section \<open>Resizing\<close>

lemma resize_alloc_ok:
  assumes ok: "chunk_ok c" and sz: "0 < sz" "sz \<le> AWOKE_BUFFCHUNK_LIMIT" and al: "alloc (nat sz)"
    and keep: "trybest \<or> bc_length c \<le> sz"
  shows "\<exists>c'. awoke_buffchunk_resize alloc junk c sz trybest = Some (et_ok, c') \<and> chunk_ok c' \<and> bc_size c' = sz \<and>
           bc_data c' = take (nat sz) (bc_data c)"
proof -
  have st: "size_t sz = nat sz" using sz by (simp add: size_t_id AWOKE_BUFFCHUNK_LIMIT_def)
  show ?thesis
  proof (cases "bc_p c")
    case None
    then show ?thesis using ok sz al keep
      by (subst awoke_buffchunk_resize.simps)
         (auto simp: st chunk_ok_def bc_block_def bc_data_def AWOKE_BUFFCHUNK_LIMIT_def min_def)
  next
    case (Some m)
    let ?m = "take (nat sz) m @ map junk [length m..<nat sz]"
    let ?c = "c\<lparr>bc_p := Some ?m, bc_length := min (bc_length c) sz, bc_size := sz\<rparr>"
    have r: "mem_realloc alloc junk m (nat sz) = Some (Some ?m)" using sz al by (simp add: mem_realloc_def)
    have b: "min sz AWOKE_BUFFCHUNK_LIMIT = sz" using sz by simp
    have "(if bc_length c > sz \<and> trybest then sz else bc_length c) = min (bc_length c) sz" using keep by auto
    then have "awoke_buffchunk_resize alloc junk c sz trybest = Some (et_ok, ?c)"
      using sz keep by (subst awoke_buffchunk_resize.simps) (auto simp: Some st r b)
    moreover have "chunk_ok ?c" using ok sz Some
      by (auto simp: chunk_ok_def bc_block_def AWOKE_BUFFCHUNK_LIMIT_def)
    moreover have "bc_data ?c = take (nat sz) (bc_data c)" using ok sz Some
      by (auto simp: chunk_ok_def bc_block_def bc_data_def min_def)
    ultimately show ?thesis by (intro exI[of _ ?c]) simp
  qed
qed

lemma resize_retry:
  assumes "chunk_ok c" "0 < sz" "sz \<le> AWOKE_BUFFCHUNK_LIMIT" "\<not> alloc (nat sz)"
  shows "awoke_buffchunk_resize alloc junk c sz True = awoke_buffchunk_resize alloc junk c (sz div 2) True"
    and "awoke_buffchunk_resize alloc junk c sz False = Some (if sz < bc_length c then et_fail else et_nomem, c)"
proof -
  have st: "size_t sz = nat sz" "min sz AWOKE_BUFFCHUNK_LIMIT = sz"
    using assms by (simp_all add: size_t_id AWOKE_BUFFCHUNK_LIMIT_def)
  show "awoke_buffchunk_resize alloc junk c sz True = awoke_buffchunk_resize alloc junk c (sz div 2) True"
    using assms by (subst awoke_buffchunk_resize.simps) (auto simp: st mem_realloc_def split: option.split)
  show "awoke_buffchunk_resize alloc junk c sz False = Some (if sz < bc_length c then et_fail else et_nomem, c)"
    using assms by (subst awoke_buffchunk_resize.simps) (auto simp: st mem_realloc_def split: option.split)
qed

lemma resize_clip:
  "awoke_buffchunk_resize alloc junk c sz True =
     awoke_buffchunk_resize alloc junk c (min sz AWOKE_BUFFCHUNK_LIMIT) True"
  by (simp add: awoke_buffchunk_resize.simps[of alloc junk c sz]
      awoke_buffchunk_resize.simps[of alloc junk c "min sz AWOKE_BUFFCHUNK_LIMIT"])

text \<open>The sizes that are tried are halved until the allocator grants one.\<close>

definition first_granted :: "allocator \<Rightarrow> int \<Rightarrow> nat \<Rightarrow> bool" where
  "first_granted alloc sz i \<longleftrightarrow> 0 < sz div 2 ^ i \<and> alloc (nat (sz div 2 ^ i)) \<and> (\<forall>j < i. \<not> alloc (nat (sz div 2 ^ j)))"

lemma resize_trybest_ok:
  assumes "chunk_ok c" "sz \<le> AWOKE_BUFFCHUNK_LIMIT" "first_granted alloc sz i"
  shows "\<exists>c'. awoke_buffchunk_resize alloc junk c sz True = Some (et_ok, c') \<and> chunk_ok c' \<and>
           bc_size c' = sz div 2 ^ i \<and> bc_data c' = take (nat (bc_size c')) (bc_data c)"
  using assms(2,3)
proof (induction i arbitrary: sz)
  case 0
  then show ?case using resize_alloc_ok[where alloc = alloc and trybest = True and junk = junk, OF assms(1), of sz]
    by (auto simp: first_granted_def)
next
  case (Suc i)
  have g: "0 < sz div 2 ^ Suc i" "alloc (nat (sz div 2 ^ Suc i))" "\<And>j. j < Suc i \<Longrightarrow> \<not> alloc (nat (sz div 2 ^ j))"
    using Suc.prems(2) by (simp_all add: first_granted_def)
  have d: "sz div 2 div 2 ^ j = sz div 2 ^ Suc j" for j by (simp add: zdiv_zmult2_eq)
  have "\<not> sz < 0" using g(1) by (metis not_less_iff_gr_or_eq order_less_trans pos_imp_zdiv_neg_iff zero_less_numeral zero_less_power)
  moreover have "sz \<noteq> 0" using g(1) by auto
  ultimately have pos: "0 < sz" by simp
  have "first_granted alloc (sz div 2) i"
    unfolding first_granted_def d using g(1,2) g(3)[OF Suc_mono] by blast
  moreover have "sz div 2 \<le> AWOKE_BUFFCHUNK_LIMIT" using Suc.prems(1) pos by linarith
  ultimately obtain c' where c': "awoke_buffchunk_resize alloc junk c (sz div 2) True = Some (et_ok, c')" "chunk_ok c'"
      "bc_size c' = sz div 2 div 2 ^ i" "bc_data c' = take (nat (bc_size c')) (bc_data c)"
    using Suc.IH by blast
  then show ?case using resize_retry(1)[where alloc = alloc, OF assms(1) pos Suc.prems(1), of junk] g(3)[of 0] by (simp add: d)
qed

lemma resize_zero_diverges:
  assumes "\<And>n. \<not> alloc n"
  shows "awoke_buffchunk_resize alloc junk c sz True = None"
proof -
  have "(\<forall>n. \<not> alloc n) \<longrightarrow> \<not> t" if "awoke_buffchunk_resize alloc junk c sz t = Some r" for alloc junk c sz t r
    using that
    by (rule awoke_buffchunk_resize.raw_induct[where P = "\<lambda>alloc junk c sz t r. (\<forall>n. \<not> alloc n) \<longrightarrow> \<not> t", rotated])
       (auto simp: mem_realloc_def bind_eq_Some_conv Let_def split: option.splits if_splits, blast+)
  then show ?thesis using assms by (cases "awoke_buffchunk_resize alloc junk c sz True") blast+
qed


section \<open>Properties\<close>

text \<open>C8: writing to a chunk appends exactly the bytes that fit. A plain write stores all of the data or
  refuses with \<open>et_full\<close>, a \<open>trybest\<close> write stores the largest prefix that fits; missing data and a
  length that is not positive are refused with \<open>et_param\<close>, and the chunk stays well formed.\<close>

theorem awoke_buffchunk_write_correct:
  assumes "chunk_ok c" "len \<le> int (length d)" "len < 2147483648"
  shows "awoke_buffchunk_write c None len trybest = Some (et_param, c) \<and>
    (if len \<le> 0 then awoke_buffchunk_write c (Some d) len trybest = Some (et_param, c)
     else if awoke_buffchunk_remain c = 0 \<or> \<not> trybest \<and> awoke_buffchunk_remain c < len
     then awoke_buffchunk_write c (Some d) len trybest = Some (et_full, c)
     else \<exists>c'. awoke_buffchunk_write c (Some d) len trybest = Some (et_ok, c') \<and> chunk_ok c' \<and>
            bc_size c' = bc_size c \<and> bc_data c' = bc_data c @ take (nat (min len (awoke_buffchunk_remain c))) d)"
  using awoke_buffchunk_write_ok[OF assms(1) _ assms(2,3), of trybest]
  by (auto simp: awoke_buffchunk_write_def Let_def)

definition chunk_example :: awoke_buffchunk where
  "chunk_example = \<lparr>bc_id = 0, bc_p = Some [7, 0, 0], bc_size = 3, bc_length = 1\<rparr>"

lemma chunk_example_ok: "chunk_ok chunk_example" "bc_data chunk_example = [7]" "awoke_buffchunk_remain chunk_example = 2"
  by (simp_all add: chunk_example_def chunk_ok_def bc_block_def bc_data_def awoke_buffchunk_remain_def)

theorem awoke_buffchunk_write_correct_witness:
  "\<exists>c'. awoke_buffchunk_write chunk_example (Some [1, 2, 3]) 3 True = Some (et_ok, c') \<and> bc_data c' = [7, 1, 2]"
  using awoke_buffchunk_write_correct[OF chunk_example_ok(1), of 3 "[1, 2, 3]" True]
  by (auto simp: chunk_example_ok)

text \<open>C9: resizing to a positive size, with any allocator. Without \<open>trybest\<close> the chunk gets exactly the requested size
  and keeps all of its data, or a size above the limit, below the data length or without memory is refused and the chunk
  is unchanged. With \<open>trybest\<close> the requested size, cut off at the limit, is halved until the allocator grants it: the
  call returns with a chunk of exactly the first size that is granted, which holds the prefix of the data that fits.\<close>

theorem awoke_buffchunk_resize_correct:
  assumes "chunk_ok c" "0 < sz" "first_granted alloc (min sz AWOKE_BUFFCHUNK_LIMIT) i"
  shows "(if AWOKE_BUFFCHUNK_LIMIT < sz then awoke_buffchunk_resize alloc junk c sz False = Some (et_mem_limit, c)
          else if sz < bc_length c then awoke_buffchunk_resize alloc junk c sz False = Some (et_fail, c)
          else if \<not> alloc (nat sz) then awoke_buffchunk_resize alloc junk c sz False = Some (et_nomem, c)
          else \<exists>c'. awoke_buffchunk_resize alloc junk c sz False = Some (et_ok, c') \<and> chunk_ok c' \<and>
                 bc_size c' = sz \<and> bc_data c' = bc_data c) \<and>
         (\<exists>c'. awoke_buffchunk_resize alloc junk c sz True = Some (et_ok, c') \<and> chunk_ok c' \<and>
            bc_size c' = min sz AWOKE_BUFFCHUNK_LIMIT div 2 ^ i \<and> bc_data c' = take (nat (bc_size c')) (bc_data c))"
proof
  let ?s = "min sz AWOKE_BUFFCHUNK_LIMIT"
  show "\<exists>c'. awoke_buffchunk_resize alloc junk c sz True = Some (et_ok, c') \<and> chunk_ok c' \<and>
            bc_size c' = ?s div 2 ^ i \<and> bc_data c' = take (nat (bc_size c')) (bc_data c)"
    using resize_trybest_ok[where alloc = alloc and junk = junk, OF assms(1) _ assms(3)]
    by (subst resize_clip) simp
  have d: "int (length (bc_data c)) = bc_length c" by (rule bc_data_length[OF assms(1)])
  consider (limit) "AWOKE_BUFFCHUNK_LIMIT < sz" | (short) "sz \<le> AWOKE_BUFFCHUNK_LIMIT" "sz < bc_length c"
    | (mem) "sz \<le> AWOKE_BUFFCHUNK_LIMIT" "bc_length c \<le> sz" by linarith
  then show "if AWOKE_BUFFCHUNK_LIMIT < sz then awoke_buffchunk_resize alloc junk c sz False = Some (et_mem_limit, c)
          else if sz < bc_length c then awoke_buffchunk_resize alloc junk c sz False = Some (et_fail, c)
          else if \<not> alloc (nat sz) then awoke_buffchunk_resize alloc junk c sz False = Some (et_nomem, c)
          else \<exists>c'. awoke_buffchunk_resize alloc junk c sz False = Some (et_ok, c') \<and> chunk_ok c' \<and>
                 bc_size c' = sz \<and> bc_data c' = bc_data c"
  proof cases
    case limit
    then show ?thesis by (simp add: awoke_buffchunk_resize.simps)
  next
    case short
    then show ?thesis by (simp add: awoke_buffchunk_resize.simps)
  next
    case mem
    then show ?thesis
      using resize_alloc_ok[where alloc = alloc and trybest = False and junk = junk, OF assms(1,2) mem(1)] d
        resize_retry(2)[where alloc = alloc and junk = junk, OF assms(1,2) mem(1)]
      by (cases "alloc (nat sz)") auto
  qed
qed

theorem awoke_buffchunk_resize_correct_witness:
  "\<exists>c'. awoke_buffchunk_resize (\<lambda>n. n \<le> 20) (\<lambda>_. 0) chunk_example 64 True = Some (et_ok, c') \<and>
     chunk_ok c' \<and> bc_size c' = 16"
proof -
  have "first_granted (\<lambda>n. n \<le> 20) (min 64 AWOKE_BUFFCHUNK_LIMIT) 2"
    by (auto simp: first_granted_def AWOKE_BUFFCHUNK_LIMIT_def less_Suc_eq numeral_2_eq_2)
  from awoke_buffchunk_resize_correct[OF chunk_example_ok(1) _ this, of "\<lambda>_. 0"] show ?thesis
    by (auto simp: AWOKE_BUFFCHUNK_LIMIT_def)
qed

text \<open>The \<open>trybest\<close> retry never gives up. Without any memory it halves the size to zero and calls
  itself with zero forever, or reallocates a block to size zero; it does not return.\<close>

theorem awoke_buffchunk_resize_no_memory_diverges:
  "awoke_buffchunk_resize (\<lambda>_. False) junk c sz True = None"
  by (rule resize_zero_diverges) simp

lemma awoke_buffchunk_backoff_overreads_any: "chunk_ok c \<Longrightarrow> 0 < back \<Longrightarrow> awoke_buffchunk_backoff c back = None"
  by (auto simp: awoke_buffchunk_backoff_def mem_read_def chunk_ok_def size_t_id)

text \<open>\<open>backoff\<close> reads past the chunk. It moves \<open>size\<close> bytes from \<open>p + back\<close>, so on every well-formed
  chunk dropping one or more bytes reads \<open>back\<close> bytes beyond the block.\<close>

theorem awoke_buffchunk_backoff_overreads:
  assumes "chunk_ok c" "0 < back" "back \<le> bc_length c"
  shows "awoke_buffchunk_backoff c back = None"
  using assms by (auto simp: awoke_buffchunk_backoff_def mem_read_def chunk_ok_def size_t_id)

theorem awoke_buffchunk_backoff_overreads_witness: "awoke_buffchunk_backoff chunk_example 1 = None"
  using awoke_buffchunk_backoff_overreads[OF chunk_example_ok(1), of 1] by (simp add: chunk_example_def)

text \<open>A pool accounts for its chunks. Adding a chunk keeps the totals equal to the sums over the
  chunks, the identifiers distinct and the total size within the limit; a chunk that does not fit or
  whose identifier is present is refused and the pool unchanged.\<close>

theorem awoke_buffchunk_pool_chunkadd_correct:
  assumes "pool_ok p" "chunk_ok c"
  shows "\<exists>e p'. awoke_buffchunk_pool_chunkadd (Some p) (Some c) = (e, Some p') \<and> pool_ok p' \<and>
           (if bp_maxsize p - bp_size p < bc_size c then e = et_mem_limit \<and> p' = p
            else if bc_id c \<in> bc_id ` set (bp_chunklist p) then e = et_exist \<and> p' = p
            else e = et_ok \<and> bp_chunklist p' = bp_chunklist p @ [c])"
proof -
  have "(\<exists>d \<in> set (bp_chunklist p). bc_id d = bc_id c) \<longleftrightarrow> bc_id c \<in> bc_id ` set (bp_chunklist p)" unfolding image_iff by metis
  with assms show ?thesis by (simp add: awoke_buffchunk_pool_chunkadd_def pool_ok_def)
qed

definition pool_example :: awoke_buffchunk_pool where
  "pool_example = \<lparr>bp_size = 3, bp_length = 1, bp_maxsize = 8, bp_chunknr = 1, bp_chunklist = [chunk_example]\<rparr>"

lemma pool_example_ok: "pool_ok pool_example" "bp_chunklist pool_example = [chunk_example]" "bp_length pool_example = 1"
  using chunk_example_ok(1) by (simp_all add: pool_example_def pool_ok_def chunk_example_def)

theorem awoke_buffchunk_pool_chunkadd_correct_witness:
  "\<exists>e p'. awoke_buffchunk_pool_chunkadd (Some pool_example) (Some chunk_example) = (e, Some p') \<and> pool_ok p'"
  using awoke_buffchunk_pool_chunkadd_correct[OF pool_example_ok(1) chunk_example_ok(1)] by blast

text \<open>Gathering a pool into one chunk concatenates the data of its chunks in order, when the total
  fits a chunk and memory is available.\<close>

theorem awoke_buffchunk_pool2chunk_correct:
  assumes "pool_ok p" "0 < bp_length p" "bp_length p \<le> AWOKE_BUFFCHUNK_LIMIT"
  shows "\<exists>c. awoke_buffchunk_pool2chunk (\<lambda>_. True) ctr (Some p) = Some (Some c, ctr + 1) \<and> chunk_ok c \<and>
           bc_data c = concat (map bc_data (bp_chunklist p))"
proof -
  obtain c where c: "awoke_buffchunk_create (\<lambda>_. True) ctr (bp_length p) = (Some c, ctr + 1)" "chunk_ok c"
      "bc_size c = bp_length p" "bc_data c = []" "bc_length c = 0"
    using awoke_buffchunk_create_ok[OF assms(2,3), of "\<lambda>_. True" ctr] by auto
  have "bp_chunklist p \<noteq> []" using assms(1,2) by (auto simp: pool_ok_def)
  then have "bp_chunknr p \<noteq> 0" using assms(1) by (simp add: pool_ok_def)
  with gather_ok[OF c(2), of "bp_chunklist p"] c assms show ?thesis
    by (auto simp: awoke_buffchunk_pool2chunk_def pool_ok_def awoke_buffchunk_remain_def)
qed

theorem awoke_buffchunk_pool2chunk_correct_witness:
  "\<exists>c. awoke_buffchunk_pool2chunk (\<lambda>_. True) 5 (Some pool_example) = Some (Some c, 6) \<and> bc_data c = [7]"
  using awoke_buffchunk_pool2chunk_correct[OF pool_example_ok(1), of 5]
  by (auto simp: pool_example_ok chunk_example_ok AWOKE_BUFFCHUNK_LIMIT_def)

end
