(* ===== verification/Sec_Base64.thy ===== *)
theory Sec_Base64
  imports Prelude
begin

text \<open>
  The Base64 codec of \<open>lib/libsecurity/src/sec_base64.c\<close>. The loops over the source are
  recursions on the list of its bytes; the bytes they emit are then stored into the
  destination, whose size is checked, so a result other than \<open>None\<close> also says that the code
  stays inside the destination. The decoder makes the two passes of the code: \<open>dec_scan\<close>
  validates and counts, \<open>dec_emit\<close> shifts sextets through a 32-bit accumulator.
\<close>

section \<open>Model\<close>

definition base64_enc_map :: bytes where
  "base64_enc_map = map of_char ''ABCDEFGHIJKLMNOPQRSTUVWXYZabcdefghijklmnopqrstuvwxyz0123456789+/''"

definition base64_dec_map :: bytes where
  "base64_dec_map = [
     127, 127, 127, 127, 127, 127, 127, 127, 127, 127, 127, 127, 127, 127, 127, 127,
     127, 127, 127, 127, 127, 127, 127, 127, 127, 127, 127, 127, 127, 127, 127, 127,
     127, 127, 127, 127, 127, 127, 127, 127, 127, 127, 127, 62, 127, 127, 127, 63,
     52, 53, 54, 55, 56, 57, 58, 59, 60, 61, 127, 127, 127, 64, 127, 127,
     127, 0, 1, 2, 3, 4, 5, 6, 7, 8, 9, 10, 11, 12, 13, 14,
     15, 16, 17, 18, 19, 20, 21, 22, 23, 24, 25, 127, 127, 127, 127, 127,
     127, 26, 27, 28, 29, 30, 31, 32, 33, 34, 35, 36, 37, 38, 39, 40,
     41, 42, 43, 44, 45, 46, 47, 48, 49, 50, 51, 127, 127, 127, 127, 127]"

definition enc_char :: "int \<Rightarrow> u8" where
  "enc_char v = base64_enc_map ! nat (v AND 0x3F)"

fun enc_body :: "bytes \<Rightarrow> bytes" where
  "enc_body (c1 # c2 # c3 # rest) =
     enc_char (drop_bit 2 (uint c1)) #
     enc_char (push_bit 4 (uint c1 AND 3) + drop_bit 4 (uint c2)) #
     enc_char (push_bit 2 (uint c2 AND 15) + drop_bit 6 (uint c3)) #
     enc_char (uint c3) # enc_body rest"
| "enc_body [c1, c2] =
     [enc_char (drop_bit 2 (uint c1)),
      enc_char (push_bit 4 (uint c1 AND 3) + drop_bit 4 (uint c2)),
      enc_char (push_bit 2 (uint c2 AND 15)), 61]"
| "enc_body [c1] =
     [enc_char (drop_bit 2 (uint c1)), enc_char (push_bit 4 (uint c1 AND 3) + drop_bit 4 0), 61, 61]"
| "enc_body [] = []"

definition BASE64_SIZE_T_MAX :: nat where "BASE64_SIZE_T_MAX = 2 ^ 64 - 1"

text \<open>The result: the return code, the value stored in \<open>*olen\<close> and the destination.\<close>

definition sec_base64_encode :: "bytes \<Rightarrow> nat \<Rightarrow> bytes \<Rightarrow> (int \<times> nat \<times> bytes) option" where
  "sec_base64_encode dst dlen src = (
     let slen = length src; n = slen div 3 + (if slen mod 3 \<noteq> 0 then 1 else 0) in
     if slen = 0 then Some (0, 0, dst)
     else if n > (BASE64_SIZE_T_MAX - 1) div 4 then Some (-1, BASE64_SIZE_T_MAX, dst)
     else if dlen < n * 4 + 1 then Some (-1, n * 4 + 1, dst)
     else do {
       dst' \<leftarrow> mem_write dst 0 (enc_body src @ [0]);
       Some (0, length (enc_body src), dst') })"

function dec_scan :: "bytes \<Rightarrow> nat \<Rightarrow> u32 \<Rightarrow> int + nat \<times> u32" where
  "dec_scan rest n j = (
     let x = of_nat (length (takeWhile (\<lambda>c. c = 32) rest)) :: u32 in
     case dropWhile (\<lambda>c. c = 32) rest of
       [] \<Rightarrow> Inr (n, j)
     | c # r \<Rightarrow>
         if c = 13 \<and> (case r of d # _ \<Rightarrow> d = 10 | [] \<Rightarrow> False) then dec_scan r n j
         else if c = 10 then dec_scan r n j
         else if x \<noteq> 0 then Inl (-1)
         else let j' = (if c = 61 then j + 1 else j) in
           if c = 61 \<and> j' > 2 then Inl (-2)
           else if c > 127 \<or> base64_dec_map ! unat c = 127 then Inl (-3)
           else if base64_dec_map ! unat c < 64 \<and> j' \<noteq> 0 then Inl (-4)
           else dec_scan r (n + 1) j')"
  by pat_completeness auto
termination by (relation "measure (\<lambda>(rest, n, j). length rest)") (auto dest: dropWhile_shorter)

declare dec_scan.simps [simp del]

fun dec_emit :: "bytes \<Rightarrow> u32 \<Rightarrow> nat \<Rightarrow> u32 \<Rightarrow> bytes option" where
  "dec_emit [] j n x = Some []"
| "dec_emit (c # src) j n x =
     (if c = 13 \<or> c = 10 \<or> c = 32 then dec_emit src j n x
      else do {
        v \<leftarrow> arr_get base64_dec_map (uint c);
        let j' = (if v = 64 then j - 1 else j);
        let x' = push_bit 6 x OR ucast (v AND 0x3F);
        if n + 1 = 4 then do {
          out \<leftarrow> dec_emit src j' 0 x';
          Some ((if j' > 0 then [ucast (drop_bit 16 x')] else []) @
                (if j' > 1 then [ucast (drop_bit 8 x')] else []) @
                (if j' > 2 then [ucast x'] else []) @ out) }
        else dec_emit src j' (n + 1) x' })"

text \<open>On the errors of the first pass \<open>*olen\<close> keeps its value \<open>olen\<close>.\<close>

definition sec_base64_decode ::
  "bytes option \<Rightarrow> nat \<Rightarrow> nat \<Rightarrow> bytes \<Rightarrow> (int \<times> nat \<times> bytes option) option" where
  "sec_base64_decode dst dlen olen src = (case dec_scan src 0 0 of
      Inl e \<Rightarrow> Some (e, olen, dst)
    | Inr (n, j) \<Rightarrow>
       (if n = 0 then Some (0, 0, dst)
        else let m = drop_bit 3 (n * 6 + 7) - unat j in
          case dst of
            None \<Rightarrow> Some (-5, m, dst)
          | Some d \<Rightarrow>
             (if dlen < m then Some (-5, m, dst)
              else do {
                out \<leftarrow> dec_emit src 3 0 0;
                d' \<leftarrow> mem_write d 0 out;
                Some (0, length out, Some d') })))"

section \<open>Sextets\<close>

lemma enc_map_length: "length base64_enc_map = 64"
  by (simp add: base64_enc_map_def)

lemma dec_map_length: "length base64_dec_map = 128"
  by (simp add: base64_dec_map_def)

text \<open>The two tables are inverse to each other, and an encoded character is none of the special ones.\<close>

lemma tables_inverse:
  "k < 64 \<Longrightarrow> (let c = base64_enc_map ! k in unat c < 128 \<and> base64_dec_map ! unat c = of_nat k \<and>
     c \<noteq> 61 \<and> c \<noteq> 13 \<and> c \<noteq> 10 \<and> c \<noteq> 32)"
proof -
  have "list_all (\<lambda>k. let c = base64_enc_map ! k in unat c < 128 \<and> base64_dec_map ! unat c = of_nat k \<and>
     c \<noteq> 61 \<and> c \<noteq> 13 \<and> c \<noteq> 10 \<and> c \<noteq> 32) [0..<64]"
    by code_simp
  then show "k < 64 \<Longrightarrow> ?thesis" by (simp only: list_all_iff set_upt atLeastLessThan_iff) simp
qed


lemma dec_map_cases:
  assumes "c \<le> (127::u8)"
  shows "base64_dec_map ! unat c = 127 \<or> base64_dec_map ! unat c = 64 \<and> c = 61 \<or>
           base64_dec_map ! unat c < 64 \<and> c \<noteq> 61 \<and> c \<noteq> 13 \<and> c \<noteq> 10 \<and> c \<noteq> 32"
proof -
  have "list_all (\<lambda>k. let v = base64_dec_map ! k; c = of_nat k :: u8 in v = 127 \<or> v = 64 \<and> c = 61 \<or>
      v < 64 \<and> c \<noteq> 61 \<and> c \<noteq> 13 \<and> c \<noteq> 10 \<and> c \<noteq> 32) [0..<128]"
    by code_simp
  moreover have "unat c < 128" using assms by (simp add: word_le_nat_alt)
  then have "unat c \<in> set [0..<128]" by simp
  ultimately have "let v = base64_dec_map ! unat c; c = of_nat (unat c) :: u8 in v = 127 \<or> v = 64 \<and> c = 61 \<or>
      v < 64 \<and> c \<noteq> 61 \<and> c \<noteq> 13 \<and> c \<noteq> 10 \<and> c \<noteq> 32"
    unfolding list_all_iff by (rule bspec)
  then show ?thesis by (simp add: Let_def)
qed

definition b64_ws :: "u8 \<Rightarrow> bool" where "b64_ws c \<longleftrightarrow> c = 13 \<or> c = 10 \<or> c = 32"

definition b64_data :: "u8 \<Rightarrow> bool" where "b64_data c \<longleftrightarrow> c \<le> 127 \<and> base64_dec_map ! unat c < 64"

definition sextet :: "u8 \<Rightarrow> nat" where "sextet c = unat (base64_dec_map ! unat c)"

lemma b64_data_facts:
  assumes "b64_data c"
  shows "c \<noteq> 61" "c \<noteq> 13" "c \<noteq> 10" "c \<noteq> 32" "\<not> 127 < c" "base64_dec_map ! unat c < 64"
    "base64_dec_map ! unat c \<noteq> 127" "sextet c < 64"
    "arr_get base64_dec_map (uint c) = Some (of_nat (sextet c))" "(of_nat (sextet c) :: u8) \<noteq> 64"
    "(of_nat (sextet c) :: u8) AND 63 = of_nat (sextet c)"
proof -
  have c: "c \<le> 127" "base64_dec_map ! unat c < 64" using assms by (auto simp: b64_data_def)
  from dec_map_cases[OF c(1)] c(2) show "c \<noteq> 61" "c \<noteq> 13" "c \<noteq> 10" "c \<noteq> 32" by auto
  show "\<not> 127 < c" "base64_dec_map ! unat c < 64" "base64_dec_map ! unat c \<noteq> 127" using c by auto
  show s: "sextet c < 64" using c(2) by (simp add: sextet_def word_less_nat_alt)
  have "unat c < 128" using c(1) by (simp add: word_le_nat_alt)
  then show "arr_get base64_dec_map (uint c) = Some (of_nat (sextet c))"
    by (simp add: arr_get_def dec_map_length sextet_def)
  have v: "(of_nat (sextet c) :: u8) = base64_dec_map ! unat c" by (simp add: sextet_def)
  show "(of_nat (sextet c) :: u8) \<noteq> 64" using c(2) unfolding v by auto
  have "take_bit 6 (of_nat (sextet c) :: u8) = of_nat (sextet c)"
    using s by (simp add: take_bit_of_nat take_bit_nat_eq_self)
  then show "(of_nat (sextet c) :: u8) AND 63 = of_nat (sextet c)" by (simp add: take_bit_eq_mask mask_eq_exp_minus_1)
qed

lemma b64_pad_facts:
  "arr_get base64_dec_map (uint (61::u8)) = Some 64" "\<not> b64_data 61"
  by (simp_all add: arr_get_def b64_data_def base64_dec_map_def)

section \<open>The passes of the decoder\<close>

lemma emit_filter: "dec_emit src j n x = dec_emit (filter (\<lambda>c. \<not> b64_ws c) src) j n x"
proof (induction src arbitrary: j n x)
  case (Cons c src)
  show ?case
  proof (cases "b64_ws c")
    case True
    then show ?thesis using Cons.IH[of j n x] by (auto simp: b64_ws_def)
  next
    case False
    then show ?thesis by (simp add: Cons.IH[symmetric] cong: if_cong)
  qed
qed simp

lemma acc_step: "s < 64 \<Longrightarrow> push_bit 6 x OR ucast (of_nat s :: u8) = (x * 64 + of_nat s :: u32)"
proof -
  assume s: "s < 64"
  have e: "ucast (of_nat s :: u8) = (of_nat s :: u32)" using s by (simp add: unsigned_of_nat take_bit_nat_eq_self)
  have "take_bit 6 (of_nat s :: u32) = of_nat s" using s by (simp add: take_bit_of_nat take_bit_nat_eq_self)
  then have "bit (of_nat s :: u32) k \<Longrightarrow> k < 6" for k by (metis bit_take_bit_iff)
  then have "\<not> (bit (push_bit 6 x) k \<and> bit (of_nat s :: u32) k)" for k by (metis bit_push_bit_iff linorder_not_le)
  then have "push_bit 6 x AND of_nat s = (0::u32)" by (intro bit_eqI) (simp only: bit_and_iff bit_0_eq bot_fun_def bot_bool_def)
  then show ?thesis unfolding e by (simp add: push_bit_eq_mult disjunctive_add_eq_or)
qed


text \<open>Only the sextets of an unfinished group of the accumulator matter.\<close>

lemma emit_acc_cong:
  "take_bit (6 * n) x = take_bit (6 * n) y \<Longrightarrow> n < 4 \<Longrightarrow> dec_emit cs j n x = dec_emit cs j n y"
proof (induction cs arbitrary: j n x y)
  case (Cons c cs)
  have bits: "bit x k \<longleftrightarrow> bit y k" if "k < 6 * n" for k using Cons.prems(1) that by (metis bit_take_bit_iff)
  have st: "take_bit (6 * Suc n) (push_bit 6 x OR v) = take_bit (6 * Suc n) (push_bit 6 y OR v)" for v :: u32
    by (rule bit_eqI) (use bits in \<open>auto simp: bit_take_bit_iff bit_or_iff bit_push_bit_iff\<close>)
  have out: "ucast (drop_bit k (push_bit 6 x OR v)) = (ucast (drop_bit k (push_bit 6 y OR v)) :: u8)"
    if "n = 3" "k \<le> 16" for k and v :: u32
    by (rule bit_eqI) (use bits that in \<open>auto simp: bit_unsigned_iff bit_drop_bit_eq bit_or_iff bit_push_bit_iff\<close>)
  have z: "dec_emit cs i 0 u = dec_emit cs i 0 w" for i u w by (rule Cons.IH) simp_all
  show ?case
  proof (cases "n = 3")
    case True
    then show ?thesis using Cons.IH[OF Cons.prems] out[of 16] out[of 8] out[of 0] z
      by (auto simp: Let_def intro!: Option.bind_cong)
  next
    case False
    then have "dec_emit cs i (Suc n) (push_bit 6 x OR v) = dec_emit cs i (Suc n) (push_bit 6 y OR v)" for i v
      using Cons.prems(2) by (intro Cons.IH[OF st]) simp
    then show ?thesis using Cons.IH[OF Cons.prems] False by (auto simp: Let_def intro!: Option.bind_cong)
  qed
qed simp

lemma emit_zero: "dec_emit cs j 0 x = dec_emit cs j 0 0"
  by (rule emit_acc_cong) simp_all

definition quad :: "nat \<Rightarrow> nat \<Rightarrow> nat \<Rightarrow> nat \<Rightarrow> nat" where
  "quad a b c d = ((a * 64 + b) * 64 + c) * 64 + d"

definition acc :: "nat \<Rightarrow> u32" where "acc x = of_nat x"

lemma emit_start: "dec_emit cs j 0 0 = dec_emit cs j 0 (acc 0)"
  by (simp add: acc_def)

lemma emit_step:
  assumes "b64_data c"
  shows "dec_emit (c # cs) j n (acc x) =
     (if n + 1 = 4 then do {
        out \<leftarrow> dec_emit cs j 0 0;
        Some ((if j > 0 then [ucast (drop_bit 16 (acc (x * 64 + sextet c)))] else []) @
              (if j > 1 then [ucast (drop_bit 8 (acc (x * 64 + sextet c)))] else []) @
              (if j > 2 then [ucast (acc (x * 64 + sextet c))] else []) @ out) }
      else dec_emit cs j (n + 1) (acc (x * 64 + sextet c)))"
proof -
  note f = b64_data_facts[OF assms]
  have a: "push_bit 6 (acc x) OR ucast (of_nat (sextet c) :: u8) = acc (x * 64 + sextet c)"
    using acc_step[OF f(8), of "acc x"] by (simp add: acc_def)
  show ?thesis
    by (simp only: dec_emit.simps f(2-4,9-11) a Option.bind.simps Let_def simp_thms if_False
        emit_zero[of cs j "acc (x * 64 + sextet c)"])
qed

lemma emit_pad:
  "dec_emit (61 # cs) j n (acc x) =
     (if n + 1 = 4 then do {
        out \<leftarrow> dec_emit cs (j - 1) 0 0;
        Some ((if j - 1 > 0 then [ucast (drop_bit 16 (acc (x * 64)))] else []) @
              (if j - 1 > 1 then [ucast (drop_bit 8 (acc (x * 64)))] else []) @
              (if j - 1 > 2 then [ucast (acc (x * 64))] else []) @ out) }
      else dec_emit cs (j - 1) (n + 1) (acc (x * 64)))"
proof -
  have a: "push_bit 6 (acc x) OR ucast (64 AND 63 :: u8) = acc (x * 64)"
    using acc_step[of 0 "acc x"] by (simp add: acc_def)
  have n: "(61::u8) = 13 \<longleftrightarrow> False" "(61::u8) = 10 \<longleftrightarrow> False" "(61::u8) = 32 \<longleftrightarrow> False" by simp_all
  show ?thesis
    by (simp only: dec_emit.simps n b64_pad_facts(1) a Option.bind.simps Let_def simp_thms if_False if_True
        emit_zero[of cs "j - 1" "acc (x * 64)"])
qed


declare dec_emit.simps(2) [simp del]

lemma acc_byte:
  assumes "N < 2 ^ 24"
  shows "ucast (drop_bit k (acc N)) = (of_nat (N div 2 ^ k) :: u8)" and "ucast (acc N) = (of_nat N :: u8)"
proof -
  have u: "unat (acc N) = N" using assms by (simp add: unat_of_nat acc_def)
  show k: "ucast (drop_bit k (acc N)) = (of_nat (N div 2 ^ k) :: u8)" for k
  proof -
    have "unat (drop_bit k (acc N)) = N div 2 ^ k" by (subst unat_drop_bit_eq) (simp add: u drop_bit_eq_div)
    then show ?thesis by (simp add: word_unat_eq_iff unsigned_ucast_eq unat_of_nat take_bit_eq_mod)
  qed
  from k[of 0] show "ucast (acc N) = (of_nat N :: u8)" by simp
qed

lemma quad_less: "a < 64 \<Longrightarrow> b < 64 \<Longrightarrow> c < 64 \<Longrightarrow> d < 64 \<Longrightarrow> quad a b c d < 2 ^ 24"
  by (simp add: quad_def)

lemma emit_quad:
  assumes "b64_data a" "b64_data b" "b64_data c" "b64_data d"
  shows "dec_emit (a # b # c # d # r) 3 0 0 = do {
     out \<leftarrow> dec_emit r 3 0 0;
     Some ([of_nat (quad (sextet a) (sextet b) (sextet c) (sextet d) div 65536),
            of_nat (quad (sextet a) (sextet b) (sextet c) (sextet d) div 256),
            of_nat (quad (sextet a) (sextet b) (sextet c) (sextet d))] @ out) }"
proof -
  have q: "quad (sextet a) (sextet b) (sextet c) (sextet d) < 2 ^ 24"
    by (intro quad_less b64_data_facts(8) assms)
  have "dec_emit (a # b # c # d # r) 3 0 (acc 0) = do {
      out \<leftarrow> dec_emit r 3 0 0;
      Some ([ucast (drop_bit 16 (acc (quad (sextet a) (sextet b) (sextet c) (sextet d)))),
             ucast (drop_bit 8 (acc (quad (sextet a) (sextet b) (sextet c) (sextet d)))),
             ucast (acc (quad (sextet a) (sextet b) (sextet c) (sextet d)))] @ out) }"
    by (simp add: emit_step[OF assms(1)] emit_step[OF assms(2)] emit_step[OF assms(3)] emit_step[OF assms(4)] quad_def)
  then show ?thesis unfolding emit_start[of "a # b # c # d # r"] by (simp only: acc_byte[OF q]) simp
qed

text \<open>The three ways a group ends: with one padding character, with two, or not at all.\<close>

lemma emit_tail1:
  assumes "b64_data a" "b64_data b" "b64_data c"
  shows "dec_emit [a, b, c, 61] 3 0 0 =
     Some [of_nat (quad (sextet a) (sextet b) (sextet c) 0 div 65536),
           of_nat (quad (sextet a) (sextet b) (sextet c) 0 div 256)]"
proof -
  have q: "quad (sextet a) (sextet b) (sextet c) 0 < 2 ^ 24" by (intro quad_less b64_data_facts(8) assms) simp
  have "dec_emit [a, b, c, 61] 3 0 (acc 0) =
      Some [ucast (drop_bit 16 (acc (quad (sextet a) (sextet b) (sextet c) 0))),
            ucast (drop_bit 8 (acc (quad (sextet a) (sextet b) (sextet c) 0)))]"
    by (simp add: emit_step[OF assms(1)] emit_step[OF assms(2)] emit_step[OF assms(3)] emit_pad quad_def)
  then show ?thesis unfolding emit_start[of "[a, b, c, 61]"] by (simp only: acc_byte[OF q]) simp
qed

lemma emit_tail2:
  assumes "b64_data a" "b64_data b"
  shows "dec_emit [a, b, 61, 61] 3 0 0 = Some [of_nat (quad (sextet a) (sextet b) 0 0 div 65536)]"
proof -
  have q: "quad (sextet a) (sextet b) 0 0 < 2 ^ 24" by (intro quad_less b64_data_facts(8) assms) simp_all
  have "dec_emit [a, b, 61, 61] 3 0 (acc 0) = Some [ucast (drop_bit 16 (acc (quad (sextet a) (sextet b) 0 0)))]"
    by (simp add: emit_step[OF assms(1)] emit_step[OF assms(2)] emit_pad quad_def)
  then show ?thesis unfolding emit_start[of "[a, b, 61, 61]"] by (simp only: acc_byte[OF q]) simp
qed

section \<open>The encoder\<close>

lemma enc_char_facts: "b64_data (enc_char v)" "sextet (enc_char v) = nat (v mod 64)"
proof -
  have "v AND 63 = v mod 64" using take_bit_eq_mask[of 6 v] by (simp add: take_bit_eq_mod mask_eq_exp_minus_1)
  then have e: "enc_char v = base64_enc_map ! nat (v mod 64)" by (simp add: enc_char_def)
  have k: "nat (v mod 64) < 64" by (simp add: nat_less_iff)
  from tables_inverse[OF k] have t: "unat (enc_char v) < 128" "base64_dec_map ! unat (enc_char v) = of_nat (nat (v mod 64))"
    unfolding e Let_def by auto
  have "unat (of_nat m :: u8) = m" if "m < 64" for m using that by (simp add: unat_of_nat)
  note u = this[OF k]
  show "sextet (enc_char v) = nat (v mod 64)" unfolding sextet_def t(2) by (rule u)
  show "b64_data (enc_char v)" using t(1) k u unfolding b64_data_def t(2) by (simp add: word_le_nat_alt word_less_nat_alt)
qed

lemma sextets_of_bytes:
  "((q1 * 64 + (r1 * 16 + q2)) * 64 + (r2 * 4 + q3)) * 64 + r3 =
     ((q1 * 4 + r1) * 256 + (q2 * 16 + r2)) * 256 + (q3 * 64 + r3 :: int)"
  by (simp add: algebra_simps)

lemma enc_quad:
  fixes c1 c2 c3 :: u8
  defines "a \<equiv> uint c1" and "b \<equiv> uint c2" and "c \<equiv> uint c3"
  shows "quad (nat (drop_bit 2 a mod 64)) (nat ((push_bit 4 (a AND 3) + drop_bit 4 b) mod 64))
           (nat ((push_bit 2 (b AND 15) + drop_bit 6 c) mod 64)) (nat (c mod 64)) =
         (unat c1 * 256 + unat c2) * 256 + unat c3"
proof -
  have m: "a AND 3 = a mod 4" "b AND 15 = b mod 16"
    using take_bit_eq_mask[of 2 a] take_bit_eq_mask[of 4 b] by (simp_all add: take_bit_eq_mod mask_eq_exp_minus_1)
  have r: "0 \<le> a" "a < 256" "0 \<le> b" "b < 256" "0 \<le> c" "c < 256"
    unfolding a_def b_def c_def using unsigned_less[of c1, where 'a = int] unsigned_less[of c2, where 'a = int]
      unsigned_less[of c3, where 'a = int] by auto
  have e: "drop_bit 2 a = a div 4" "push_bit 4 (a AND 3) + drop_bit 4 b = a mod 4 * 16 + b div 16"
      "push_bit 2 (b AND 15) + drop_bit 6 c = b mod 16 * 4 + c div 64"
    unfolding m by (simp_all add: drop_bit_eq_div push_bit_eq_mult)
  have "int (quad (nat (a div 4 mod 64)) (nat ((a mod 4 * 16 + b div 16) mod 64))
      (nat ((b mod 16 * 4 + c div 64) mod 64)) (nat (c mod 64))) = (a * 256 + b) * 256 + c"
  proof -
    have d: "0 \<le> a div 4" "a div 4 < 64" "0 \<le> b div 16" "b div 16 < 16" "0 \<le> c div 64" "c div 64 < 4"
        "0 \<le> a mod 4" "a mod 4 < 4" "0 \<le> b mod 16" "b mod 16 < 16" using r by auto
    have "a div 4 mod 64 = a div 4" "(a mod 4 * 16 + b div 16) mod 64 = a mod 4 * 16 + b div 16"
        "(b mod 16 * 4 + c div 64) mod 64 = b mod 16 * 4 + c div 64" using d by (auto intro!: mod_pos_pos_trivial)
    then have "int (quad (nat (a div 4 mod 64)) (nat ((a mod 4 * 16 + b div 16) mod 64))
        (nat ((b mod 16 * 4 + c div 64) mod 64)) (nat (c mod 64))) =
        (((a div 4) * 64 + (a mod 4 * 16 + b div 16)) * 64 + (b mod 16 * 4 + c div 64)) * 64 + c mod 64"
      using r d by (simp add: quad_def)
    also have "\<dots> = (a * 256 + b) * 256 + c"
      unfolding sextets_of_bytes div_mult_mod_eq ..
    finally show ?thesis .
  qed
  also have "\<dots> = int ((unat c1 * 256 + unat c2) * 256 + unat c3)" by (simp add: a_def b_def c_def)
  finally show ?thesis unfolding e by (simp only: of_nat_eq_iff)
qed


text \<open>Decoding the encoding of a group.\<close>

lemma group_bytes:
  fixes c1 c2 c3 :: u8
  defines "N \<equiv> (unat c1 * 256 + unat c2) * 256 + unat c3"
  shows "of_nat (N div 65536) = c1" "of_nat (N div 256) = c2" "of_nat N = c3"
proof -
  have u: "unat c1 < 256" "unat c2 < 256" "unat c3 < 256" by (rule unat_u8_less)+
  have m: "N div 65536 = unat c1" "N div 256 = unat c1 * 256 + unat c2" using u by (simp_all add: N_def)
  have "N mod 256 = unat c3" "(N div 256) mod 256 = unat c2"
    using u unfolding m(2) unfolding N_def mod_mult_self3 by simp_all
  then show "of_nat (N div 65536) = c1" "of_nat (N div 256) = c2" "of_nat N = c3"
    using m(1) u by (simp_all add: word_unat_eq_iff unat_of_nat)
qed

lemma emit_enc_body: "dec_emit (enc_body src) 3 0 0 = Some src"
proof (induction src rule: enc_body.induct)
  case (1 c1 c2 c3 rest)
  show ?case
    unfolding enc_body.simps emit_quad[OF enc_char_facts(1) enc_char_facts(1) enc_char_facts(1) enc_char_facts(1)]
      enc_char_facts(2) enc_quad group_bytes 1 by simp
next
  case (2 c1 c2)
  show ?case
    using enc_quad[of c1 c2 0] group_bytes[of c1 c2 0]
    unfolding enc_body.simps emit_tail1[OF enc_char_facts(1) enc_char_facts(1) enc_char_facts(1)] enc_char_facts(2)
    by simp
next
  case (3 c1)
  show ?case
    using enc_quad[of c1 0 0] group_bytes[of c1 0 0]
    unfolding enc_body.simps emit_tail2[OF enc_char_facts(1) enc_char_facts(1)] enc_char_facts(2)
    by simp
qed simp

lemma enc_body_shape:
  "\<exists>ds k. enc_body src = ds @ replicate k 61 \<and> (\<forall>c \<in> set ds. b64_data c) \<and> k \<le> 2 \<and>
     length (enc_body src) = 4 * (length src div 3 + (if length src mod 3 \<noteq> 0 then 1 else 0)) \<and>
     3 * (length src div 3 + (if length src mod 3 \<noteq> 0 then 1 else 0)) = length src + k"
proof (induction src rule: enc_body.induct)
  case (1 c1 c2 c3 rest)
  then obtain ds k where h: "enc_body rest = ds @ replicate k 61" "\<forall>c \<in> set ds. b64_data c" "k \<le> 2"
      "length (enc_body rest) = 4 * (length rest div 3 + (if length rest mod 3 \<noteq> 0 then 1 else 0))"
      "3 * (length rest div 3 + (if length rest mod 3 \<noteq> 0 then 1 else 0)) = length rest + k" by blast
  let ?p = "take 4 (enc_body (c1 # c2 # c3 # rest))"
  have p: "enc_body (c1 # c2 # c3 # rest) = (?p @ ds) @ replicate k 61" "\<forall>c \<in> set (?p @ ds). b64_data c" "length ?p = 4"
    using h(1,2) by (auto simp: enc_char_facts)
  have l3: "length (c1 # c2 # c3 # rest) = 3 + length rest" by simp
  have l: "length (c1 # c2 # c3 # rest) div 3 = Suc (length rest div 3)"
    unfolding l3 by (subst div_add_self1) simp_all
  have l': "length (c1 # c2 # c3 # rest) mod 3 = length rest mod 3" unfolding l3 by (rule mod_add_self1)
  show ?case
    unfolding l l'
  proof (intro exI[of _ "?p @ ds"] exI[of _ k] conjI p(1,2) h(3))
    show "length (enc_body (c1 # c2 # c3 # rest)) =
        4 * (Suc (length rest div 3) + (if length rest mod 3 \<noteq> 0 then 1 else 0))"
      using h(4) by simp
    show "3 * (Suc (length rest div 3) + (if length rest mod 3 \<noteq> 0 then 1 else 0)) = length (c1 # c2 # c3 # rest) + k"
      using h(5) by simp
  qed
next
  case (2 c1 c2)
  show ?case by (rule exI[of _ "take 3 (enc_body [c1, c2])"], rule exI[of _ 1]) (simp add: enc_char_facts)
next
  case (3 c1)
  show ?case by (rule exI[of _ "take 2 (enc_body [c1])"], rule exI[of _ 2]) (simp add: enc_char_facts numeral_2_eq_2)
next
  case 4
  show ?case by (rule exI[of _ "[]"], rule exI[of _ 0]) simp
qed


section \<open>The first pass\<close>

lemma scan_data: "b64_data c \<Longrightarrow> dec_scan (c # cs) n 0 = dec_scan cs (n + 1) 0"
  using b64_data_facts[of c] by (subst dec_scan.simps) (simp add: Let_def)

lemma scan_pad: "j < 2 \<Longrightarrow> dec_scan (61 # cs) n j = dec_scan cs (n + 1) (j + 1)"
proof -
  assume "j < 2"
  then have "\<not> 2 < j + 1" by unat_arith
  moreover have "base64_dec_map ! unat (61::u8) = 64" by (simp add: base64_dec_map_def)
  ultimately show ?thesis by (subst dec_scan.simps) (simp add: Let_def)
qed

lemma scan_valid:
  assumes "\<forall>c \<in> set ds. b64_data c" "k \<le> 2"
  shows "dec_scan (ds @ replicate k 61) n 0 = Inr (n + length ds + k, of_nat k)"
  using assms(1)
proof (induction ds arbitrary: n)
  case Nil
  have e: "dec_scan [] m j = Inr (m, j)" for m j by (subst dec_scan.simps) simp
  consider "k = 0" | "k = 1" | "k = 2" using assms(2) by linarith
  then show ?case by cases (simp_all add: e scan_pad numeral_2_eq_2)
qed (simp add: scan_data)

text \<open>What a successful first pass establishes about its input.\<close>

definition scan_spec :: "bytes \<Rightarrow> nat \<Rightarrow> u32 \<Rightarrow> nat \<Rightarrow> u32 \<Rightarrow> bool" where
  "scan_spec cs n j n' j' \<longleftrightarrow> (\<exists>ds k. cs = ds @ replicate k 61 \<and> (\<forall>c \<in> set ds. b64_data c) \<and> n' = n + length cs \<and>
     unat j' = unat j + k \<and> unat j + k \<le> 2 \<and> (j \<noteq> 0 \<longrightarrow> ds = []))"

lemma scan_spec_data: "scan_spec cs (n + 1) 0 n' j' \<Longrightarrow> b64_data c \<Longrightarrow> scan_spec (c # cs) n 0 n' j'"
  unfolding scan_spec_def by (elim exE, rule exI, rule exI) (rule conjI[of "_ # _ = (_ # _) @ _"], auto)

lemma scan_spec_pad:
  assumes "scan_spec cs (n + 1) (j + 1) n' j'" "unat j \<le> 1"
  shows "scan_spec (61 # cs) n j n' j'"
proof -
  have u: "unat (j + 1) = unat j + 1" using assms(2) by (simp add: unat_word_ariths)
  then have "j + 1 \<noteq> 0" by (metis add_is_0 unat_0 zero_neq_one)
  with assms(1) obtain k where "cs = replicate k 61" "n' = n + 1 + length cs" "unat j' = unat j + 1 + k" "unat j + 1 + k \<le> 2"
    unfolding scan_spec_def u by auto
  then show ?thesis unfolding scan_spec_def by (intro exI[of _ "[]"] exI[of _ "Suc k"]) auto
qed


lemma filter_dropWhile_ws:
  "filter (\<lambda>c. \<not> b64_ws c) (dropWhile (\<lambda>c. c = 32) cs) = filter (\<lambda>c. \<not> b64_ws c) cs"
  by (induction cs) (auto simp: b64_ws_def)

lemma scan_spec_Nil: "unat j \<le> 2 \<Longrightarrow> scan_spec [] n j n j"
  by (auto simp: scan_spec_def)

lemma scan_ok:
  "dec_scan src n j = Inr (n', j') \<Longrightarrow> unat j \<le> 2 \<Longrightarrow> scan_spec (filter (\<lambda>c. \<not> b64_ws c) src) n j n' j'"
proof (induction "length src" arbitrary: src n j rule: less_induct)
  case less
  let ?f = "filter (\<lambda>c. \<not> b64_ws c)"
  show ?case
  proof (cases "dropWhile (\<lambda>c. c = 32) src")
    case Nil
    then have "?f src = []" using filter_dropWhile_ws[of src] by (metis filter.simps(1))
    moreover have "n' = n \<and> j' = j" using less.prems(1) by (subst (asm) dec_scan.simps) (simp only: Nil, simp)
    ultimately show ?thesis using less.prems(2) scan_spec_Nil by simp
  next
    case (Cons c r)
    note IH = less.hyps[OF dropWhile_shorter[OF Cons]]
    have fs: "?f src = ?f (c # r)" using filter_dropWhile_ws[of src] Cons by simp
    have eq: "dec_scan src n j = (if c = 13 \<and> (case r of d # _ \<Rightarrow> d = 10 | [] \<Rightarrow> False) \<or> c = 10 then dec_scan r n j
        else if of_nat (length (takeWhile (\<lambda>c. c = 32) src)) \<noteq> (0::u32) then Inl (-1)
        else let j' = (if c = 61 then j + 1 else j) in
           if c = 61 \<and> j' > 2 then Inl (-2)
           else if c > 127 \<or> base64_dec_map ! unat c = 127 then Inl (-3)
           else if base64_dec_map ! unat c < 64 \<and> j' \<noteq> 0 then Inl (-4)
           else dec_scan r (n + 1) j')"
      by (subst dec_scan.simps) (simp add: Cons Let_def)
    show ?thesis
    proof (cases "c = 13 \<and> (case r of d # _ \<Rightarrow> d = 10 | [] \<Rightarrow> False) \<or> c = 10")
      case True
      then have "dec_scan r n j = Inr (n', j')" using less.prems(1) eq by simp
      from IH[OF this less.prems(2)] have "scan_spec (?f r) n j n' j'" .
      then show ?thesis using True fs by (auto simp: b64_ws_def)
    next
      case ws: False
      let ?j = "if c = 61 then j + 1 else j"
      have h: "\<not> (c = 61 \<and> ?j > 2)" "\<not> (c > 127 \<or> base64_dec_map ! unat c = 127)"
          "\<not> (base64_dec_map ! unat c < 64 \<and> ?j \<noteq> 0)" "dec_scan r (n + 1) ?j = Inr (n', j')"
        using less.prems(1) ws unfolding eq by (auto simp: Let_def split: if_splits)
      have c: "c = 61 \<or> b64_data c" "c \<noteq> 13 \<and> c \<noteq> 10 \<and> c \<noteq> 32" "c = 61 \<Longrightarrow> \<not> b64_data c"
        using dec_map_cases[of c] h(2) b64_pad_facts(2) by (auto simp: b64_data_def)
      have sp: "unat ?j \<le> 2 \<Longrightarrow> scan_spec (?f r) (n + 1) ?j n' j'" by (rule IH[OF h(4)])
      show ?thesis
      proof (cases "c = 61")
        case True
        have "unat (j + 1) = unat j + 1" using less.prems(2) by (simp add: unat_word_ariths)
        moreover have "unat (j + 1) \<le> 2" using h(1) True by (simp add: word_less_nat_alt)
        ultimately have "unat j \<le> 1" "unat (j + 1) \<le> 2" by simp_all
        then show ?thesis using scan_spec_pad[of "?f r" n j n' j'] sp True fs c(2) by (simp add: b64_ws_def)
      next
        case False
        then have "b64_data c" "j = 0" using c(1) h(3) by (auto simp: b64_data_def)
        then show ?thesis using scan_spec_data[of "?f r" n n' j' c] sp False fs c(2) by (simp add: b64_ws_def)
      qed
    qed
  qed
qed


lemma emit_length:
  assumes "\<forall>c \<in> set ds. b64_data c" "k \<le> 2"
  shows "\<exists>out. dec_emit (ds @ replicate k 61) 3 0 0 = Some out \<and> length out \<le> (6 * (length ds + k) + 7) div 8 - k"
  using assms(1)
proof (induction "length ds" arbitrary: ds rule: less_induct)
  case less
  have k: "k = 0 \<or> k = 1 \<or> k = 2" using assms(2) by linarith
  show ?case
  proof (cases "length ds < 4")
    case True
    then consider "ds = []" | a where "ds = [a]" | a b where "ds = [a, b]" | a b c where "ds = [a, b, c]"
      by (cases ds; cases "tl ds"; cases "tl (tl ds)"; cases "tl (tl (tl ds))") auto
    moreover have "dec_emit [61] j 0 0 = Some []" for j using emit_pad[of "[]" j 0 0] by (simp add: acc_def)
    ultimately show ?thesis using less.prems k emit_start
      by cases (auto simp: emit_start[of "_ # _"] emit_step emit_pad numeral_2_eq_2)
  next
    case False
    then obtain a b c d r where ds: "ds = a # b # c # d # r"
      by (cases ds; cases "tl ds"; cases "tl (tl ds)"; cases "tl (tl (tl ds))") auto
    with less.hyps[of r] less.prems obtain out where
      out: "dec_emit (r @ replicate k 61) 3 0 0 = Some out" "length out \<le> (6 * (length r + k) + 7) div 8 - k" by auto
    have "dec_emit (ds @ replicate k 61) 3 0 0 = Some ([of_nat (quad (sextet a) (sextet b) (sextet c) (sextet d) div 65536),
            of_nat (quad (sextet a) (sextet b) (sextet c) (sextet d) div 256),
            of_nat (quad (sextet a) (sextet b) (sextet c) (sextet d))] @ out)"
      using less.prems emit_quad[of a b c d "r @ replicate k 61"] out(1) by (simp add: ds)
    moreover have "length out + 3 \<le> (6 * (length ds + k) + 7) div 8 - k"
    proof -
      have "6 * (length ds + k) + 7 = 6 * (length r + k) + 7 + 3 * 8" using ds by simp
      then have "(6 * (length ds + k) + 7) div 8 = (6 * (length r + k) + 7) div 8 + 3" by simp
      moreover have "k \<le> (6 * (length r + k) + 7) div 8"
        using assms(2) by (simp add: less_eq_div_iff_mult_less_eq)
      ultimately show ?thesis using out(2) by linarith
    qed
    ultimately show ?thesis by simp
  qed
qed

section \<open>Properties\<close>

text \<open>C10: Base64 round trip. Whatever the bytes, encoding them into a destination with room for the
  characters and the final NUL succeeds inside the destination, and decoding the encoded text into a
  buffer of at least the original length gives back exactly the original bytes.\<close>

theorem sec_base64_round_trip:
  assumes "src \<noteq> []" "length src < 2 ^ 60"
    and "length dst = 4 * ((length src + 2) div 3) + 1" "length src \<le> length buf"
  shows "\<exists>olen dst' buf'. sec_base64_encode dst (length dst) src = Some (0, olen, dst') \<and>
           length dst' = length dst \<and> dst' ! olen = 0 \<and>
           sec_base64_decode (Some buf) (length buf) 0 (take olen dst') = Some (0, length src, Some buf') \<and>
           length buf' = length buf \<and> take (length src) buf' = src"
proof -
  let ?e = "enc_body src" and ?n = "length src div 3 + (if length src mod 3 \<noteq> 0 then 1 else 0)"
  obtain ds k where e: "?e = ds @ replicate k 61" "\<forall>c \<in> set ds. b64_data c" "k \<le> 2" "length ?e = 4 * ?n"
      "3 * ?n = length src + k" using enc_body_shape[of src] by blast
  have n: "?n = (length src + 2) div 3" by presburger
  have len: "length ?e + 1 = length dst" using assms(3) e(4) unfolding n by simp
  have "?n \<le> length src" using e(3,5) assms(1) by (cases src) auto
  then have small: "\<not> ?n > (BASE64_SIZE_T_MAX - 1) div 4" using assms(2) by (simp add: BASE64_SIZE_T_MAX_def)
  have w: "mem_write dst 0 (?e @ [0]) = Some (?e @ [0])" using len by (simp add: mem_write_def)
  have enc: "sec_base64_encode dst (length dst) src = Some (0, length ?e, ?e @ [0])"
    unfolding sec_base64_encode_def Let_def using assms(1) small len e(4) w by (simp del: enc_body.simps)
  have "length src \<noteq> 0" using assms(1) by simp
  then have ne: "length ?e \<noteq> 0" using e(5) unfolding e(4) by linarith
  have scan: "dec_scan ?e 0 0 = Inr (length ?e, of_nat k)"
    unfolding e(1) using scan_valid[OF e(2,3), of 0] by simp
  have "drop_bit 3 (length ?e * 6 + 7) = 3 * ?n" unfolding e(4) by (simp add: drop_bit_eq_div)
  then have m: "drop_bit 3 (length ?e * 6 + 7) - unat (of_nat k :: u32) = length src"
    using e(3,5) by (simp add: unat_of_nat)
  have "sec_base64_decode (Some buf) (length buf) 0 ?e = Some (0, length src, Some (src @ drop (length src) buf))"
    unfolding sec_base64_decode_def scan Let_def sum.case prod.case m emit_enc_body
    using ne assms(4) by (simp add: mem_write_def)
  with enc len assms(4) show ?thesis by auto
qed

theorem sec_base64_round_trip_witness:
  "\<exists>olen dst' buf'. sec_base64_encode (zeros 9) 9 [77, 97, 110, 33] = Some (0, olen, dst') \<and>
     sec_base64_decode (Some (zeros 4)) 4 0 (take olen dst') = Some (0, 4, Some buf') \<and> take 4 buf' = [77, 97, 110, 33]"
  using sec_base64_round_trip[of "[77, 97, 110, 33]" "zeros 9" "zeros 4"] by auto

text \<open>C11: decoding is memory safe on every input: whatever bytes the source holds, the decoder reads its
  tables in range and never writes past \<open>dlen\<close>, because the first pass rejects the text or computes an
  output length that the second pass respects.\<close>

theorem sec_base64_decode_safe:
  "sec_base64_decode (Some dst) (length dst) olen src \<noteq> None"
proof (cases "dec_scan src 0 0")
  case (Inl e)
  then show ?thesis by (simp add: sec_base64_decode_def)
next
  case (Inr p)
  obtain n j where p: "p = (n, j)" by fastforce
  have "scan_spec (filter (\<lambda>c. \<not> b64_ws c) src) 0 0 n j" using scan_ok[of src 0 0 n j] Inr p by simp
  then obtain ds k where f: "filter (\<lambda>c. \<not> b64_ws c) src = ds @ replicate k 61" "\<forall>c \<in> set ds. b64_data c"
      "n = length ds + k" "unat j = k" "k \<le> 2" unfolding scan_spec_def by auto
  obtain out where out: "dec_emit src 3 0 0 = Some out" "length out \<le> (6 * (length ds + k) + 7) div 8 - k"
    using emit_length[OF f(2,5)] emit_filter[of src 3 0 0] f(1) by auto
  have "drop_bit 3 (n * 6 + 7) - unat j = (6 * (length ds + k) + 7) div 8 - k"
    unfolding f(3,4) by (simp add: drop_bit_eq_div mult.commute)
  then show ?thesis using Inr p out by (auto simp: sec_base64_decode_def Let_def mem_write_def)
qed

end
