(* ===== verification/Awoke_String.thy ===== *)
theory Awoke_String
  imports Prelude
begin

text \<open>
  The string helpers of \<open>lib/libutil/src/awoke_string.c\<close>: duplication, character search,
  hexadecimal text and binary coded decimal. A C string is a block of bytes that is expected
  to hold a NUL; a NULL pointer is \<open>None\<close>. \<open>sprintf\<close> of one nibble with \<open>%X\<close> and \<open>%u\<close> is
  written out. Reads go one character at a time, in the order the code evaluates them, so a
  read behind the block is \<open>None\<close>.
\<close>

section \<open>Model\<close>

fun c_strlen :: "bytes \<Rightarrow> nat option" where
  "c_strlen [] = None"
| "c_strlen (c # s) = (if c = 0 then Some 0 else map_option Suc (c_strlen s))"

definition awoke_string_dup :: "allocator \<Rightarrow> bytes option \<Rightarrow> bytes option option" where
  "awoke_string_dup alloc s = (case s of
      None \<Rightarrow> Some None
    | Some m \<Rightarrow> do {
        len \<leftarrow> c_strlen m;
        if alloc (len + 1) then Some (Some (take len m @ [0])) else None })"

fun c_memchr :: "bytes \<Rightarrow> u8 \<Rightarrow> nat \<Rightarrow> int \<Rightarrow> int option" where
  "c_memchr m c 0 i = Some (-1)"
| "c_memchr [] c (Suc n) i = None"
| "c_memchr (x # m) c (Suc n) i = (if x = c then Some i else c_memchr m c n (i + 1))"

definition awoke_string_char_search :: "bytes \<Rightarrow> int \<Rightarrow> int \<Rightarrow> int option" where
  "awoke_string_char_search s c len = do {
     n \<leftarrow> (if len < 0 then c_strlen s else Some (nat len));
     c_memchr s (of_int c) n 0 }"

definition sprintf_X :: "u8 \<Rightarrow> bytes" where
  "sprintf_X v = [if v < 10 then 48 + v else 55 + v]"

definition sprintf_u :: "u8 \<Rightarrow> bytes" where
  "sprintf_u v = (if v < 10 then [48 + v] else [49, 38 + v])"

definition hex_text :: "bytes \<Rightarrow> bytes" where
  "hex_text hs = concat (map (\<lambda>h. sprintf_X (drop_bit 4 (h AND 0xF0)) @ sprintf_X (h AND 0x0F)) hs)"

definition awoke_string_from_hex ::
  "bytes option \<Rightarrow> bytes option \<Rightarrow> u16 \<Rightarrow> (int \<times> bytes option) option" where
  "awoke_string_from_hex hex string hex_len = (case (hex, string) of
      (Some h, Some s) \<Rightarrow>
        (if hex_len = 0 then Some (-1, string)
         else do {
           hs \<leftarrow> mem_read h 0 (unat hex_len);
           s' \<leftarrow> mem_write s 0 (hex_text hs @ [0]);
           Some (int (length (hex_text hs)), Some s') })
    | _ \<Rightarrow> Some (-1, string))"

definition is_hex :: "u8 \<Rightarrow> bool" where
  "is_hex c \<longleftrightarrow> 48 \<le> c \<and> c \<le> 57 \<or> 97 \<le> c \<and> c \<le> 102 \<or> 65 \<le> c \<and> c \<le> 70"

definition c_tolower :: "u8 \<Rightarrow> u8" where
  "c_tolower c = (if 65 \<le> c \<and> c \<le> 90 then c + 32 else c)"

fun string_htoi :: "bytes \<Rightarrow> int \<Rightarrow> int" where
  "string_htoi [] n = n"
| "string_htoi (c # s) n =
     (if is_hex c then
        let a = c_tolower c
        in string_htoi s (if a > 57 then 16 * n + (10 + uint a - 97) else 16 * n + (uint a - 48))
      else n)"

text \<open>\<open>strncpy(hex_c, str, 2)\<close> into a zeroed array of three: the characters before the NUL.\<close>

definition strncpy2 :: "bytes \<Rightarrow> nat \<Rightarrow> bytes option" where
  "strncpy2 s i = do {
     a \<leftarrow> arr_get s (int i);
     if a = 0 then Some []
     else do { b \<leftarrow> arr_get s (int i + 1); Some (if b = 0 then [a] else [a, b]) } }"

fun to_hex_loop :: "nat \<Rightarrow> bytes \<Rightarrow> nat \<Rightarrow> bytes option" where
  "to_hex_loop 0 s i = Some []"
| "to_hex_loop (Suc n) s i = do {
     c \<leftarrow> arr_get s (int i);
     if c = 0 then Some []
     else do {
       hex_c \<leftarrow> strncpy2 s i;
       out \<leftarrow> to_hex_loop n s (i + 2);
       Some (of_int (string_htoi hex_c 0) # out) } }"

definition awoke_string_to_hex ::
  "bytes option \<Rightarrow> bytes option \<Rightarrow> u16 \<Rightarrow> (int \<times> bytes option) option" where
  "awoke_string_to_hex string hex hex_len = (case (hex, string) of
      (Some h, Some s) \<Rightarrow>
        (if hex_len = 0 then Some (-1, hex)
         else if unat hex_len mod 2 \<noteq> 0 then Some (-1, hex)
         else do {
           out \<leftarrow> to_hex_loop (unat hex_len div 2) s 0;
           h' \<leftarrow> mem_write h 0 out;
           Some (int (length out), Some h') })
    | _ \<Rightarrow> Some (-1, hex))"

fun bcd_text :: "bytes \<Rightarrow> nat \<Rightarrow> bytes option" where
  "bcd_text m 0 = Some []"
| "bcd_text [] (Suc n) = None"
| "bcd_text (x # m) (Suc 0) = Some (sprintf_u (x AND 0x0F))"
| "bcd_text (x # m) (Suc (Suc n)) = do {
     t \<leftarrow> bcd_text m n;
     Some (sprintf_u (x AND 0x0F) @ sprintf_u (drop_bit 4 (x AND 0xF0)) @ t) }"

definition awoke_string_bcd2str ::
  "bytes option \<Rightarrow> bytes option \<Rightarrow> u16 \<Rightarrow> (int \<times> bytes option) option" where
  "awoke_string_bcd2str out inp b_len = (case (out, inp) of
      (Some s, Some m) \<Rightarrow>
        (if b_len = 0 then Some (-1, out)
         else do {
           t \<leftarrow> bcd_text m (unat b_len);
           s' \<leftarrow> mem_write s 0 (t @ [0]);
           Some (int (length t), Some s') })
    | _ \<Rightarrow> Some (-1, out))"

definition ctoi :: "u8 \<Rightarrow> int" where
  "ctoi c = (let i = sint c - 48 in if i < 0 \<or> i > 9 then 0 else i)"

definition not_digit :: "u8 \<Rightarrow> bool" where
  "not_digit c \<longleftrightarrow> sint c < 48 \<or> sint c > 57"

text \<open>
  The loop of \<open>str2bcd\<close> and \<open>str2bcdv2\<close>, which differ in how two digits share a byte: the
  bytes written so far and whether every character was a digit.
\<close>

function str2bcd_loop :: "(u8 \<Rightarrow> u8 \<Rightarrow> u8) \<Rightarrow> bytes \<Rightarrow> nat \<Rightarrow> nat \<Rightarrow> bytes \<Rightarrow> (bytes \<times> bool) option" where
  "str2bcd_loop comb s len i w =
     (if i + 1 < len then do {
        a \<leftarrow> arr_get s (int i);
        if not_digit a then Some (w, False)
        else do {
          b \<leftarrow> arr_get s (int i + 1);
          if not_digit b then Some (w, False)
          else str2bcd_loop comb s len (i + 2) (w @ [comb (of_int (ctoi a)) (of_int (ctoi b))]) } }
      else if len mod 2 \<noteq> 0 then do {
        a \<leftarrow> arr_get s (int len - 1);
        if not_digit a then Some (w, False) else Some (w @ [of_int (ctoi a)], True) }
      else Some (w, True))"
  by pat_completeness auto
termination by (relation "measure (\<lambda>(comb, s, len, i, w). len - i)") auto

declare str2bcd_loop.simps [simp del]

definition str2bcd_with ::
  "(u8 \<Rightarrow> u8 \<Rightarrow> u8) \<Rightarrow> bytes option \<Rightarrow> bytes option \<Rightarrow> u16 \<Rightarrow> (int \<times> bytes option) option" where
  "str2bcd_with comb bin str bin_len = (case (bin, str) of
      (Some m, Some s) \<Rightarrow>
        (if bin_len = 0 then Some (-1, bin)
         else do {
           (w, ok) \<leftarrow> str2bcd_loop comb s (unat bin_len) 0 [];
           m' \<leftarrow> mem_write m 0 w;
           Some (if ok then uint bin_len else -1, Some m') })
    | _ \<Rightarrow> Some (-1, bin))"

definition nibbles :: "u8 \<Rightarrow> u8 \<Rightarrow> u8" where
  "nibbles d1 d2 = d1 OR (push_bit 4 d2 AND 0xFF)"

definition awoke_string_str2bcd ::
  "bytes option \<Rightarrow> bytes option \<Rightarrow> u16 \<Rightarrow> (int \<times> bytes option) option" where
  "awoke_string_str2bcd = str2bcd_with (\<lambda>d1 d2. nibbles d1 d2)"

definition awoke_string_str2bcdv2 ::
  "bytes option \<Rightarrow> bytes option \<Rightarrow> u16 \<Rightarrow> (int \<times> bytes option) option" where
  "awoke_string_str2bcdv2 = str2bcd_with (\<lambda>d2 d1. nibbles d1 d2)"

section \<open>Hexadecimal text\<close>

text \<open>Facts about all byte values, checked by evaluation.\<close>

lemma byte_cases:
  assumes "list_all (\<lambda>k. P (of_nat k)) [0..<256]"
  shows "P (x::u8)"
proof -
  have "unat x \<in> set [0..<256]" using unat_u8_less[of x] by simp
  with assms have "P (of_nat (unat x))" unfolding list_all_iff by (rule bspec)
  then show ?thesis by simp
qed

lemma hex_pair:
  "string_htoi (sprintf_X (drop_bit 4 (h AND 0xF0)) @ sprintf_X (h AND 0x0F)) 0 = uint (h::u8) \<and>
   (\<forall>c \<in> set (sprintf_X (drop_bit 4 (h AND 0xF0)) @ sprintf_X (h AND 0x0F)). c \<noteq> 0)"
  by (rule byte_cases[where P = "\<lambda>h. string_htoi (sprintf_X (drop_bit 4 (h AND 0xF0)) @ sprintf_X (h AND 0x0F)) 0 = uint (h::u8) \<and>
   (\<forall>c \<in> set (sprintf_X (drop_bit 4 (h AND 0xF0)) @ sprintf_X (h AND 0x0F)). c \<noteq> 0)"]) code_simp

lemma hex_text_Cons: "hex_text (h # hs) = sprintf_X (drop_bit 4 (h AND 0xF0)) @ sprintf_X (h AND 0x0F) @ hex_text hs"
  by (simp add: hex_text_def)

lemma hex_text_length [simp]: "length (hex_text hs) = 2 * length hs"
  by (induction hs) (auto simp: hex_text_def sprintf_X_def)

lemma to_hex_loop_text:
  assumes "i \<le> length s" "take (2 * length hs) (drop i s) = hex_text hs" "i + 2 * length hs \<le> length s"
  shows "to_hex_loop (length hs) s i = Some hs"
  using assms
proof (induction hs arbitrary: i)
  case (Cons h hs)
  obtain a b where ab: "sprintf_X (drop_bit 4 (h AND 0xF0)) = [a]" "sprintf_X (h AND 0x0F) = [b]"
    by (simp add: sprintf_X_def)
  then have p: "string_htoi [a, b] 0 = uint h" "a \<noteq> 0" "b \<noteq> 0" using hex_pair[of h] by auto
  obtain r where r: "drop i s = a # b # r" "take (2 * length hs) r = hex_text hs"
    using Cons.prems(2,3) unfolding hex_text_Cons ab by (cases "drop i s"; cases "tl (drop i s)") auto
  note d = drop_two[OF r(1)]
  have n: "nat (int i + 1) = Suc i" by simp
  have "to_hex_loop (length hs) s (i + 2) = Some hs"
    using Cons.prems(3) r(2) d(3) by (intro Cons.IH) auto
  then show ?case using p d(1,2,4) by (simp add: arr_get_def strncpy2_def n)
qed simp

section \<open>Binary coded decimal\<close>

text \<open>A byte that holds a decimal digit of text.\<close>

definition digit :: "u8 \<Rightarrow> bool" where "digit c \<longleftrightarrow> 48 \<le> c \<and> c \<le> 57"

lemma digit_cases: "digit c \<Longrightarrow> c \<in> {48, 49, 50, 51, 52, 53, 54, 55, 56, 57}"
  by (rule byte_cases[where P = "\<lambda>c. digit c \<longrightarrow> c \<in> {48, 49, 50, 51, 52, 53, 54, 55, 56, 57}", THEN mp])
     (code_simp, assumption)

lemma digit_facts: "digit c \<Longrightarrow> \<not> not_digit c \<and> sprintf_u (of_int (ctoi c) AND 0x0F) = [c]"
  by (drule digit_cases) (auto simp: not_digit_def ctoi_def sprintf_u_def)

lemma digit_pair:
  assumes "digit a" "digit b"
  shows "sprintf_u (nibbles (of_int (ctoi a)) (of_int (ctoi b)) AND 0x0F) = [a]"
    "sprintf_u (drop_bit 4 (nibbles (of_int (ctoi a)) (of_int (ctoi b)) AND 0xF0)) = [b]"
proof -
  have "list_all (\<lambda>a. list_all (\<lambda>b.
      sprintf_u (nibbles (of_int (ctoi a)) (of_int (ctoi b)) AND 0x0F) = [a] \<and>
      sprintf_u (drop_bit 4 (nibbles (of_int (ctoi a)) (of_int (ctoi b)) AND 0xF0)) = [b])
      [48, 49, 50, 51, 52, 53, 54, 55, 56, 57]) [48, 49, 50, 51, 52, 53, 54, 55, 56, 57]"
    by code_simp
  then show "sprintf_u (nibbles (of_int (ctoi a)) (of_int (ctoi b)) AND 0x0F) = [a]"
    "sprintf_u (drop_bit 4 (nibbles (of_int (ctoi a)) (of_int (ctoi b)) AND 0xF0)) = [b]"
    using digit_cases[OF assms(1)] digit_cases[OF assms(2)] unfolding list_all_iff set_simps by blast+
qed


fun bcd_pack :: "(u8 \<Rightarrow> u8 \<Rightarrow> u8) \<Rightarrow> bytes \<Rightarrow> bytes" where
  "bcd_pack comb (a # b # r) = comb (of_int (ctoi a)) (of_int (ctoi b)) # bcd_pack comb r"
| "bcd_pack comb [a] = [of_int (ctoi a)]"
| "bcd_pack comb [] = []"

fun swap_pairs :: "'a list \<Rightarrow> 'a list" where
  "swap_pairs (a # b # r) = b # a # swap_pairs r"
| "swap_pairs xs = xs"

lemma bcd_pack_length: "length (bcd_pack comb ds) = (length ds + 1) div 2"
  by (induction comb ds rule: bcd_pack.induct) auto

lemma str2bcd_loop_digits:
  assumes "\<forall>c \<in> set (take len s). digit c" "len \<le> length s" "even i" "i \<le> len"
  shows "str2bcd_loop comb s len i w = Some (w @ bcd_pack comb (drop i (take len s)), True)"
  using assms(3,4)
proof (induction "len - i" arbitrary: i w rule: less_induct)
  case less
  have dig: "digit (s ! k)" if "k < len" for k using assms(1,2) that nth_mem[of k "take len s"] by auto
  consider (two) "i + 1 < len" | (one) "i + 1 = len" | (none) "i = len" using less.prems(2) by linarith
  then show ?case
  proof cases
    case two
    have "i < len" "Suc i < len" using two by auto
    then have "drop i (take len s) = s ! i # s ! Suc i # drop (i + 2) (take len s)"
      using assms(2) by (simp add: Cons_nth_drop_Suc[symmetric])
    moreover have "str2bcd_loop comb s len (i + 2) v = Some (v @ bcd_pack comb (drop (i + 2) (take len s)), True)" for v
      using two less.prems by (intro less.hyps) auto
    moreover have "nat (int i + 1) = Suc i" by simp
    ultimately show ?thesis using two assms(2) digit_facts[OF dig[of i]] digit_facts[OF dig[of "Suc i"]]
      by (subst str2bcd_loop.simps) (simp add: arr_get_def)
  next
    case one
    then have "drop i (take len s) = [s ! i]" "len mod 2 = 1" "i < len"
      using assms(2) less.prems(1) by (auto simp: Cons_nth_drop_Suc[symmetric] mod2_eq_if)
    moreover have "arr_get s (int len - 1) = Some (s ! i)" using one assms(2) by (auto simp: arr_get_def)
    ultimately show ?thesis using one digit_facts[OF dig[of i]] by (subst str2bcd_loop.simps) simp
  next
    case none
    then show ?thesis using less.prems(1) by (subst str2bcd_loop.simps) auto
  qed
qed

lemma bcd_text_pack:
  assumes "\<forall>c \<in> set ds. digit c"
  shows "bcd_text (bcd_pack (\<lambda>d1 d2. nibbles d1 d2) ds @ r) (length ds) = Some ds"
    and "bcd_text (bcd_pack (\<lambda>d2 d1. nibbles d1 d2) ds @ r) (length ds) = Some (swap_pairs ds)"
  using assms by (induction ds rule: swap_pairs.induct) (simp_all add: digit_facts digit_pair[simplified])

section \<open>Properties\<close>

text \<open>Hexadecimal round trip. Writing bytes as hexadecimal text and reading the text back gives the
  same bytes, for every byte value; both directions stay inside their buffers.\<close>

theorem awoke_string_hex_round_trip:
  assumes "hs \<noteq> []" "length hs < 32768" "length s = 2 * length hs + 1" "length hs \<le> length buf"
  shows "\<exists>s' buf'. awoke_string_from_hex (Some hs) (Some s) (of_nat (length hs)) = Some (2 * int (length hs), Some s') \<and>
           awoke_string_to_hex (Some s') (Some buf) (of_nat (2 * length hs)) = Some (int (length hs), Some buf') \<and>
           take (length hs) buf' = hs"
proof -
  let ?n = "length hs"
  have n: "0 < ?n" using assms(1) by simp
  have u: "unat (of_nat ?n :: u16) = ?n" "unat (of_nat (2 * ?n) :: u16) = 2 * ?n" using assms(2) by (simp_all add: unat_of_nat del: of_nat_mult)
  have "unat (of_nat ?n :: u16) \<noteq> unat (0::u16)" "unat (of_nat (2 * ?n) :: u16) \<noteq> unat (0::u16)" unfolding u using n by simp_all
  then have nz: "(of_nat ?n :: u16) \<noteq> 0" "(of_nat (2 * ?n) :: u16) \<noteq> 0" by metis+
  let ?s = "hex_text hs @ [0]"
  have f: "awoke_string_from_hex (Some hs) (Some s) (of_nat ?n) = Some (2 * int ?n, Some ?s)"
    using nz(1) u(1) assms(3) by (simp add: awoke_string_from_hex_def mem_read_def mem_write_def)
  have "to_hex_loop ?n ?s 0 = Some hs" by (rule to_hex_loop_text) auto
  then have t: "awoke_string_to_hex (Some ?s) (Some buf) (of_nat (2 * ?n)) = Some (int ?n, Some (hs @ drop ?n buf))"
    using nz(2) u(2) assms(4) unfolding awoke_string_to_hex_def by (simp add: mem_write_def del: of_nat_mult)
  from f t show ?thesis by auto
qed

theorem awoke_string_hex_round_trip_witness:
  "\<exists>s' buf'. awoke_string_from_hex (Some [0x1F, 0xA0]) (Some (zeros 5)) 2 = Some (4, Some s') \<and>
     awoke_string_to_hex (Some s') (Some (zeros 2)) 4 = Some (2, Some buf') \<and> take (Suc (Suc 0)) buf' = [0x1F, 0xA0]"
  using awoke_string_hex_round_trip[of "[0x1F, 0xA0]" "zeros 5" "zeros 2"] by auto

text \<open>Decimal round trip. Packing a string of decimal digits as BCD and unpacking it gives back the
  digits; the second packing routine stores each pair the other way round, so unpacking its result swaps
  the digits of every pair.\<close>

theorem awoke_string_bcd_round_trip:
  assumes "ds \<noteq> []" "length ds < 65536" "\<forall>c \<in> set ds. digit c"
    and "length bin = (length ds + 1) div 2" "length out = length ds + 1"
  shows "\<exists>bin' bin2 out' out2. awoke_string_str2bcd (Some bin) (Some ds) (of_nat (length ds)) = Some (int (length ds), Some bin') \<and>
           awoke_string_bcd2str (Some out) (Some bin') (of_nat (length ds)) = Some (int (length ds), Some out') \<and>
           take (length ds) out' = ds \<and>
           awoke_string_str2bcdv2 (Some bin) (Some ds) (of_nat (length ds)) = Some (int (length ds), Some bin2) \<and>
           awoke_string_bcd2str (Some out) (Some bin2) (of_nat (length ds)) = Some (int (length ds), Some out2) \<and>
           take (length ds) out2 = swap_pairs ds"
proof -
  let ?n = "length ds" and ?b = "of_nat (length ds) :: u16"
  have u: "unat ?b = ?n" "uint ?b = int ?n" using assms(2) by (simp_all add: unat_of_nat uint_nat)
  have nz: "?b \<noteq> 0" using u(1) assms(1) by (metis unat_0 length_0_conv)
  have pack: "str2bcd_with comb (Some bin) (Some ds) ?b = Some (int ?n, Some (bcd_pack comb ds))" for comb
    using str2bcd_loop_digits[of ?n ds 0 comb "[]"] assms(3,4) nz
    by (simp add: str2bcd_with_def u mem_write_def bcd_pack_length)
  have unp: "awoke_string_bcd2str (Some out) (Some (bcd_pack comb ds)) ?b = Some (int ?n, Some (t @ [0]))"
    if "bcd_text (bcd_pack comb ds) ?n = Some t" "length t = ?n" for comb t
    using that nz assms(5) by (simp add: awoke_string_bcd2str_def u mem_write_def)
  have l: "length (swap_pairs ds) = ?n" by (induction ds rule: swap_pairs.induct) auto
  note b = bcd_text_pack[OF assms(3), of "[]", unfolded append_Nil2]
  show ?thesis
    unfolding awoke_string_str2bcd_def awoke_string_str2bcdv2_def
    using pack unp[OF b(1) refl] unp[OF b(2) l] l by auto
qed

theorem awoke_string_bcd_round_trip_witness:
  "\<exists>bin' out'. awoke_string_str2bcd (Some (zeros 2)) (Some [49, 50, 51]) 3 = Some (3, Some bin') \<and>
     awoke_string_bcd2str (Some (zeros 4)) (Some bin') 3 = Some (3, Some out') \<and> take (Suc (Suc (Suc 0))) out' = [49, 50, 51]"
  using awoke_string_bcd_round_trip[of "[49, 50, 51]" "zeros 2" "zeros 4"]
  by (auto simp: digit_def)

text \<open>
  Two ways the helpers leave their buffers: a nibble above nine prints as two characters, so
  unpacking \<open>0xFF\<close> overruns a buffer sized for two digits; and reading hexadecimal text steps by
  two over the NUL of a string of odd length.
\<close>

theorem awoke_string_overruns:
  "awoke_string_bcd2str (Some (zeros 3)) (Some [0xFF]) 2 = None \<and>
   awoke_string_to_hex (Some [65, 66, 67, 0]) (Some (zeros 3)) 6 = None"
  by code_simp

end
