(* ===== verification/Awoke_Package.thy ===== *)
theory Awoke_Package
  imports Prelude
begin

text \<open>
  The checksums and byte-order helpers of \<open>lib/libutil/src/awoke_package.c\<close> and its header.
  A buffer and the length passed with it are a byte list; every routine reads exactly that
  many bytes. The CRC is shown equal to its bitwise definition (\<open>crc_bits\<close>, reflected
  polynomial \<open>0xA001\<close>), the 16-bit sum to be an Internet checksum.
\<close>

section \<open>Model\<close>

definition MbTable :: "u16 list" where
  "MbTable = [
     0x0000, 0xC0C1, 0xC181, 0x0140, 0xC301, 0x03C0, 0x0280, 0xC241,
     0xC601, 0x06C0, 0x0780, 0xC741, 0x0500, 0xC5C1, 0xC481, 0x0440,
     0xCC01, 0x0CC0, 0x0D80, 0xCD41, 0x0F00, 0xCFC1, 0xCE81, 0x0E40,
     0x0A00, 0xCAC1, 0xCB81, 0x0B40, 0xC901, 0x09C0, 0x0880, 0xC841,
     0xD801, 0x18C0, 0x1980, 0xD941, 0x1B00, 0xDBC1, 0xDA81, 0x1A40,
     0x1E00, 0xDEC1, 0xDF81, 0x1F40, 0xDD01, 0x1DC0, 0x1C80, 0xDC41,
     0x1400, 0xD4C1, 0xD581, 0x1540, 0xD701, 0x17C0, 0x1680, 0xD641,
     0xD201, 0x12C0, 0x1380, 0xD341, 0x1100, 0xD1C1, 0xD081, 0x1040,
     0xF001, 0x30C0, 0x3180, 0xF141, 0x3300, 0xF3C1, 0xF281, 0x3240,
     0x3600, 0xF6C1, 0xF781, 0x3740, 0xF501, 0x35C0, 0x3480, 0xF441,
     0x3C00, 0xFCC1, 0xFD81, 0x3D40, 0xFF01, 0x3FC0, 0x3E80, 0xFE41,
     0xFA01, 0x3AC0, 0x3B80, 0xFB41, 0x3900, 0xF9C1, 0xF881, 0x3840,
     0x2800, 0xE8C1, 0xE981, 0x2940, 0xEB01, 0x2BC0, 0x2A80, 0xEA41,
     0xEE01, 0x2EC0, 0x2F80, 0xEF41, 0x2D00, 0xEDC1, 0xEC81, 0x2C40,
     0xE401, 0x24C0, 0x2580, 0xE541, 0x2700, 0xE7C1, 0xE681, 0x2640,
     0x2200, 0xE2C1, 0xE381, 0x2340, 0xE101, 0x21C0, 0x2080, 0xE041,
     0xA001, 0x60C0, 0x6180, 0xA141, 0x6300, 0xA3C1, 0xA281, 0x6240,
     0x6600, 0xA6C1, 0xA781, 0x6740, 0xA501, 0x65C0, 0x6480, 0xA441,
     0x6C00, 0xACC1, 0xAD81, 0x6D40, 0xAF01, 0x6FC0, 0x6E80, 0xAE41,
     0xAA01, 0x6AC0, 0x6B80, 0xAB41, 0x6900, 0xA9C1, 0xA881, 0x6840,
     0x7800, 0xB8C1, 0xB981, 0x7940, 0xBB01, 0x7BC0, 0x7A80, 0xBA41,
     0xBE01, 0x7EC0, 0x7F80, 0xBF41, 0x7D00, 0xBDC1, 0xBC81, 0x7C40,
     0xB401, 0x74C0, 0x7580, 0xB541, 0x7700, 0xB7C1, 0xB681, 0x7640,
     0x7200, 0xB2C1, 0xB381, 0x7340, 0xB101, 0x71C0, 0x7080, 0xB041,
     0x5000, 0x90C1, 0x9181, 0x5140, 0x9301, 0x53C0, 0x5280, 0x9241,
     0x9601, 0x56C0, 0x5780, 0x9741, 0x5500, 0x95C1, 0x9481, 0x5440,
     0x9C01, 0x5CC0, 0x5D80, 0x9D41, 0x5F00, 0x9FC1, 0x9E81, 0x5E40,
     0x5A00, 0x9AC1, 0x9B81, 0x5B40, 0x9901, 0x59C0, 0x5880, 0x9841,
     0x8801, 0x48C0, 0x4980, 0x8941, 0x4B00, 0x8BC1, 0x8A81, 0x4A40,
     0x4E00, 0x8EC1, 0x8F81, 0x4F40, 0x8D01, 0x4DC0, 0x4C80, 0x8C41,
     0x4400, 0x84C1, 0x8581, 0x4540, 0x8701, 0x47C0, 0x4680, 0x8641,
     0x8201, 0x42C0, 0x4380, 0x8341, 0x4100, 0x81C1, 0x8081, 0x4040]"

text \<open>
  \<open>awoke_checksum_u16\<close>: the sum of the little-endian 16-bit words in a signed 32-bit
  accumulator, whose overflow is undefined, then the folding loop.
\<close>

definition add_i32 :: "int \<Rightarrow> int \<Rightarrow> int option" where
  "add_i32 a b = (if - (2 ^ 31) \<le> a + b \<and> a + b < 2 ^ 31 then Some (a + b) else None)"

fun sum_u16 :: "bytes \<Rightarrow> int \<Rightarrow> int option" where
  "sum_u16 (a # b # data) sm = do { sm' \<leftarrow> add_i32 sm (uint a + 256 * uint b); sum_u16 data sm' }"
| "sum_u16 [a] sm = add_i32 sm (uint a)"
| "sum_u16 [] sm = Some sm"

partial_function (option) fold16 :: "int \<Rightarrow> int option" where
  "fold16 sm = (if drop_bit 16 sm \<noteq> 0 then fold16 ((sm AND 0xffff) + drop_bit 16 sm) else Some sm)"

definition awoke_checksum_u16 :: "bytes \<Rightarrow> u16 option" where
  "awoke_checksum_u16 data = do { sm \<leftarrow> sum_u16 data 0; s \<leftarrow> fold16 sm; Some (of_int (NOT s)) }"

fun crc16_loop :: "bytes \<Rightarrow> u16 \<Rightarrow> u16" where
  "crc16_loop [] crc = crc"
| "crc16_loop (b # data) crc =
     (let n = ucast (ucast b XOR crc) :: u8
      in crc16_loop data (drop_bit 8 crc XOR MbTable ! unat n))"

definition awoke_crc16 :: "bytes \<Rightarrow> u16" where
  "awoke_crc16 data = crc16_loop data 0xffff"

definition awoke_checksum_8 :: "bytes \<Rightarrow> u8" where
  "awoke_checksum_8 buf = fold (\<lambda>b sum. sum + b) buf 0"

definition awoke_checksum_32 :: "bytes \<Rightarrow> u32" where
  "awoke_checksum_32 buf = fold (\<lambda>b sum. sum + ucast b) buf 0"

definition awoke_biglittle_swap16 :: "u16 \<Rightarrow> u16" where
  "awoke_biglittle_swap16 a = drop_bit 8 (a AND 0xff00) OR push_bit 8 (a AND 0x00ff)"

definition awoke_biglittle_swap32 :: "u32 \<Rightarrow> u32" where
  "awoke_biglittle_swap32 a =
     drop_bit 24 (a AND 0xff000000) OR drop_bit 8 (a AND 0x00ff0000) OR
     push_bit 8 (a AND 0x0000ff00) OR push_bit 24 (a AND 0x000000ff)"

text \<open>
  The byte-order test stores \<open>0x12345678\<close> in an \<open>unsigned long\<close> and reads its first byte. What
  it sees depends on the target: its byte order and the size of an \<open>unsigned long\<close>.
\<close>

datatype endian = Little | Big

definition ulong_bytes :: "endian \<Rightarrow> nat \<Rightarrow> int \<Rightarrow> bytes" where
  "ulong_bytes e sz v = (let le = map (\<lambda>i. of_int (v div 256 ^ i)) [0..<sz] in case e of Little \<Rightarrow> le | Big \<Rightarrow> rev le)"

definition awoke_cpu_endian :: "endian \<Rightarrow> nat \<Rightarrow> bool" where
  "awoke_cpu_endian e sz \<longleftrightarrow> ulong_bytes e sz 0x12345678 ! 0 = 0x12"

definition awoke_htonl :: "endian \<Rightarrow> nat \<Rightarrow> u64 \<Rightarrow> u64" where
  "awoke_htonl e sz x = (if awoke_cpu_endian e sz then x else ucast (awoke_biglittle_swap32 (ucast x)))"

definition awoke_htons :: "endian \<Rightarrow> nat \<Rightarrow> u16 \<Rightarrow> u16" where
  "awoke_htons e sz x = (if awoke_cpu_endian e sz then x else awoke_biglittle_swap16 x)"

section \<open>The CRC bit by bit\<close>

definition crc_bit :: "u16 \<Rightarrow> u16" where
  "crc_bit x = (if bit x 0 then drop_bit 1 x XOR 0xA001 else drop_bit 1 x)"

fun crc_bits :: "nat \<Rightarrow> u16 \<Rightarrow> u16" where
  "crc_bits 0 x = x"
| "crc_bits (Suc n) x = crc_bits n (crc_bit x)"

fun crc16_spec :: "bytes \<Rightarrow> u16 \<Rightarrow> u16" where
  "crc16_spec [] crc = crc"
| "crc16_spec (b # data) crc = crc16_spec data (crc_bits 8 (crc XOR ucast b))"

lemma crc_bit_xor: "crc_bit (x XOR y) = crc_bit x XOR crc_bit y"
  by (rule bit_eqI) (auto simp: crc_bit_def bit_simps)

lemma crc_bits_xor: "crc_bits n (x XOR y) = crc_bits n x XOR crc_bits n y"
  by (induction n arbitrary: x y) (simp_all add: crc_bit_xor)

lemma crc_bits_high: "take_bit n y = 0 \<Longrightarrow> crc_bits n y = drop_bit n y"
proof (induction n arbitrary: y)
  case (Suc n)
  have "\<not> bit y 0" using Suc.prems by (metis bit_take_bit_iff zero_less_Suc bit_0_eq bot_apply bot_bool_def)
  then have b: "crc_bit y = drop_bit 1 y" by (simp add: crc_bit_def)
  have "take_bit n (drop_bit 1 y) = drop_bit 1 (take_bit (Suc n) y)" by (simp add: drop_bit_take_bit)
  then have "take_bit n (drop_bit 1 y) = 0" using Suc.prems by simp
  from Suc.IH[OF this] show ?case by (simp add: b drop_bit_drop_bit)
qed simp

text \<open>
  The table is linear in its index, so it is enough to evaluate the bitwise steps on the
  sixteen low and the sixteen high nibbles.
\<close>

definition crc_low :: "u16 list" where "crc_low = map (\<lambda>j. crc_bits 8 (of_nat j)) [0..<16]"
definition crc_high :: "u16 list" where "crc_high = map (\<lambda>i. crc_bits 8 (of_nat (16 * i))) [0..<16]"

lemma nth_rows:
  "k < length hs * length ls \<Longrightarrow>
     concat (map (\<lambda>h. map (f h) ls) hs) ! k = f (hs ! (k div length ls)) (ls ! (k mod length ls))"
proof (induction hs arbitrary: k)
  case (Cons h hs)
  have n: "0 < length ls" using Cons.prems by (cases ls) auto
  show ?case
  proof (cases "k < length ls")
    case False
    then have "k div length ls = Suc ((k - length ls) div length ls)" "k mod length ls = (k - length ls) mod length ls"
      using n by (simp_all add: le_div_geq le_mod_geq)
    then show ?thesis using Cons.IH[of "k - length ls"] Cons.prems False by (simp add: nth_append)
  qed (simp add: nth_append)
qed simp

lemma table_rows: "MbTable = concat (map (\<lambda>h. map (\<lambda>l. h XOR l) crc_low) crc_high)"
proof -
  have low: "crc_low = take 16 MbTable" and high: "crc_high = map (\<lambda>i. MbTable ! (16 * i)) [0..<16]"
    by code_simp+
  show ?thesis unfolding low high by code_simp
qed

lemma table_entry:
  assumes "k < 256"
  shows "MbTable ! k = crc_bits 8 (of_nat k)"
proof -
  have "k = 16 * (k div 16) XOR k mod 16"
  proof -
    have "push_bit 4 (drop_bit 4 k) XOR take_bit 4 k = k" by (rule bit_eqI) (auto simp: bit_simps)
    then show ?thesis by (simp add: push_bit_eq_mult drop_bit_eq_div take_bit_eq_mod mult.commute)
  qed
  then have "of_nat k = (of_nat (16 * (k div 16)) XOR of_nat (k mod 16) :: u16)" by (metis of_nat_xor_eq)
  then have "crc_bits 8 (of_nat k) = crc_high ! (k div 16) XOR crc_low ! (k mod 16)"
  proof -
    have "k div 16 < 16" "k mod 16 < 16" using assms by auto
    then show ?thesis using \<open>of_nat k = _\<close> by (simp add: crc_bits_xor crc_high_def crc_low_def del: crc_bits.simps of_nat_mult)
  qed
  moreover have "length crc_low = 16" "length crc_high = 16" by (simp_all add: crc_low_def crc_high_def)
  then have "MbTable ! k = crc_high ! (k div 16) XOR crc_low ! (k mod 16)"
    using nth_rows[of k crc_high crc_low "\<lambda>h l. h XOR l"] assms unfolding table_rows by simp
  ultimately show ?thesis by simp
qed

lemma crc_step:
  "drop_bit 8 crc XOR MbTable ! unat (ucast (ucast b XOR crc) :: u8) = crc_bits 8 (crc XOR ucast (b::u8))"
proof -
  let ?x = "crc XOR ucast b :: u16"
  let ?l = "take_bit 8 ?x" and ?h = "push_bit 8 (drop_bit 8 ?x)"
  have x: "?x = ?h XOR ?l" by (rule bit_eqI) (auto simp: bit_simps)
  have "unat (ucast ?x :: u8) = unat ?l" by (simp only: unsigned_ucast_eq unsigned_take_bit_eq) simp
  then have l: "of_nat (unat (ucast ?x :: u8)) = ?l" by simp
  have h: "crc_bits 8 ?h = drop_bit 8 crc"
  proof -
    have "take_bit 8 ?h = 0" by (rule bit_eqI) (auto simp: bit_simps)
    then have "crc_bits 8 ?h = drop_bit 8 ?h" by (rule crc_bits_high)
    also have "\<dots> = drop_bit 8 crc" by (rule bit_eqI) (auto simp: bit_simps dest: bit_imp_le_length)
    finally show ?thesis .
  qed
  have "MbTable ! unat (ucast ?x :: u8) = crc_bits 8 ?l" using table_entry[OF unat_u8_less[of "ucast ?x"]] unfolding l .
  then have "drop_bit 8 crc XOR MbTable ! unat (ucast ?x :: u8) = crc_bits 8 ?h XOR crc_bits 8 ?l" by (simp only: h)
  also have "\<dots> = crc_bits 8 (?h XOR ?l)" by (rule crc_bits_xor[symmetric])
  also have "\<dots> = crc_bits 8 ?x" by (simp only: x[symmetric])
  finally show ?thesis by (simp only: xor.commute[of "ucast b" crc])
qed


section \<open>The Internet checksum\<close>

fun word_sum :: "bytes \<Rightarrow> int" where
  "word_sum (a # b # data) = uint a + 256 * uint b + word_sum data"
| "word_sum [a] = uint a"
| "word_sum [] = 0"

lemma uint_u8: "0 \<le> uint (a::u8)" "uint (a::u8) \<le> 255"
  using unsigned_less[of a, where 'a = int] by auto

lemma word_sum_bounds: "0 \<le> word_sum data \<and> word_sum data \<le> 65535 * ((int (length data) + 1) div 2)"
proof (induction data rule: word_sum.induct)
  case (1 a b data)
  have "(int (length (a # b # data)) + 1) div 2 = (int (length data) + 1) div 2 + 1" by simp
  with 1 uint_u8[of a] uint_u8[of b] show ?case by simp
next
  case (2 a)
  then show ?case using uint_u8[of a] by simp
qed simp

lemma add_i32_nonneg: "0 \<le> a \<Longrightarrow> 0 \<le> b \<Longrightarrow> a + b < 2 ^ 31 \<Longrightarrow> add_i32 a b = Some (a + b)"
  by (simp add: add_i32_def)

lemma sum_u16_ok:
  "0 \<le> s \<Longrightarrow> s + word_sum data < 2 ^ 31 \<Longrightarrow> sum_u16 data s = Some (s + word_sum data)"
proof (induction data s rule: sum_u16.induct)
  case (1 a b data s)
  have hi: "s + (uint a + 256 * uint b) < 2 ^ 31" using 1(3) word_sum_bounds[of data] by simp
  then have "add_i32 s (uint a + 256 * uint b) = Some (s + (uint a + 256 * uint b))"
    using 1(2) by (intro add_i32_nonneg) simp_all
  then show ?case using 1 uint_u8[of a] uint_u8[of b] by (simp add: add.assoc)
next
  case (2 a s)
  then show ?case by (simp add: add_i32_nonneg)
qed simp

lemma fold16_ok:
  assumes "0 \<le> s"
  shows "\<exists>r. fold16 s = Some r \<and> 0 \<le> r \<and> r < 65536 \<and> r mod 65535 = s mod 65535 \<and> (r = 0 \<longleftrightarrow> s = 0)"
  using assms
proof (induction "nat s" arbitrary: s rule: less_induct)
  case less
  show ?case
  proof (cases "s < 65536")
    case True
    then have "drop_bit 16 s = 0" using less.prems by (simp add: drop_bit_eq_div)
    then show ?thesis using less.prems True by (subst fold16.simps) simp
  next
    case False
    let ?s = "s mod 65536 + s div 65536"
    have d: "drop_bit 16 s = s div 65536" "s AND 0xffff = s mod 65536"
      using take_bit_eq_mask[of 16 s] by (simp_all add: drop_bit_eq_div take_bit_eq_mod mask_eq_exp_minus_1)
    have q: "1 \<le> s div 65536" using False by (simp add: zdiv_mono1[of 65536 s 65536, simplified])
    have s: "s = 65535 * (s div 65536) + ?s" by (simp add: minus_mod_eq_mult_div[symmetric] algebra_simps)
    have "?s < s" using q s by linarith
    then have "nat ?s < nat s" "0 \<le> ?s" using q less.prems by auto
    from less.hyps[OF this] obtain r where
      r: "fold16 ?s = Some r" "0 \<le> r" "r < 65536" "r mod 65535 = ?s mod 65535" "r = 0 \<longleftrightarrow> ?s = 0" by blast
    have "?s \<noteq> 0" using q less.prems pos_mod_sign[of 65536 s] by linarith
    moreover have "?s mod 65535 = s mod 65535" by (subst (3) s) (rule mod_mult_self4[symmetric])
    moreover have "fold16 s = fold16 ?s" using q by (subst fold16.simps) (simp add: d)
    ultimately show ?thesis using r False by auto
  qed
qed

lemma checksum_u16_ok:
  assumes "length data \<le> 65534"
  shows "\<exists>c r. awoke_checksum_u16 data = Some c \<and> uint c = 65535 - r \<and> 0 \<le> r \<and> r < 65536 \<and>
           r mod 65535 = word_sum data mod 65535 \<and> (r = 0 \<longleftrightarrow> word_sum data = 0)"
proof -
  have "(int (length data) + 1) div 2 \<le> 32767" using assms by simp
  then have b: "0 \<le> word_sum data" "word_sum data < 2 ^ 31" using word_sum_bounds[of data] by auto
  obtain r where r: "fold16 (word_sum data) = Some r" "0 \<le> r" "r < 65536" "r mod 65535 = word_sum data mod 65535"
      "r = 0 \<longleftrightarrow> word_sum data = 0" using fold16_ok[OF b(1)] by blast
  have "(NOT r) mod 65536 = 65535 - r"
    using r(2,3) mod_add_self2[of "- r - 1" 65536] mod_pos_pos_trivial[of "65535 - r" 65536] by (simp add: not_int_def)
  then have "uint (of_int (NOT r) :: u16) = 65535 - r" by (simp add: uint_word_of_int)
  moreover have "awoke_checksum_u16 data = Some (of_int (NOT r))"
    using sum_u16_ok[of 0 data] b r(1) by (simp add: awoke_checksum_u16_def)
  ultimately show ?thesis using r by blast
qed

lemma word_sum_append: "even (length xs) \<Longrightarrow> word_sum (xs @ [a, b]) = word_sum xs + uint a + 256 * uint b"
  by (induction xs rule: word_sum.induct) auto

lemma u16_bytes: "uint (ucast c :: u8) + 256 * uint (ucast (drop_bit 8 c) :: u8) = uint (c::u16)"
proof -
  have c: "uint c < 65536" "0 \<le> uint c" using unsigned_less[of c, where 'a = int] by auto
  have "uint (ucast c :: u8) = uint c mod 256" by (simp add: unsigned_ucast_eq take_bit_eq_mod)
  moreover have "uint (ucast (drop_bit 8 c) :: u8) = uint c div 256"
  proof -
    have "0 \<le> uint c div 256" "uint c div 256 < 256" using c by (auto simp: pos_imp_zdiv_nonneg_iff)
    from mod_pos_pos_trivial[OF this] show ?thesis
      by (simp add: unsigned_ucast_eq take_bit_eq_mod drop_bit_eq_div uint_div_distrib)
  qed
  ultimately show ?thesis by simp
qed

section \<open>Byte order\<close>

lemma byte_masks:
  "bit (0x00ff::u16) n \<longleftrightarrow> n < 8" "bit (0xff00::u16) n \<longleftrightarrow> 8 \<le> n \<and> n < 16"
  "bit (0x000000ff::u32) n \<longleftrightarrow> n < 8" "bit (0x0000ff00::u32) n \<longleftrightarrow> 8 \<le> n \<and> n < 16"
  "bit (0x00ff0000::u32) n \<longleftrightarrow> 16 \<le> n \<and> n < 24" "bit (0xff000000::u32) n \<longleftrightarrow> 24 \<le> n \<and> n < 32"
proof -
  have m: "(0x00ff::u16) = mask 8" "(0xff00::u16) = push_bit 8 (mask 8)" "(0x000000ff::u32) = mask 8"
    "(0x0000ff00::u32) = push_bit 8 (mask 8)" "(0x00ff0000::u32) = push_bit 16 (mask 8)"
    "(0xff000000::u32) = push_bit 24 (mask 8)" by code_simp+
  show "bit (0x00ff::u16) n \<longleftrightarrow> n < 8" "bit (0xff00::u16) n \<longleftrightarrow> 8 \<le> n \<and> n < 16"
    "bit (0x000000ff::u32) n \<longleftrightarrow> n < 8" "bit (0x0000ff00::u32) n \<longleftrightarrow> 8 \<le> n \<and> n < 16"
    "bit (0x00ff0000::u32) n \<longleftrightarrow> 16 \<le> n \<and> n < 24" "bit (0xff000000::u32) n \<longleftrightarrow> 24 \<le> n \<and> n < 32"
    by (simp only: m bit_push_bit_iff bit_mask_iff, fastforce)+
qed

lemma swap32_bit:
  "n < 32 \<Longrightarrow> bit (awoke_biglittle_swap32 b) n \<longleftrightarrow>
     bit b (if n < 8 then n + 24 else if n < 16 then n + 8 else if n < 24 then n - 8 else n - 24)"
proof -
  assume n: "n < 32"
  consider "n < 8" | "8 \<le> n" "n < 16" | "16 \<le> n" "n < 24" | "24 \<le> n" using n by linarith
  then show ?thesis
    unfolding awoke_biglittle_swap32_def bit_or_iff bit_drop_bit_eq bit_push_bit_iff bit_and_iff byte_masks o_apply
    by cases (use n in \<open>auto simp: add.commute\<close>)
qed

lemma u16_le_bytes:
  "ulong_bytes Little 2 (uint x) = [ucast x, ucast (drop_bit 8 x)]"
  "ulong_bytes Big 2 (uint x) = [ucast (drop_bit 8 x), ucast (x::u16)]"
proof -
  have "ucast (drop_bit 8 x) = (word_of_int (uint x div 256) :: u8)"
    by (simp add: ucast_eq drop_bit_eq_div uint_div_distrib)
  then have "map (\<lambda>i. word_of_int (uint x div 256 ^ i)) [0..<2] = [ucast x, ucast (drop_bit 8 x) :: u8]"
    by (simp add: upt_conv_Cons)
  then show "ulong_bytes Little 2 (uint x) = [ucast x, ucast (drop_bit 8 x)]"
    "ulong_bytes Big 2 (uint x) = [ucast (drop_bit 8 x), ucast x]"
    by (simp_all add: ulong_bytes_def)
qed

lemma awoke_cpu_endian_cases:
  "\<not> awoke_cpu_endian Little 8" "\<not> awoke_cpu_endian Little 4" "awoke_cpu_endian Big 4" "\<not> awoke_cpu_endian Big 8"
  by (simp_all add: awoke_cpu_endian_def ulong_bytes_def upt_rec)

section \<open>Properties\<close>

text \<open>C12: the table-driven CRC is the bitwise Modbus CRC-16: for every message the loop with the
  256-entry table computes what eight shift-and-conditional-xor steps with the reflected polynomial
  \<open>0xA001\<close> per byte compute, from the initial value \<open>0xffff\<close>.\<close>

theorem awoke_crc16_bitwise: "awoke_crc16 data = crc16_spec data 0xffff"
proof -
  have "crc16_loop data crc = crc16_spec data crc" for crc
    by (induction data arbitrary: crc) (simp_all add: Let_def crc_step del: crc_bits.simps)
  then show ?thesis by (simp add: awoke_crc16_def)
qed

text \<open>The 16-bit checksum verifies. For a message of even length that a datagram can hold the
  signed accumulator does not overflow, the folding loop terminates, and the checksum of the message
  followed by its checksum is zero.\<close>

theorem awoke_checksum_u16_verifies:
  assumes "even (length data)" "length data \<le> 65532"
  shows "\<exists>c. awoke_checksum_u16 data = Some c \<and>
           awoke_checksum_u16 (data @ [ucast c, ucast (drop_bit 8 c)]) = Some 0"
proof -
  obtain c r where c: "awoke_checksum_u16 data = Some c" "uint c = 65535 - r" "0 \<le> r" "r < 65536"
      "r mod 65535 = word_sum data mod 65535" "r = 0 \<longleftrightarrow> word_sum data = 0"
    using checksum_u16_ok[of data] assms(2) by auto
  let ?m = "data @ [ucast c, ucast (drop_bit 8 c)]"
  have w: "word_sum ?m = word_sum data + uint c"
    using word_sum_append[OF assms(1)] u16_bytes[of c] by simp
  obtain d t where d: "awoke_checksum_u16 ?m = Some d" "uint d = 65535 - t" "0 \<le> t" "t < 65536"
      "t mod 65535 = word_sum ?m mod 65535" "t = 0 \<longleftrightarrow> word_sum ?m = 0"
    using checksum_u16_ok[of ?m] assms(2) by auto
  have "word_sum ?m mod 65535 = (word_sum data mod 65535 + (65535 - r)) mod 65535"
    unfolding w c(2) by (simp add: mod_add_left_eq)
  also have "\<dots> = 0" unfolding c(5)[symmetric] by (simp add: mod_add_left_eq)
  finally have z: "t mod 65535 = 0" using d(5) by simp
  have "word_sum ?m \<noteq> 0" using word_sum_bounds[of data] c(2,4,6) unfolding w by auto
  then have "t = 65535" using d(3,4,6) z by (auto elim!: dvdE simp: mod_eq_0_iff_dvd)
  then have "d = 0" using d(2) by (simp add: uint_0_iff)
  with c(1) d(1) show ?thesis by blast
qed

theorem awoke_checksum_u16_verifies_witness:
  "\<exists>c. awoke_checksum_u16 [0x45, 0x00, 0x1C, 0xFF] = Some c \<and>
     awoke_checksum_u16 ([0x45, 0x00, 0x1C, 0xFF] @ [ucast c, ucast (drop_bit 8 c)]) = Some 0"
  using awoke_checksum_u16_verifies[of "[0x45, 0x00, 0x1C, 0xFF]"] by simp

text \<open>Swapping the byte order twice is the identity, and on a little-endian target the conversions
  to network order store the most significant byte first.\<close>

theorem awoke_byte_order_round_trip:
  "awoke_biglittle_swap16 (awoke_biglittle_swap16 a) = a \<and> awoke_biglittle_swap32 (awoke_biglittle_swap32 b) = b \<and>
   ulong_bytes Little 2 (uint (awoke_htons Little 8 a)) = ulong_bytes Big 2 (uint a)"
proof -
  have s16: "awoke_biglittle_swap16 (awoke_biglittle_swap16 a) = a"
    by (rule bit_eqI, simp only: awoke_biglittle_swap16_def bit_simps byte_masks o_apply, auto dest: bit_imp_le_length)
  have s32: "awoke_biglittle_swap32 (awoke_biglittle_swap32 b) = b"
    by (rule bit_eqI) (auto simp: swap32_bit)
  have "ucast (awoke_biglittle_swap16 a) = (ucast (drop_bit 8 a) :: u8)"
    "ucast (drop_bit 8 (awoke_biglittle_swap16 a)) = (ucast a :: u8)"
    by (rule bit_eqI, simp only: awoke_biglittle_swap16_def bit_simps byte_masks o_apply, auto dest: bit_imp_le_length)+
  then show ?thesis using s16 s32 awoke_cpu_endian_cases(1)
    by (simp add: awoke_htons_def u16_le_bytes)
qed

text \<open>
  On a big-endian target with 64-bit \<open>unsigned long\<close> the test reads the zero byte in front of
  \<open>0x12\<close>, reports a little-endian machine, and the conversions swap what is already in order.
\<close>

theorem awoke_cpu_endian_64bit_big:
  "awoke_htons Big 4 x = x \<and> awoke_htons Big 8 x = awoke_biglittle_swap16 x"
  by (simp add: awoke_htons_def awoke_cpu_endian_cases)

end
