(* ===== verification/Vin_Tables.thy ===== *)
theory Vin_Tables
  imports Prelude
begin

text \<open>
  The enumerations of \<open>lib/libvinparser/include/vin_parser.h\<close> and the tables of
  \<open>src/vin_parser.c\<close> and \<open>src/vin_manufac.c\<close>, entry by entry. An enumerator is a constructor, and
  its integer value the position in the enumeration.
\<close>

record vininfo_section =
  sc_code :: string
  sc_id :: nat
  sc_string :: string

datatype vincoun_e =
    vincoun_unknown | vincoun_us | vincoun_ca | vincoun_mx | vincoun_au
  | vincoun_br | vincoun_jp | vincoun_gb | vincoun_kr | vincoun_ch
  | vincoun_cn | vincoun_fr | vincoun_tw | vincoun_de | vincoun_se
  | vincoun_it | vincoun_offset

primrec vincoun_e_id :: "vincoun_e \<Rightarrow> nat" where
  "vincoun_e_id vincoun_unknown = 0"
| "vincoun_e_id vincoun_us = 1"
| "vincoun_e_id vincoun_ca = 2"
| "vincoun_e_id vincoun_mx = 3"
| "vincoun_e_id vincoun_au = 4"
| "vincoun_e_id vincoun_br = 5"
| "vincoun_e_id vincoun_jp = 6"
| "vincoun_e_id vincoun_gb = 7"
| "vincoun_e_id vincoun_kr = 8"
| "vincoun_e_id vincoun_ch = 9"
| "vincoun_e_id vincoun_cn = 10"
| "vincoun_e_id vincoun_fr = 11"
| "vincoun_e_id vincoun_tw = 12"
| "vincoun_e_id vincoun_de = 13"
| "vincoun_e_id vincoun_se = 14"
| "vincoun_e_id vincoun_it = 15"
| "vincoun_e_id vincoun_offset = 16"

datatype vinmanu_e =
    vinmanu_unknown | vinmanu_lsg | vinmanu_ldc | vinmanu_pna | vinmanu_offset

primrec vinmanu_e_id :: "vinmanu_e \<Rightarrow> nat" where
  "vinmanu_e_id vinmanu_unknown = 0"
| "vinmanu_e_id vinmanu_lsg = 1"
| "vinmanu_e_id vinmanu_ldc = 2"
| "vinmanu_e_id vinmanu_pna = 3"
| "vinmanu_e_id vinmanu_offset = 4"

datatype vinmode_peugeot_e =
    vin_peugeot_ml_unknown | vin_peugeot_206 | vin_peugeot_406508 | vin_peugeot_407 | vin_peugeot_308
  | vin_peugeot_expert | vin_peugeot_208 | vin_peugeot_301 | vin_peugeot_307 | vin_peugeot_partner
  | vin_peugeot_ml_offset

primrec vinmode_peugeot_e_id :: "vinmode_peugeot_e \<Rightarrow> nat" where
  "vinmode_peugeot_e_id vin_peugeot_ml_unknown = 0"
| "vinmode_peugeot_e_id vin_peugeot_206 = 1"
| "vinmode_peugeot_e_id vin_peugeot_406508 = 2"
| "vinmode_peugeot_e_id vin_peugeot_407 = 3"
| "vinmode_peugeot_e_id vin_peugeot_308 = 4"
| "vinmode_peugeot_e_id vin_peugeot_expert = 5"
| "vinmode_peugeot_e_id vin_peugeot_208 = 6"
| "vinmode_peugeot_e_id vin_peugeot_301 = 7"
| "vinmode_peugeot_e_id vin_peugeot_307 = 8"
| "vinmode_peugeot_e_id vin_peugeot_partner = 9"
| "vinmode_peugeot_e_id vin_peugeot_ml_offset = 10"

datatype vinbody_peugeot_e =
    vin_peugeot_bt_unknown | vin_peugeot_3ds | vin_peugeot_cab | vin_peugeot_5ds | vin_peugeot_4ds
  | vin_peugeot_est | vin_peugeot_e7s | vin_peugeot_hat | vin_peugeot_cou | vin_peugeot_3dss
  | vin_peugeot_5dss | vin_peugeot_3dc | vin_peugeot_5dc | vin_peugeot_bt_offset

primrec vinbody_peugeot_e_id :: "vinbody_peugeot_e \<Rightarrow> nat" where
  "vinbody_peugeot_e_id vin_peugeot_bt_unknown = 0"
| "vinbody_peugeot_e_id vin_peugeot_3ds = 1"
| "vinbody_peugeot_e_id vin_peugeot_cab = 2"
| "vinbody_peugeot_e_id vin_peugeot_5ds = 3"
| "vinbody_peugeot_e_id vin_peugeot_4ds = 4"
| "vinbody_peugeot_e_id vin_peugeot_est = 5"
| "vinbody_peugeot_e_id vin_peugeot_e7s = 6"
| "vinbody_peugeot_e_id vin_peugeot_hat = 7"
| "vinbody_peugeot_e_id vin_peugeot_cou = 8"
| "vinbody_peugeot_e_id vin_peugeot_3dss = 9"
| "vinbody_peugeot_e_id vin_peugeot_5dss = 10"
| "vinbody_peugeot_e_id vin_peugeot_3dc = 11"
| "vinbody_peugeot_e_id vin_peugeot_5dc = 12"
| "vinbody_peugeot_e_id vin_peugeot_bt_offset = 13"

datatype vinmode_dpca_e =
    vin_dpca_ml_unknown | vin_dpca_n68 | vin_dpca_t11 | vin_dpca_t21 | vin_dpca_t31
  | vin_dpca_t33 | vin_dpca_r31 | vin_dpca_r33 | vin_dpca_b51 | vin_dpca_b53
  | vin_dpca_bx3 | vin_dpca_b73 | vin_dpca_tx3 | vin_dpca_t73 | vin_dpca_t61
  | vin_dpca_t63 | vin_dpca_t88 | vin_dpca_g25 | vin_dpca_x7 | vin_dpca_w23
  | vin_dpca_m33 | vin_dpca_m43 | vin_dpca_a94 | vin_dpca_m44 | vin_dpca_t91
  | vin_dpca_t93 | vin_dpca_ml_offset

primrec vinmode_dpca_e_id :: "vinmode_dpca_e \<Rightarrow> nat" where
  "vinmode_dpca_e_id vin_dpca_ml_unknown = 0"
| "vinmode_dpca_e_id vin_dpca_n68 = 1"
| "vinmode_dpca_e_id vin_dpca_t11 = 2"
| "vinmode_dpca_e_id vin_dpca_t21 = 3"
| "vinmode_dpca_e_id vin_dpca_t31 = 4"
| "vinmode_dpca_e_id vin_dpca_t33 = 5"
| "vinmode_dpca_e_id vin_dpca_r31 = 6"
| "vinmode_dpca_e_id vin_dpca_r33 = 7"
| "vinmode_dpca_e_id vin_dpca_b51 = 8"
| "vinmode_dpca_e_id vin_dpca_b53 = 9"
| "vinmode_dpca_e_id vin_dpca_bx3 = 10"
| "vinmode_dpca_e_id vin_dpca_b73 = 11"
| "vinmode_dpca_e_id vin_dpca_tx3 = 12"
| "vinmode_dpca_e_id vin_dpca_t73 = 13"
| "vinmode_dpca_e_id vin_dpca_t61 = 14"
| "vinmode_dpca_e_id vin_dpca_t63 = 15"
| "vinmode_dpca_e_id vin_dpca_t88 = 16"
| "vinmode_dpca_e_id vin_dpca_g25 = 17"
| "vinmode_dpca_e_id vin_dpca_x7 = 18"
| "vinmode_dpca_e_id vin_dpca_w23 = 19"
| "vinmode_dpca_e_id vin_dpca_m33 = 20"
| "vinmode_dpca_e_id vin_dpca_m43 = 21"
| "vinmode_dpca_e_id vin_dpca_a94 = 22"
| "vinmode_dpca_e_id vin_dpca_m44 = 23"
| "vinmode_dpca_e_id vin_dpca_t91 = 24"
| "vinmode_dpca_e_id vin_dpca_t93 = 25"
| "vinmode_dpca_e_id vin_dpca_ml_offset = 26"

definition vin_unknown_section :: vininfo_section where
  "vin_unknown_section = \<lparr>sc_code = ''?'', sc_id = 0, sc_string = ''Unknown''\<rparr>"

definition section_of :: "string \<Rightarrow> nat \<Rightarrow> string \<Rightarrow> vininfo_section" where
  "section_of c i s = \<lparr>sc_code = c, sc_id = i, sc_string = s\<rparr>"

definition g_country_table :: "vininfo_section list" where
  "g_country_table = [
     vin_unknown_section,
     section_of ''1'' (vincoun_e_id vincoun_us) ''USA'',
     section_of ''2'' (vincoun_e_id vincoun_ca) ''Canada'',
     section_of ''3'' (vincoun_e_id vincoun_mx) ''Mexico'',
     section_of ''4'' (vincoun_e_id vincoun_us) ''USA'',
     section_of ''6'' (vincoun_e_id vincoun_au) ''Australia'',
     section_of ''9'' (vincoun_e_id vincoun_br) ''Brazil'',
     section_of ''J'' (vincoun_e_id vincoun_jp) ''Japan'',
     section_of ''K'' (vincoun_e_id vincoun_kr) ''Korea'',
     section_of ''L'' (vincoun_e_id vincoun_cn) ''China'',
     section_of ''R'' (vincoun_e_id vincoun_tw) ''Taiwan'',
     section_of ''S'' (vincoun_e_id vincoun_gb) ''UK'',
     section_of ''T'' (vincoun_e_id vincoun_ch) ''Switzerland'',
     section_of ''V'' (vincoun_e_id vincoun_fr) ''France'',
     section_of ''W'' (vincoun_e_id vincoun_de) ''Germany'',
     section_of ''Y'' (vincoun_e_id vincoun_se) ''Sweden'',
     section_of ''Z'' (vincoun_e_id vincoun_it) ''Italy'']"

definition g_modelin_peugeot_table :: "vininfo_section list" where
  "g_modelin_peugeot_table = [
     vin_unknown_section,
     section_of ''2'' (vinmode_peugeot_e_id vin_peugeot_206) ''206'',
     section_of ''8'' (vinmode_peugeot_e_id vin_peugeot_406508) ''406/508'',
     section_of ''6'' (vinmode_peugeot_e_id vin_peugeot_407) ''407'',
     section_of ''9'' (vinmode_peugeot_e_id vin_peugeot_308) ''308'',
     section_of ''4'' (vinmode_peugeot_e_id vin_peugeot_308) ''308'',
     section_of ''B'' (vinmode_peugeot_e_id vin_peugeot_expert) ''Expert'',
     section_of ''C'' (vinmode_peugeot_e_id vin_peugeot_208) ''208'',
     section_of ''d'' (vinmode_peugeot_e_id vin_peugeot_301) ''301'',
     section_of ''3'' (vinmode_peugeot_e_id vin_peugeot_307) ''307'',
     section_of ''7'' (vinmode_peugeot_e_id vin_peugeot_partner) ''Partner'']"

definition g_modelin_dpca_table :: "vininfo_section list" where
  "g_modelin_dpca_table = [
     vin_unknown_section,
     section_of ''838'' (vinmode_dpca_e_id vin_dpca_n68) ''N68-Picasso'',
     section_of ''611'' (vinmode_dpca_e_id vin_dpca_t11) ''T11-206'',
     section_of ''621'' (vinmode_dpca_e_id vin_dpca_t21) ''T21-C2'',
     section_of ''631'' (vinmode_dpca_e_id vin_dpca_t31) ''T31-207 Hatchback'',
     section_of ''613'' (vinmode_dpca_e_id vin_dpca_t33) ''T33-207 Sedan'',
     section_of ''271'' (vinmode_dpca_e_id vin_dpca_r31) ''R31-Elysee Hatchback'',
     section_of ''703'' (vinmode_dpca_e_id vin_dpca_r33) ''R33-Elysee Sedan'',
     section_of ''C41'' (vinmode_dpca_e_id vin_dpca_b51) ''B51-Sega Hatchback'',
     section_of ''C43'' (vinmode_dpca_e_id vin_dpca_b53) ''B53-Triumph'',
     section_of ''C13'' (vinmode_dpca_e_id vin_dpca_bx3) ''BX3-Sega Sedan'',
     section_of ''C23'' (vinmode_dpca_e_id vin_dpca_b73) ''B73-C4L'',
     section_of ''953'' (vinmode_dpca_e_id vin_dpca_tx3) ''TX3-308'',
     section_of ''943'' (vinmode_dpca_e_id vin_dpca_t73) ''T73-408'',
     section_of ''931'' (vinmode_dpca_e_id vin_dpca_t61) ''T61-307 Hatchback'',
     section_of ''913'' (vinmode_dpca_e_id vin_dpca_t63) ''T63-307 Sedan'',
     section_of ''923'' (vinmode_dpca_e_id vin_dpca_t63) ''T63-307 Sedan'',
     section_of ''933'' (vinmode_dpca_e_id vin_dpca_t63) ''T63-307 Sedan'',
     section_of ''T81'' (vinmode_dpca_e_id vin_dpca_t88) ''T88-307 3008'',
     section_of ''C33'' (vinmode_dpca_e_id vin_dpca_g25) ''G25-L60'',
     section_of ''A13'' (vinmode_dpca_e_id vin_dpca_x7) ''X7-C5'',
     section_of ''B13'' (vinmode_dpca_e_id vin_dpca_w23) ''W23-508'',
     section_of ''633'' (vinmode_dpca_e_id vin_dpca_m33) ''M33-301'',
     section_of ''643'' (vinmode_dpca_e_id vin_dpca_m43) ''M43-New Elysee'',
     section_of ''673'' (vinmode_dpca_e_id vin_dpca_a94) ''A94-2008'',
     section_of ''661'' (vinmode_dpca_e_id vin_dpca_m44) ''M44-C3-XR'',
     section_of ''961'' (vinmode_dpca_e_id vin_dpca_t91) ''T91-308S'',
     section_of ''973'' (vinmode_dpca_e_id vin_dpca_t93) ''T93-Brand new 408'']"

definition g_bodytype_peugeot_table :: "vininfo_section list" where
  "g_bodytype_peugeot_table = [
     vin_unknown_section,
     section_of ''A'' (vinbody_peugeot_e_id vin_peugeot_3ds) ''3-door Saloon'',
     section_of ''B'' (vinbody_peugeot_e_id vin_peugeot_cab) ''Cabriolet'',
     section_of ''C'' (vinbody_peugeot_e_id vin_peugeot_5ds) ''5-door Saloon'',
     section_of ''D'' (vinbody_peugeot_e_id vin_peugeot_4ds) ''4-door Saloon'',
     section_of ''E'' (vinbody_peugeot_e_id vin_peugeot_est) ''Estate'',
     section_of ''F'' (vinbody_peugeot_e_id vin_peugeot_e7s) ''Estate 7-seater'',
     section_of ''G'' (vinbody_peugeot_e_id vin_peugeot_hat) ''Hatchback'',
     section_of ''J'' (vinbody_peugeot_e_id vin_peugeot_cou) ''Coupe'',
     section_of ''K'' (vinbody_peugeot_e_id vin_peugeot_3dss) ''3-door Sport Saloon'',
     section_of ''L'' (vinbody_peugeot_e_id vin_peugeot_5dss) ''5-door Sport Saloon'',
     section_of ''S'' (vinbody_peugeot_e_id vin_peugeot_3dc) ''3-door Commercial'',
     section_of ''T'' (vinbody_peugeot_e_id vin_peugeot_5dc) ''5-door Commercial'']"

definition g_manufac_table :: "vininfo_section list" where
  "g_manufac_table = [
     vin_unknown_section,
     section_of ''LSG'' (vinmanu_e_id vinmanu_lsg) ''Shanghai General Motors'',
     section_of ''LDC'' (vinmanu_e_id vinmanu_ldc) ''Dong Feng Peugeot Citroen (DPCA)'',
     section_of ''PNA'' (vinmanu_e_id vinmanu_pna) ''Peugeot'']"

text \<open>The tables of a manufacturer; a table pointer may be NULL, and the sizes are stored beside them.\<close>

record vinmanu2vds =
  manuid :: nat
  tb_vds :: "vininfo_section list option"
  tb_vds_size :: nat
  tb_bt :: "vininfo_section list option"
  tb_bt_size :: nat

definition g_manu2vds_map :: "vinmanu2vds list" where
  "g_manu2vds_map = [
     \<lparr>manuid = vinmanu_e_id vinmanu_unknown, tb_vds = None, tb_vds_size = 0, tb_bt = None, tb_bt_size = 0\<rparr>,
     \<lparr>manuid = vinmanu_e_id vinmanu_lsg, tb_vds = None, tb_vds_size = 0, tb_bt = None, tb_bt_size = 0\<rparr>,
     \<lparr>manuid = vinmanu_e_id vinmanu_ldc, tb_vds = Some g_modelin_dpca_table,
       tb_vds_size = length g_modelin_dpca_table, tb_bt = None, tb_bt_size = 0\<rparr>,
     \<lparr>manuid = vinmanu_e_id vinmanu_pna, tb_vds = Some g_modelin_peugeot_table,
       tb_vds_size = length g_modelin_peugeot_table, tb_bt = Some g_bodytype_peugeot_table,
       tb_bt_size = vinbody_peugeot_e_id vin_peugeot_bt_offset\<rparr>]"

end
