(* ===== verification/C_String.thy ===== *)
theory C_String
  imports Prelude
begin

text \<open>
  NUL-terminated strings of C. The text before the terminator is a \<open>string\<close>, a pointer into it an
  offset, and reading behind the terminator is undefined. The routines of \<open>string.h\<close> the parsers
  use are written out: \<open>strstr\<close>, \<open>strncmp\<close> for equality, and the scanning loops over a text.
\<close>

section \<open>Characters of a C string\<close>

definition NUL :: char where "NUL = CHR 0x00"

definition char_at :: "string \<Rightarrow> nat \<Rightarrow> char option" where
  "char_at s i = (if i < length s then Some (s ! i) else if i = length s then Some NUL else None)"

lemma char_at_less [simp]: "i < length s \<Longrightarrow> char_at s i = Some (s ! i)"
  by (simp add: char_at_def)

lemma char_at_end [simp]: "char_at s (length s) = Some NUL"
  by (simp add: char_at_def)

section \<open>Scanning a text\<close>

text \<open>\<open>for (; p < end; p++) if (stop p) break;\<close>\<close>

function scan_to :: "(char \<Rightarrow> bool) \<Rightarrow> string \<Rightarrow> nat \<Rightarrow> nat" where
  "scan_to stop s p = (if p < length s then if stop (s ! p) then p else scan_to stop s (p + 1) else p)"
  by pat_completeness auto
termination by (relation "measure (\<lambda>(stop, s, p). length s - p)") auto

declare scan_to.simps [simp del]

lemma scan_to_takeWhile:
  "p \<le> length s \<Longrightarrow> scan_to stop s p = p + length (takeWhile (\<lambda>c. \<not> stop c) (drop p s))"
proof (induction stop s p rule: scan_to.induct)
  case (1 stop s p)
  show ?case
  proof (cases "p < length s")
    case True
    then have "drop p s = s ! p # drop (p + 1) s" by (simp add: Cons_nth_drop_Suc)
    with 1 True show ?thesis by (simp add: scan_to.simps[of stop s p])
  qed (use 1 in \<open>simp add: scan_to.simps\<close>)
qed

lemma scan_to_bounds: "p \<le> length s \<Longrightarrow> p \<le> scan_to stop s p \<and> scan_to stop s p \<le> length s"
  using length_takeWhile_le[of "\<lambda>c. \<not> stop c" "drop p s"] by (simp add: scan_to_takeWhile)

lemma scan_to_append:
  assumes "\<forall>c \<in> set b. \<not> stop c" "c = [] \<or> stop (hd c)"
  shows "scan_to stop (a @ b @ c) (length a) = length a + length b"
proof -
  have "takeWhile (\<lambda>c. \<not> stop c) (b @ c) = b" using assms by (cases c) (auto simp: takeWhile_append2)
  then show ?thesis by (simp add: scan_to_takeWhile)
qed

lemma scan_to_stops: "p \<le> length s \<Longrightarrow> scan_to stop s p < length s \<Longrightarrow> stop (s ! scan_to stop s p)"
proof (induction stop s p rule: scan_to.induct)
  case (1 stop s p)
  then show ?case by (simp add: scan_to.simps[of stop s p] split: if_splits)
qed

end
