(* ===== verification/Vin_Parser.thy ===== *)
theory Vin_Parser
  imports Vin_Tables C_String
begin

text \<open>
  The vehicle identification number parser of \<open>lib/libvinparser/src/vin_parser.c\<close>. The number
  is a \<open>string\<close> followed by its NUL; a pointer into it is an offset, and reading behind the NUL
  is undefined. The tables are searched with the sizes the code passes, which are those of the
  enumerations and not of the arrays. The current year comes from the clock: it is the argument
  \<open>now\<close> of \<open>vp_year\<close> and \<open>vin_parse\<close>.
\<close>

section \<open>Model\<close>

definition g_chars :: string where "g_chars = ''ABCDEFGHJKLMNPRSTUVWXYZ1234567890''"
definition g_year_chars :: string where "g_year_chars = ''ABCDEFGHJKLMNPRSTVWXY123456789''"

fun index_of :: "char \<Rightarrow> string \<Rightarrow> nat \<Rightarrow> nat option" where
  "index_of x [] i = None"
| "index_of x (c # s) i = (if c = x then Some i else index_of x s (i + 1))"

text \<open>\<open>strchr\<close> finds the NUL of its string when asked for it.\<close>

definition c_strchr :: "string \<Rightarrow> char \<Rightarrow> nat option" where
  "c_strchr s x = index_of x (s @ [NUL]) 0"

definition in_chars :: "char \<Rightarrow> nat \<Rightarrow> nat \<Rightarrow> string \<Rightarrow> bool" where
  "in_chars x f e chars =
     (let i = (case index_of x chars 0 of Some i \<Rightarrow> i | None \<Rightarrow> length chars) in f \<le> i \<and> i \<le> e)"

definition chars_between :: "char \<Rightarrow> char \<Rightarrow> char \<Rightarrow> bool" where
  "chars_between x f e = (case c_strchr g_chars x of
      None \<Rightarrow> False
    | Some find_x \<Rightarrow> (case c_strchr g_chars f of
        None \<Rightarrow> False
      | Some find_f \<Rightarrow> (case c_strchr g_chars e of
          None \<Rightarrow> False
        | Some find_e \<Rightarrow> find_f \<le> find_x \<and> find_x \<le> find_e)))"

record mem_ptr =
  mp_pos :: nat
  mp_len :: nat

record vininfo =
  vi_year :: int
  vi_vin :: mem_ptr
  vi_vds :: mem_ptr
  vi_vis :: mem_ptr
  vi_continent :: "string option"
  vi_country :: vininfo_section
  vi_manufac :: vininfo_section
  vi_modelin :: vininfo_section
  vi_bodytyp :: vininfo_section

record vin_parser =
  vp_vin :: string
  vp_pos :: nat
  tb_country :: "vininfo_section list"
  tb_country_size :: nat
  tb_manufac :: "vininfo_section list"
  tb_manufac_size :: nat
  map_manu2vds :: "vinmanu2vds list"
  map_manu2vds_size :: nat

definition vp_init :: "string \<Rightarrow> vin_parser" where
  "vp_init vin = \<lparr>vp_vin = vin, vp_pos = 0,
     tb_country = g_country_table, tb_country_size = vincoun_e_id vincoun_offset,
     tb_manufac = g_manufac_table, tb_manufac_size = vinmanu_e_id vinmanu_offset,
     map_manu2vds = g_manu2vds_map, map_manu2vds_size = vinmanu_e_id vinmanu_offset\<rparr>"

definition unknown_section :: vininfo_section where
  "unknown_section = section_of ''?'' 0 ''Unknown''"

text \<open>\<open>strncmp(pos, code, strlen(code)) = 0\<close>, reading the number up to the first difference.\<close>

fun code_matches :: "string \<Rightarrow> nat \<Rightarrow> string \<Rightarrow> bool option" where
  "code_matches vin pos [] = Some True"
| "code_matches vin pos (c # code) = do {
     d \<leftarrow> char_at vin pos;
     if d \<noteq> c then Some False else code_matches vin (pos + 1) code }"

fun section_scan :: "vininfo_section list \<Rightarrow> nat \<Rightarrow> nat \<Rightarrow> string \<Rightarrow> nat \<Rightarrow> vininfo_section option option" where
  "section_scan head i 0 vin pos = Some None"
| "section_scan head i (Suc n) vin pos = do {
     p \<leftarrow> arr_get head (int i);
     m \<leftarrow> code_matches vin pos (sc_code p);
     if m then Some (Some p) else section_scan head (i + 1) n vin pos }"

definition section_find :: "vininfo_section list \<Rightarrow> nat \<Rightarrow> string \<Rightarrow> nat \<Rightarrow> vininfo_section option option" where
  "section_find head sz vin pos = section_scan head 0 sz vin pos"

definition vininfo_init :: "vininfo \<Rightarrow> vin_parser \<Rightarrow> vininfo" where
  "vininfo_init vi vp = vi\<lparr>vi_vin := \<lparr>mp_pos = 0, mp_len = length (takeWhile (\<lambda>c. c \<noteq> NUL) (vp_vin vp))\<rparr>,
     vi_country := unknown_section, vi_manufac := unknown_section,
     vi_modelin := unknown_section, vi_bodytyp := unknown_section\<rparr>"

definition vp_manufac :: "vin_parser \<Rightarrow> vininfo \<Rightarrow> (err_type \<times> vin_parser \<times> vininfo) option" where
  "vp_manufac vp vi = do {
     s \<leftarrow> section_find (tb_manufac vp) (tb_manufac_size vp) (vp_vin vp) (vp_pos vp);
     case s of
       None \<Rightarrow> Some (et_exist, vp, vi)
     | Some p \<Rightarrow> Some (et_ok, vp\<lparr>vp_pos := vp_pos vp + 3\<rparr>, vi\<lparr>vi_manufac := p\<rparr>) }"

definition vp_continent :: "vin_parser \<Rightarrow> vininfo \<Rightarrow> vininfo option" where
  "vp_continent vp vi = do {
     c \<leftarrow> char_at (vp_vin vp) (vp_pos vp);
     Some (if chars_between c (CHR ''A'') (CHR ''H'') then vi\<lparr>vi_continent := Some ''Africa''\<rparr>
           else if chars_between c (CHR ''J'') (CHR ''R'') then vi\<lparr>vi_continent := Some ''Asia''\<rparr>
           else if chars_between c (CHR ''S'') (CHR ''Z'') then vi\<lparr>vi_continent := Some ''Europe''\<rparr>
           else if chars_between c (CHR ''1'') (CHR ''5'') then vi\<lparr>vi_continent := Some ''North America''\<rparr>
           else if chars_between c (CHR ''6'') (CHR ''7'') then vi\<lparr>vi_continent := Some ''Oceania''\<rparr>
           else if chars_between c (CHR ''8'') (CHR ''9'') then vi\<lparr>vi_continent := Some ''South America''\<rparr>
           else vi) }"

definition vp_country :: "vin_parser \<Rightarrow> vininfo \<Rightarrow> (err_type \<times> vininfo) option" where
  "vp_country vp vi = do {
     s \<leftarrow> section_find (tb_country vp) (tb_country_size vp) (vp_vin vp) (vp_pos vp);
     case s of
       None \<Rightarrow> Some (et_exist, vi)
     | Some p \<Rightarrow> Some (et_ok, vi\<lparr>vi_country := p\<rparr>) }"

fun manu_scan :: "vinmanu2vds list \<Rightarrow> nat \<Rightarrow> nat \<Rightarrow> nat \<Rightarrow> vinmanu2vds option option" where
  "manu_scan head i 0 mid = Some None"
| "manu_scan head i (Suc n) mid = do {
     p \<leftarrow> arr_get head (int i);
     if manuid p = mid then Some (Some p) else manu_scan head (i + 1) n mid }"

definition vp_maun2vds_map :: "vin_parser \<Rightarrow> vininfo \<Rightarrow> vinmanu2vds option option" where
  "vp_maun2vds_map vp vi = manu_scan (map_manu2vds vp) 0 (map_manu2vds_size vp) (sc_id (vi_manufac vi))"

definition find_in :: "vininfo_section list option \<Rightarrow> nat \<Rightarrow> string \<Rightarrow> nat \<Rightarrow> vininfo_section option option" where
  "find_in tb sz vin pos = (case tb of None \<Rightarrow> Some None | Some t \<Rightarrow> section_find t sz vin pos)"

definition vp_mode :: "vin_parser \<Rightarrow> vininfo \<Rightarrow> (err_type \<times> vininfo) option" where
  "vp_mode vp vi = do {
     r \<leftarrow> vp_maun2vds_map vp vi;
     case r of
       None \<Rightarrow> Some (et_exist, vi)
     | Some m \<Rightarrow> do {
         s \<leftarrow> find_in (tb_vds m) (tb_vds_size m) (vp_vin vp) (mp_pos (vi_vds vi));
         let vi1 = (case s of None \<Rightarrow> vi | Some p \<Rightarrow> vi\<lparr>vi_modelin := p\<rparr>);
         t \<leftarrow> find_in (tb_bt m) (tb_bt_size m) (vp_vin vp) (mp_pos (vi_vds vi));
         Some (et_ok, (case t of None \<Rightarrow> vi1 | Some p \<Rightarrow> vi1\<lparr>vi_bodytyp := p\<rparr>)) } }"

definition vp_vds :: "vin_parser \<Rightarrow> vininfo \<Rightarrow> (err_type \<times> vin_parser \<times> vininfo) option" where
  "vp_vds vp vi = do {
     let vi1 = vi\<lparr>vi_vds := \<lparr>mp_pos = vp_pos vp, mp_len = 6\<rparr>\<rparr>;
     let vp1 = vp\<lparr>vp_pos := vp_pos vp + 6\<rparr>;
     (e, vi2) \<leftarrow> vp_mode vp1 vi1;
     Some (e, vp1, vi2) }"

definition year_scan :: "int \<Rightarrow> int \<Rightarrow> char \<Rightarrow> int \<Rightarrow> int" where
  "year_scan now base c y =
     fold (\<lambda>i y. if g_year_chars ! i = c
                 then if base + int i > now then base + int i - 30 else base + int i else y)
       [0..<length g_year_chars] y"

definition vp_year :: "int \<Rightarrow> vin_parser \<Rightarrow> vininfo \<Rightarrow> (err_type \<times> vininfo) option" where
  "vp_year now vp vi = do {
     cont \<leftarrow> vi_continent vi;
     base \<leftarrow> (if take (length cont) cont = take (length cont) ''North America'' then do {
                c \<leftarrow> char_at (vp_vin vp) 6;
                Some (if in_chars c 0 22 g_year_chars then 2010 else 1980) }
              else Some 2010);
     d \<leftarrow> char_at (vp_vin vp) 9;
     Some (et_ok, vi\<lparr>vi_year := year_scan now base d (vi_year vi)\<rparr>) }"

definition vp_vis :: "int \<Rightarrow> vin_parser \<Rightarrow> vininfo \<Rightarrow> (err_type \<times> vin_parser \<times> vininfo) option" where
  "vp_vis now vp vi = do {
     let vi1 = vi\<lparr>vi_vis := \<lparr>mp_pos = vp_pos vp, mp_len = 8\<rparr>\<rparr>;
     let vp1 = vp\<lparr>vp_pos := vp_pos vp + 8\<rparr>;
     (e, vi2) \<leftarrow> vp_year now vp1 vi1;
     Some (e, vp1, vi2) }"

definition vin_parse :: "int \<Rightarrow> string \<Rightarrow> vininfo \<Rightarrow> (err_type \<times> vininfo) option" where
  "vin_parse now vin vi0 = do {
     let vp = vp_init vin;
     vi1 \<leftarrow> vp_continent vp (vininfo_init vi0 vp);
     (_, vi2) \<leftarrow> vp_country vp vi1;
     (_, vp3, vi3) \<leftarrow> vp_manufac vp vi2;
     (_, vp4, vi4) \<leftarrow> vp_vds vp3 vi3;
     (_, vp5, vi5) \<leftarrow> vp_vis now vp4 vi4;
     Some (et_ok, vi5) }"


section \<open>Table searches\<close>

definition has_code :: "string \<Rightarrow> nat \<Rightarrow> vininfo_section \<Rightarrow> bool" where
  "has_code vin pos p \<longleftrightarrow> take (length (sc_code p)) (drop pos vin) = sc_code p"

lemma code_matches_iff:
  "pos + length code \<le> length vin \<Longrightarrow> code_matches vin pos code = Some (take (length code) (drop pos vin) = code)"
proof (induction code arbitrary: pos)
  case (Cons c code)
  have "drop pos vin = vin ! pos # drop (Suc pos) vin" using Cons.prems by (simp add: Cons_nth_drop_Suc)
  then show ?case using Cons by (simp add: char_at_def)
qed simp

lemma section_scan_find:
  assumes "i + n \<le> length head" "\<forall>p \<in> set head. pos + length (sc_code p) \<le> length vin"
  shows "section_scan head i n vin pos = Some (find (has_code vin pos) (take n (drop i head)))"
  using assms(1)
proof (induction n arbitrary: i)
  case (Suc n)
  have d: "drop i head = head ! i # drop (Suc i) head" using Suc.prems by (simp add: Cons_nth_drop_Suc)
  have "head ! i \<in> set head" using Suc.prems by simp
  then have "code_matches vin pos (sc_code (head ! i)) = Some (has_code vin pos (head ! i))"
    using assms(2) by (simp add: code_matches_iff has_code_def)
  then show ?case using Suc.IH[of "Suc i"] Suc.prems by (simp add: arr_get_def d)
qed simp

lemma section_find_eq:
  "sz \<le> length head \<Longrightarrow> \<forall>p \<in> set head. pos + length (sc_code p) \<le> length vin \<Longrightarrow>
     section_find head sz vin pos = Some (find (has_code vin pos) (take sz head))"
  by (simp add: section_find_def section_scan_find)

text \<open>No code of the tables is longer than three characters.\<close>

lemma table_codes:
  "\<forall>p \<in> set g_country_table. length (sc_code p) \<le> 3" "\<forall>p \<in> set g_manufac_table. length (sc_code p) \<le> 3"
  "\<forall>p \<in> set g_modelin_peugeot_table. length (sc_code p) \<le> 3" "\<forall>p \<in> set g_modelin_dpca_table. length (sc_code p) \<le> 3"
  "\<forall>p \<in> set g_bodytype_peugeot_table. length (sc_code p) \<le> 3"
  by (simp_all add: g_country_table_def g_manufac_table_def g_modelin_peugeot_table_def g_modelin_dpca_table_def
      g_bodytype_peugeot_table_def section_of_def vin_unknown_section_def)

lemma table_sizes:
  "vincoun_e_id vincoun_offset \<le> length g_country_table" "vinmanu_e_id vinmanu_offset = length g_manufac_table"
  "vinbody_peugeot_e_id vin_peugeot_bt_offset = length g_bodytype_peugeot_table"
  by (simp_all add: g_country_table_def g_manufac_table_def g_bodytype_peugeot_table_def)

lemma find_codes:
  assumes "\<forall>p \<in> set head. length (sc_code p) \<le> 3" "sz \<le> length head" "pos + 3 \<le> length vin"
  shows "section_find head sz vin pos = Some (find (has_code vin pos) (take sz head))"
  using assms by (intro section_find_eq) force+

definition manufacturer :: "string \<Rightarrow> vininfo_section option" where
  "manufacturer vin = find (\<lambda>p. sc_code p = take 3 vin) (tl g_manufac_table)"

lemma manufac_find:
  assumes "3 \<le> length vin" "vin ! 0 \<noteq> CHR ''?''"
  shows "section_find g_manufac_table (vinmanu_e_id vinmanu_offset) vin 0 = Some (manufacturer vin)"
proof -
  obtain a b c r where v: "vin = a # b # c # r" using assms(1)
    by (cases vin; cases "tl vin"; cases "tl (tl vin)") auto
  have "find (has_code vin 0) g_manufac_table = manufacturer vin"
    using assms(2) by (auto simp: v has_code_def manufacturer_def g_manufac_table_def section_of_def vin_unknown_section_def)
  then show ?thesis using find_codes[OF table_codes(2), of _ 0 vin] assms(1) table_sizes(2) by simp
qed

lemma manufacturer_id: "manufacturer vin = Some p \<Longrightarrow> sc_id p \<in> {1, 2, 3}"
  by (auto simp: manufacturer_def g_manufac_table_def section_of_def split: if_splits)

section \<open>The stages\<close>

lemma manu_scan_find:
  "i + n \<le> length head \<Longrightarrow> manu_scan head i n mid = Some (find (\<lambda>p. manuid p = mid) (take n (drop i head)))"
proof (induction n arbitrary: i)
  case (Suc n)
  have d: "drop i head = head ! i # drop (Suc i) head" using Suc.prems by (simp add: Cons_nth_drop_Suc)
  then show ?case using Suc.IH[of "Suc i"] Suc.prems by (simp add: arr_get_def)
qed simp

text \<open>The row of a table whose code stands at a position of the number, and the tables of a manufacturer.\<close>

definition row_at :: "vininfo_section list option \<Rightarrow> nat \<Rightarrow> string \<Rightarrow> nat \<Rightarrow> vininfo_section" where
  "row_at tb sz vin pos = (case tb of None \<Rightarrow> unknown_section
     | Some t \<Rightarrow> (case find (has_code vin pos) (take sz t) of None \<Rightarrow> unknown_section | Some p \<Rightarrow> p))"

definition maker_tables :: "nat \<Rightarrow> vinmanu2vds option" where
  "maker_tables mid = find (\<lambda>m. manuid m = mid) g_manu2vds_map"

definition model_line :: "nat \<Rightarrow> string \<Rightarrow> nat \<Rightarrow> vininfo_section" where
  "model_line mid vin pos = (case maker_tables mid of None \<Rightarrow> unknown_section | Some m \<Rightarrow> row_at (tb_vds m) (tb_vds_size m) vin pos)"

definition body_type :: "nat \<Rightarrow> string \<Rightarrow> nat \<Rightarrow> vininfo_section" where
  "body_type mid vin pos = (case maker_tables mid of None \<Rightarrow> unknown_section | Some m \<Rightarrow> row_at (tb_bt m) (tb_bt_size m) vin pos)"

definition usable :: "vininfo_section list option \<Rightarrow> nat \<Rightarrow> bool" where
  "usable tb sz \<longleftrightarrow> (case tb of None \<Rightarrow> True | Some t \<Rightarrow> (\<forall>p \<in> set t. length (sc_code p) \<le> 3) \<and> sz \<le> length t)"

lemma maker_tables_usable:
  "maker_tables mid = Some m \<Longrightarrow> usable (tb_vds m) (tb_vds_size m) \<and> usable (tb_bt m) (tb_bt_size m)"
  using table_codes table_sizes
  by (auto simp: maker_tables_def g_manu2vds_map_def usable_def split: if_splits)

lemma find_in_row:
  assumes "usable tb sz" "pos + 3 \<le> length vin"
  shows "\<exists>r. find_in tb sz vin pos = Some r \<and> row_at tb sz vin pos = (case r of None \<Rightarrow> unknown_section | Some p \<Rightarrow> p)"
  using assms find_codes[OF _ _ assms(2)] by (auto simp: find_in_def usable_def row_at_def split: option.splits)

lemma vp_mode_ok:
  assumes "mp_pos (vi_vds vi) + 3 \<le> length (vp_vin vp)"
    and "map_manu2vds vp = g_manu2vds_map" "map_manu2vds_size vp = vinmanu_e_id vinmanu_offset"
    and "vi_modelin vi = unknown_section" "vi_bodytyp vi = unknown_section"
  shows "\<exists>e. vp_mode vp vi = Some (e,
    vi\<lparr>vi_modelin := model_line (sc_id (vi_manufac vi)) (vp_vin vp) (mp_pos (vi_vds vi)),
       vi_bodytyp := body_type (sc_id (vi_manufac vi)) (vp_vin vp) (mp_pos (vi_vds vi))\<rparr>)"
proof -
  have scan: "vp_maun2vds_map vp vi = Some (maker_tables (sc_id (vi_manufac vi)))"
    using manu_scan_find[of 0 4 g_manu2vds_map] by (simp add: vp_maun2vds_map_def assms(2,3) maker_tables_def g_manu2vds_map_def)
  show ?thesis
  proof (cases "maker_tables (sc_id (vi_manufac vi))")
    case None
    then show ?thesis using assms(4,5) by (simp add: vp_mode_def scan model_line_def body_type_def)
  next
    case (Some m)
    obtain s where s: "find_in (tb_vds m) (tb_vds_size m) (vp_vin vp) (mp_pos (vi_vds vi)) = Some s"
        "row_at (tb_vds m) (tb_vds_size m) (vp_vin vp) (mp_pos (vi_vds vi)) = (case s of None \<Rightarrow> unknown_section | Some p \<Rightarrow> p)"
      using find_in_row[OF conjunct1[OF maker_tables_usable[OF Some]] assms(1)] by blast
    obtain t where t: "find_in (tb_bt m) (tb_bt_size m) (vp_vin vp) (mp_pos (vi_vds vi)) = Some t"
        "row_at (tb_bt m) (tb_bt_size m) (vp_vin vp) (mp_pos (vi_vds vi)) = (case t of None \<Rightarrow> unknown_section | Some p \<Rightarrow> p)"
      using find_in_row[OF conjunct2[OF maker_tables_usable[OF Some]] assms(1)] by blast
    show ?thesis using s t assms(4,5)
      by (cases s; cases t) (simp_all add: vp_mode_def scan Some model_line_def body_type_def)
  qed
qed

lemma year_fold:
  assumes "distinct s" "i < length s" "n \<le> length s"
  shows "fold (\<lambda>k y. if s ! k = s ! i then f k else y) [0..<n] y = (if i < n then f i else y)"
  using assms(3) by (induction n) (use assms(1,2) in \<open>auto simp: nth_eq_iff_index_eq less_Suc_eq\<close>)

lemma year_scan_eq:
  "i < 30 \<Longrightarrow> year_scan now base (g_year_chars ! i) y = (if base + int i > now then base + int i - 30 else base + int i)"
proof -
  assume "i < 30"
  moreover have "distinct g_year_chars" "length g_year_chars = 30" by (simp_all add: g_year_chars_def)
  ultimately show ?thesis
    using year_fold[of g_year_chars i "length g_year_chars" "\<lambda>k. if base + int k > now then base + int k - 30 else base + int k" y]
    by (simp add: year_scan_def)
qed

definition first_chars :: string where "first_chars = butlast g_chars"

text \<open>The region of a first character, character by character.\<close>

definition region :: "char \<Rightarrow> string" where
  "region c = (if c \<in> set ''ABCDEFGH'' then ''Africa'' else if c \<in> set ''JKLMNPR'' then ''Asia''
     else if c \<in> set ''STUVWXYZ'' then ''Europe'' else if c \<in> set ''12345'' then ''North America''
     else if c \<in> set ''67'' then ''Oceania'' else ''South America'')"

lemma vp_continent_ok:
  assumes "c \<in> set first_chars" "char_at (vp_vin vp) (vp_pos vp) = Some c"
  shows "vp_continent vp vi = Some (vi\<lparr>vi_continent := Some (region c)\<rparr>)"
proof -
  have "list_all (\<lambda>c. region c = (if chars_between c (CHR ''A'') (CHR ''H'') then ''Africa''
      else if chars_between c (CHR ''J'') (CHR ''R'') then ''Asia''
      else if chars_between c (CHR ''S'') (CHR ''Z'') then ''Europe''
      else if chars_between c (CHR ''1'') (CHR ''5'') then ''North America''
      else if chars_between c (CHR ''6'') (CHR ''7'') then ''Oceania'' else ''South America'') \<and>
      (chars_between c (CHR ''A'') (CHR ''H'') \<or> chars_between c (CHR ''J'') (CHR ''R'') \<or>
      chars_between c (CHR ''S'') (CHR ''Z'') \<or> chars_between c (CHR ''1'') (CHR ''5'') \<or>
      chars_between c (CHR ''6'') (CHR ''7'') \<or> chars_between c (CHR ''8'') (CHR ''9''))) first_chars"
    by code_simp
  note c = this[unfolded list_all_iff, THEN bspec, OF assms(1)]
  show ?thesis using assms(2) c unfolding vp_continent_def by (simp only: Option.bind.simps) auto
qed

lemma region_america: "c \<in> set first_chars \<Longrightarrow>
    (take (length (region c)) (region c) = take (length (region c)) ''North America'') = (c \<in> set ''12345'')"
  by (auto simp: region_def first_chars_def g_chars_def)

section \<open>Properties\<close>

definition country :: "string \<Rightarrow> vininfo_section" where
  "country vin = (case find (\<lambda>p. sc_code p = take 1 vin) (butlast (tl g_country_table)) of None \<Rightarrow> unknown_section | Some p \<Rightarrow> p)"

definition maker :: "string \<Rightarrow> vininfo_section" where
  "maker vin = (case manufacturer vin of None \<Rightarrow> unknown_section | Some p \<Rightarrow> p)"

definition vds_offset :: "string \<Rightarrow> nat" where
  "vds_offset vin = (if manufacturer vin = None then 0 else 3)"

text \<open>The year of the \<open>i\<close>-th code: from 2010 on, or from 1980 on for a North American number whose seventh character is
  not among the first 23 codes; a year in the future is 30 years earlier.\<close>

definition model_year :: "int \<Rightarrow> string \<Rightarrow> nat \<Rightarrow> int" where
  "model_year now vin i =
     (let y = (if vin ! 0 \<in> set ''12345'' \<and> vin ! 6 \<notin> set ''ABCDEFGHJKLMNPRSTVWXY12'' then 1980 else 2010) + int i
      in if y > now then y - 30 else y)"

lemma in_year_chars: "in_chars c 0 22 g_year_chars \<longleftrightarrow> c \<in> set ''ABCDEFGHJKLMNPRSTVWXY12''"
  by (simp add: in_chars_def g_year_chars_def Let_def)

lemma vp_year_ok:
  assumes "vi_continent vi = Some (region (vp_vin vp ! 0))" "vp_vin vp ! 0 \<in> set first_chars" "length (vp_vin vp) = 17"
    and "i < 30" "vp_vin vp ! 9 = g_year_chars ! i"
  shows "vp_year now vp vi = Some (et_ok, vi\<lparr>vi_year := model_year now (vp_vin vp) i\<rparr>)"
proof -
  let ?A = "vp_vin vp ! 0 \<in> set ''12345''" and ?B = "vp_vin vp ! 6 \<in> set ''ABCDEFGHJKLMNPRSTVWXY12''"
  have c: "char_at (vp_vin vp) 6 = Some (vp_vin vp ! 6)" "char_at (vp_vin vp) 9 = Some (g_year_chars ! i)"
    using assms(3,5) by (simp_all add: char_at_def)
  have "vp_year now vp vi = Some (et_ok, vi\<lparr>vi_year := year_scan now (if ?A then if ?B then 2010 else 1980 else 2010) (g_year_chars ! i) (vi_year vi)\<rparr>)"
    unfolding vp_year_def assms(1) Option.bind.simps region_america[OF assms(2)] c in_year_chars by (cases ?A) (simp_all only: if_True if_False Option.bind.simps)
  moreover have "(if ?A then if ?B then 2010 else 1980 else (2010 :: int)) = (if ?A \<and> \<not> ?B then 1980 else 2010)"
    by (cases ?A; cases ?B) (simp_all only: if_True if_False simp_thms)
  ultimately show ?thesis unfolding year_scan_eq[OF assms(4)] model_year_def Let_def by (simp only:)
qed

lemma country_find:
  assumes "3 \<le> length vin" "vin ! 0 \<noteq> CHR ''?''"
  shows "(case find (has_code vin 0) (take (vincoun_e_id vincoun_offset) g_country_table) of None \<Rightarrow> unknown_section | Some p \<Rightarrow> p) = country vin"
proof -
  obtain a r where v: "vin = a # r" using assms(1) by (cases vin) auto
  have "find (has_code vin 0) (take 16 g_country_table) = find (\<lambda>p. sc_code p = take 1 vin) (butlast (tl g_country_table))"
    using assms(2) by (auto simp: v has_code_def g_country_table_def section_of_def vin_unknown_section_def)
  then show ?thesis by (simp add: country_def)
qed

text \<open>C13: parsing a number of 17 characters (none of them NUL) whose first one names a region (not \<open>0\<close>) and whose tenth
  one is the \<open>i\<close>-th model year code. The parser stays inside the number and returns exactly this record: the region of the
  first character, the country of its row in the table without the last row, the manufacturer of the first three
  characters, the descriptor and identifier sections at offsets 3 and 9, or 0 and 6 when the manufacturer is not known
  (the position is not advanced then), the model line and the body type by the manufacturer's tables at the start of
  the descriptor section, and the model year.\<close>

theorem vin_parse_correct:
  assumes "length vin = 17" "NUL \<notin> set vin" "vin ! 0 \<in> set first_chars" "i < 30" "vin ! 9 = g_year_chars ! i"
  shows "vin_parse now vin vi0 = Some (et_ok,
    \<lparr>vi_year = model_year now vin i, vi_vin = \<lparr>mp_pos = 0, mp_len = 17\<rparr>,
     vi_vds = \<lparr>mp_pos = vds_offset vin, mp_len = 6\<rparr>, vi_vis = \<lparr>mp_pos = vds_offset vin + 6, mp_len = 8\<rparr>,
     vi_continent = Some (region (vin ! 0)), vi_country = country vin, vi_manufac = maker vin,
     vi_modelin = model_line (sc_id (maker vin)) vin (vds_offset vin),
     vi_bodytyp = body_type (sc_id (maker vin)) vin (vds_offset vin)\<rparr>)"
proof -
  let ?vp = "vp_init vin" and ?vi = "vininfo_init vi0 (vp_init vin)" and ?off = "vds_offset vin"
  have vp: "vp_vin ?vp = vin" "vp_pos ?vp = 0" by (simp_all add: vp_init_def)
  have c0: "char_at vin 0 = Some (vin ! 0)" "char_at vin 6 = Some (vin ! 6)" "char_at vin 9 = Some (vin ! 9)"
    using assms(1) by (simp_all add: char_at_def)
  let ?vi1 = "?vi\<lparr>vi_continent := Some (region (vin ! 0))\<rparr>"
  have v1: "vp_continent ?vp ?vi = Some ?vi1" using vp_continent_ok[OF assms(3), of ?vp ?vi] c0 vp by simp
  have l3: "0 + 3 \<le> length vin" "3 \<le> length vin" using assms(1) by simp_all
  have "CHR ''?'' \<notin> set first_chars" by code_simp
  then have q: "vin ! 0 \<noteq> CHR ''?''" using assms(3) by metis
  have "section_find (tb_country ?vp) (tb_country_size ?vp) (vp_vin ?vp) (vp_pos ?vp) =
      Some (find (has_code vin 0) (take (vincoun_e_id vincoun_offset) g_country_table))"
    using find_codes[OF table_codes(1) table_sizes(1) l3(1)] by (simp add: vp_init_def del: vincoun_e_id.simps)
  then have v2: "\<exists>e. vp_country ?vp ?vi1 = Some (e, ?vi1\<lparr>vi_country := country vin\<rparr>)"
    unfolding vp_country_def country_find[OF l3(2) q, symmetric]
    by (cases "find (has_code vin 0) (take (vincoun_e_id vincoun_offset) g_country_table)")
       (auto simp: vininfo_init_def simp del: vincoun_e_id.simps)
  let ?vi3 = "?vi1\<lparr>vi_country := country vin, vi_manufac := maker vin\<rparr>"
  have "section_find (tb_manufac ?vp) (tb_manufac_size ?vp) (vp_vin ?vp) (vp_pos ?vp) = Some (manufacturer vin)"
    using manufac_find[OF l3(2) q] by (simp add: vp_init_def del: vinmanu_e_id.simps)
  then have v3: "\<exists>e. vp_manufac ?vp (?vi1\<lparr>vi_country := country vin\<rparr>) = Some (e, ?vp\<lparr>vp_pos := ?off\<rparr>, ?vi3)"
    unfolding vp_manufac_def by (auto simp: vp(2) vininfo_init_def vds_offset_def maker_def split: option.split)
  let ?vi4 = "?vi3\<lparr>vi_vds := \<lparr>mp_pos = ?off, mp_len = 6\<rparr>\<rparr>" and ?vp4 = "?vp\<lparr>vp_pos := ?off + 6\<rparr>"
  have "\<exists>e. vp_mode ?vp4 ?vi4 = Some (e, ?vi4\<lparr>vi_modelin := model_line (sc_id (vi_manufac ?vi4)) (vp_vin ?vp4) (mp_pos (vi_vds ?vi4)),
      vi_bodytyp := body_type (sc_id (vi_manufac ?vi4)) (vp_vin ?vp4) (mp_pos (vi_vds ?vi4))\<rparr>)"
    by (rule vp_mode_ok) (use assms(1) in \<open>simp_all add: vp_init_def vininfo_init_def vds_offset_def\<close>)
  then have v4: "\<exists>e. vp_vds (?vp\<lparr>vp_pos := ?off\<rparr>) ?vi3 = Some (e, ?vp4,
      ?vi4\<lparr>vi_modelin := model_line (sc_id (maker vin)) vin ?off, vi_bodytyp := body_type (sc_id (maker vin)) vin ?off\<rparr>)"
    by (auto simp: vp_vds_def Let_def vp(1))
  let ?vi5 = "?vi4\<lparr>vi_modelin := model_line (sc_id (maker vin)) vin ?off, vi_bodytyp := body_type (sc_id (maker vin)) vin ?off,
      vi_vis := \<lparr>mp_pos = ?off + 6, mp_len = 8\<rparr>\<rparr>"
  have "vp_year now (?vp4\<lparr>vp_pos := vp_pos ?vp4 + 8\<rparr>) ?vi5 = Some (et_ok, ?vi5\<lparr>vi_year := model_year now vin i\<rparr>)"
    using vp_year_ok[of ?vi5 "?vp4\<lparr>vp_pos := vp_pos ?vp4 + 8\<rparr>" i now] assms by (simp add: vp(1))
  then have v5: "vp_vis now ?vp4 (?vi4\<lparr>vi_modelin := model_line (sc_id (maker vin)) vin ?off, vi_bodytyp := body_type (sc_id (maker vin)) vin ?off\<rparr>) =
      Some (et_ok, ?vp4\<lparr>vp_pos := vp_pos ?vp4 + 8\<rparr>, ?vi5\<lparr>vi_year := model_year now vin i\<rparr>)"
    by (simp add: vp_vis_def Let_def)
  obtain e2 e3 e4 where e: "vp_country ?vp ?vi1 = Some (e2, ?vi1\<lparr>vi_country := country vin\<rparr>)"
      "vp_manufac ?vp (?vi1\<lparr>vi_country := country vin\<rparr>) = Some (e3, ?vp\<lparr>vp_pos := ?off\<rparr>, ?vi3)"
      "vp_vds (?vp\<lparr>vp_pos := ?off\<rparr>) ?vi3 = Some (e4, ?vp4,
         ?vi4\<lparr>vi_modelin := model_line (sc_id (maker vin)) vin ?off, vi_bodytyp := body_type (sc_id (maker vin)) vin ?off\<rparr>)"
    using v2 v3 v4 by blast
  have run: "vin_parse now vin vi0 = Some (et_ok, ?vi5\<lparr>vi_year := model_year now vin i\<rparr>)"
    unfolding vin_parse_def Let_def v1 Option.bind.simps e prod.case v5 by (rule refl)
  have ns: "takeWhile (\<lambda>c. c \<noteq> NUL) vin = vin" using assms(2) by (auto simp: takeWhile_eq_all_conv)
  show ?thesis unfolding run using assms(1) by (simp add: vininfo_init_def vp(1) ns)
qed

definition vin_blank :: vininfo where
  "vin_blank = \<lparr>vi_year = 0, vi_vin = \<lparr>mp_pos = 0, mp_len = 0\<rparr>, vi_vds = \<lparr>mp_pos = 0, mp_len = 0\<rparr>,
     vi_vis = \<lparr>mp_pos = 0, mp_len = 0\<rparr>, vi_continent = None, vi_country = unknown_section,
     vi_manufac = unknown_section, vi_modelin = unknown_section, vi_bodytyp = unknown_section\<rparr>"

theorem vin_parse_correct_witness:
  "\<exists>vi. vin_parse 2020 ''LDC613P23A1234567'' vin_blank = Some (et_ok, vi) \<and> vi_vds vi = \<lparr>mp_pos = 3, mp_len = 6\<rparr> \<and>
     vi_year vi = 2010 \<and> vi_continent vi = Some ''Asia'' \<and> sc_string (vi_country vi) = ''China''"
proof -
  have "vds_offset ''LDC613P23A1234567'' = 3" "sc_string (country ''LDC613P23A1234567'') = ''China''"
      "model_year 2020 ''LDC613P23A1234567'' 0 = 2010" "region (CHR ''L'') = ''Asia''" by code_simp+
  moreover have "''LDC613P23A1234567'' ! 0 \<in> set first_chars" by code_simp
  moreover have "''LDC613P23A1234567'' ! 9 = g_year_chars ! 0" "NUL \<notin> set ''LDC613P23A1234567''" by code_simp+
  ultimately show ?thesis
    unfolding vin_parse_correct[of "''LDC613P23A1234567''" 0 2020 vin_blank, OF _ \<open>NUL \<notin> _\<close> \<open>_ \<in> set first_chars\<close> _ \<open>_ ! 9 = _\<close>, simplified]
    by simp
qed

text \<open>The last row of the country table is never reached. The search is bounded by the number of
  country enumerators, which is one less than the number of rows, so a number that starts with \<open>Z\<close> keeps
  the unknown country although the table lists Italy for it.\<close>

theorem vin_country_last_row_unreachable:
  assumes "length vin = 17" "vin ! 0 = CHR ''Z''"
  shows "(\<exists>p \<in> set g_country_table. sc_code p = ''Z'' \<and> sc_string p = ''Italy'') \<and>
         vp_country (vp_init vin) vi = Some (et_exist, vi)"
proof
  show "\<exists>p \<in> set g_country_table. sc_code p = ''Z'' \<and> sc_string p = ''Italy''"
    by (simp add: g_country_table_def section_of_def)
  obtain r where v: "vin = CHR ''Z'' # r" using assms by (cases vin) auto
  have "find (has_code vin 0) (take (vincoun_e_id vincoun_offset) g_country_table) = None"
    unfolding g_country_table_def v by (simp add: has_code_def section_of_def vin_unknown_section_def)
  moreover have "0 + 3 \<le> length vin" using assms(1) by simp
  ultimately show "vp_country (vp_init vin) vi = Some (et_exist, vi)"
    using find_codes[OF table_codes(1) table_sizes(1), of 0 vin]
    by (simp add: vp_country_def vp_init_def del: vincoun_e_id.simps)
qed

theorem vin_country_last_row_unreachable_witness:
  "vp_country (vp_init ''ZFA22300005556777'') vin_blank = Some (et_exist, vin_blank)"
  using vin_country_last_row_unreachable[of "''ZFA22300005556777''" vin_blank] by simp

end
