(* ===== verification/Awoke_Tcp.thy ===== *)
theory Awoke_Tcp
  imports Prelude "HOL-Library.Multiset"
begin

unbundle bit_operations_syntax

text \<open>
  The TCP connection of \<open>lib/libutil/src/awoke_tcp.c\<close>. The network operations it calls through
  \<open>awoke_network_io_get\<close> (\<open>awoke_socket.c\<close> fills the table with the system calls) are parameters:
  the result of \<open>socket\<close>, \<open>connect\<close>, \<open>send\<close> and \<open>recv\<close>. Closing a descriptor is recorded in the
  list of closed descriptors, so that a leak or a double close is visible.
\<close>

section \<open>Model\<close>

datatype awoke_tcp_connect_status = tcp_unavailable | tcp_init | tcp_connected

record sockaddr_in =
  sin_family :: int
  sin_port :: u16
  sin_addr :: u32

record awoke_tcp_connect =
  tc_sock :: int
  tc_port :: u16
  tc_flags :: u16
  tc_status :: awoke_tcp_connect_status
  tc_recv_len :: int
  tc_addr :: sockaddr_in

definition tcp_connect_status_set :: "awoke_tcp_connect \<Rightarrow> awoke_tcp_connect_status \<Rightarrow> awoke_tcp_connect" where
  "tcp_connect_status_set c st = c\<lparr>tc_status := st\<rparr>"

definition awoke_tcp_connect_release :: "awoke_tcp_connect \<Rightarrow> int list \<Rightarrow> err_type \<times> awoke_tcp_connect \<times> int list" where
  "awoke_tcp_connect_release c closed =
     (if tc_status c = tcp_unavailable then (et_ok, c, closed)
      else (et_ok, tcp_connect_status_set c tcp_unavailable, tc_sock c # closed))"

definition awoke_tcp_do_connect :: "(int \<Rightarrow> sockaddr_in \<Rightarrow> int) \<Rightarrow> awoke_tcp_connect \<Rightarrow> err_type \<times> awoke_tcp_connect" where
  "awoke_tcp_do_connect connect c =
     (if tc_status c = tcp_connected then (et_ok, c)
      else if connect (tc_sock c) (tc_addr c) < 0 then (et_sock_conn, c)
      else (et_ok, tcp_connect_status_set c tcp_connected))"

text \<open>The second result is the value stored through \<open>send_size\<close>, \<open>None\<close> when it is left alone.\<close>

definition awoke_tcp_connect_send ::
  "(int \<Rightarrow> 'a list \<Rightarrow> int) \<Rightarrow> awoke_tcp_connect option \<Rightarrow> 'a list option \<Rightarrow> err_type \<times> int option" where
  "awoke_tcp_connect_send send c buf = (case (c, buf) of
      (Some c, Some buf) \<Rightarrow>
        (if tc_status c \<noteq> tcp_connected then (et_param, None)
         else let ss = send (tc_sock c) buf in
           if ss < 0 then (et_sock_send, None) else (et_ok, Some ss))
    | _ \<Rightarrow> (et_param, None))"

definition awoke_tcp_connect_recv ::
  "(int \<Rightarrow> nat \<Rightarrow> int + 'a list) \<Rightarrow> (int \<Rightarrow> nat \<Rightarrow> int + 'a list) \<Rightarrow> awoke_tcp_connect \<Rightarrow> nat \<Rightarrow> bool \<Rightarrow> err_type + 'a list" where
  "awoke_tcp_connect_recv read recv c max_size block =
     (case (if block then read (tc_sock c) max_size else recv (tc_sock c) max_size) of
        Inl rs \<Rightarrow> Inl et_sock_recv
      | Inr d \<Rightarrow> Inr d)"

definition awoke_tcp_recv_finish :: "(int \<Rightarrow> bool) \<Rightarrow> awoke_tcp_connect \<Rightarrow> bool" where
  "awoke_tcp_recv_finish read_ready c \<longleftrightarrow> \<not> read_ready (tc_sock c)"

definition PF_INET :: int where "PF_INET = 2"

text \<open>The byte order of the network on a little-endian machine, where \<open>htons\<close> swaps the bytes of a port.\<close>

definition htons :: "u16 \<Rightarrow> u16" where
  "htons x = push_bit 8 x OR drop_bit 8 x"

definition awoke_tcp_connect_create ::
  "int \<Rightarrow> ('s \<Rightarrow> u32) \<Rightarrow> awoke_tcp_connect option \<Rightarrow> 's option \<Rightarrow> u16 \<Rightarrow> err_type \<times> awoke_tcp_connect option" where
  "awoke_tcp_connect_create fd inet_addr c addr port = (case (c, addr) of
      (Some c', Some a) \<Rightarrow>
        (if fd < 0 then (et_sock_creat, c)
         else (et_ok, Some (tcp_connect_status_set
           (c'\<lparr>tc_sock := fd, tc_addr := \<lparr>sin_family = PF_INET, sin_port = htons port, sin_addr = inet_addr a\<rparr>\<rparr>) tcp_init)))
    | _ \<Rightarrow> (et_param, c))"

section \<open>The life of a connection\<close>

text \<open>The operations a client performs on one connection, with the answers of the system.\<close>

datatype tcp_op = Create int u32 u16 | Connect int | Send int | Release

record tcp_world =
  w_conn :: awoke_tcp_connect
  w_opened :: "int list"
  w_closed :: "int list"

definition tcp_do :: "tcp_op \<Rightarrow> tcp_world \<Rightarrow> err_type \<times> tcp_world" where
  "tcp_do op w = (case op of
      Create fd a port \<Rightarrow> (case awoke_tcp_connect_create fd (\<lambda>_. a) (Some (w_conn w)) (Some ()) port of
          (e, Some c) \<Rightarrow> (e, w\<lparr>w_conn := c, w_opened := (if fd < 0 then w_opened w else fd # w_opened w)\<rparr>)
        | (e, None) \<Rightarrow> (e, w))
    | Connect r \<Rightarrow> (case awoke_tcp_do_connect (\<lambda>_ _. r) (w_conn w) of (e, c) \<Rightarrow> (e, w\<lparr>w_conn := c\<rparr>))
    | Send r \<Rightarrow> (fst (awoke_tcp_connect_send (\<lambda>_ (_ :: unit list). r) (Some (w_conn w)) (Some [])), w)
    | Release \<Rightarrow> (case awoke_tcp_connect_release (w_conn w) (w_closed w) of (e, c, cl) \<Rightarrow> (e, w\<lparr>w_conn := c, w_closed := cl\<rparr>)))"

inductive tcp_step :: "tcp_world \<Rightarrow> tcp_world \<Rightarrow> bool" where
  create: "tc_status (w_conn w) = tcp_unavailable \<Longrightarrow> tcp_do (Create fd a port) w = (e, w') \<Longrightarrow> tcp_step w w'"
| connect: "tc_status (w_conn w) \<noteq> tcp_unavailable \<Longrightarrow> tcp_do (Connect r) w = (e, w') \<Longrightarrow> tcp_step w w'"
| send: "tcp_do (Send r) w = (e, w') \<Longrightarrow> tcp_step w w'"
| release: "tcp_do Release w = (e, w') \<Longrightarrow> tcp_step w w'"

inductive_cases tcp_stepE: "tcp_step w w'"

text \<open>Every descriptor that was opened is closed once, or is the one the connection still holds.\<close>

definition no_leak :: "tcp_world \<Rightarrow> bool" where
  "no_leak w \<longleftrightarrow> w_opened w = (if tc_status (w_conn w) = tcp_unavailable then w_closed w else tc_sock (w_conn w) # w_closed w)"

lemmas tcp_defs = tcp_do_def awoke_tcp_connect_create_def awoke_tcp_do_connect_def awoke_tcp_connect_send_def
  awoke_tcp_connect_release_def tcp_connect_status_set_def

lemma no_leak_step: "tcp_step w w' \<Longrightarrow> no_leak w \<Longrightarrow> no_leak w'"
  by (elim tcp_stepE) (auto simp: tcp_defs no_leak_def split: if_splits)

inductive tcp_run :: "tcp_world \<Rightarrow> tcp_world \<Rightarrow> bool" where
  tcp_refl: "tcp_run w w"
| tcp_trans: "tcp_run w w' \<Longrightarrow> tcp_step w' w'' \<Longrightarrow> tcp_run w w''"

definition tcp_idle :: "awoke_tcp_connect \<Rightarrow> tcp_world" where
  "tcp_idle c = \<lparr>w_conn = c\<lparr>tc_status := tcp_unavailable\<rparr>, w_opened = [], w_closed = []\<rparr>"

section \<open>Properties\<close>

text \<open>C20: a client that creates a connection only when it holds none (the step relation \<open>tcp_step\<close> asks for that, and
  connects only what was created) closes every descriptor it opened exactly once, in the order of opening, except the
  one it still holds; and after a release it holds none, a second release closing nothing. Without that discipline
  a descriptor is lost (\<open>tcp_create_twice_leaks\<close>).\<close>

theorem awoke_tcp_no_leak:
  assumes "tcp_run (tcp_idle c) w"
  shows "w_opened w = (if tc_status (w_conn w) = tcp_unavailable then w_closed w else tc_sock (w_conn w) # w_closed w) \<and>
    w_opened (snd (tcp_do Release w)) = w_closed (snd (tcp_do Release w)) \<and>
    snd (tcp_do Release (snd (tcp_do Release w))) = snd (tcp_do Release w)"
proof -
  have n: "no_leak w"
    using assms
  proof (induction "tcp_idle c" w rule: tcp_run.induct)
    case tcp_refl
    then show ?case by (simp add: no_leak_def tcp_idle_def)
  qed (use no_leak_step in blast)
  have "no_leak (snd (tcp_do Release w))" using no_leak_step[OF tcp_step.release n] by (metis prod.collapse)
  then show ?thesis using n by (auto simp: no_leak_def tcp_defs)
qed

definition tcp_blank :: awoke_tcp_connect where
  "tcp_blank = \<lparr>tc_sock = 0, tc_port = 0, tc_flags = 0, tc_status = tcp_unavailable, tc_recv_len = 0,
     tc_addr = \<lparr>sin_family = 0, sin_port = 0, sin_addr = 0\<rparr>\<rparr>"

theorem awoke_tcp_no_leak_witness:
  "\<exists>w. tcp_run (tcp_idle tcp_blank) w \<and> tc_status (w_conn w) = tcp_connected \<and> w_opened w = [7] \<and>
     w_opened (snd (tcp_do Release w)) = w_closed (snd (tcp_do Release w))"
proof -
  define w1 where "w1 = snd (tcp_do (Create 7 1 80) (tcp_idle tcp_blank))"
  define w2 where "w2 = snd (tcp_do (Connect 0) w1)"
  have "tcp_step (tcp_idle tcp_blank) w1" by (rule tcp_step.create[of _ 7 1 80]) (simp_all add: w1_def tcp_defs tcp_idle_def tcp_blank_def)
  moreover have "tcp_step w1 w2" by (rule tcp_step.connect[of _ 0]) (simp_all add: w1_def w2_def tcp_defs tcp_idle_def tcp_blank_def)
  ultimately have r: "tcp_run (tcp_idle tcp_blank) w2" by (meson tcp_refl tcp_trans)
  have "tc_status (w_conn w2) = tcp_connected" "w_opened w2 = [7]"
    by (simp_all add: w2_def w1_def tcp_defs tcp_idle_def tcp_blank_def)
  then show ?thesis using r awoke_tcp_no_leak[OF r] by blast
qed

text \<open>Creating a second connection without having released the first one loses its descriptor: no release closes it.\<close>

lemma tcp_create_twice_leaks:
  assumes "tc_status (w_conn w) \<noteq> tcp_unavailable" "w_opened w = tc_sock (w_conn w) # w_closed w" "0 \<le> fd" "fd \<noteq> tc_sock (w_conn w)"
  shows "count (mset (w_opened (snd (tcp_do Release (snd (tcp_do (Create fd a port) w)))))) (tc_sock (w_conn w)) =
    Suc (count (mset (w_closed (snd (tcp_do Release (snd (tcp_do (Create fd a port) w)))))) (tc_sock (w_conn w)))"
  using assms by (simp add: tcp_defs)

end
