(* ===== verification/Http_Uri.thy ===== *)
theory Http_Uri
  imports C_String
begin

text \<open>
  The address parser of \<open>lib/libhttp/src/awoke_http.c\<close> (\<open>uri_parse\<close>): a state machine over the text of
  the address whose loop advances \<open>p\<close> and fills in references to the parts. A reference (\<open>mem_ptr_t\<close>)
  is an offset and a length, NULL is \<open>None\<close>. The port is an \<open>unsigned int\<close> and wraps around. The caller
  passes every result pointer, so all parts are returned.
\<close>

section \<open>Model\<close>

type_synonym span = "(nat \<times> nat) option"

datatype uri_state = P_START | P_SCHEME_OR_PORT | P_USER_INFO | P_HOST | P_PORT | P_REST

record uri_parts =
  u_p :: nat
  rport :: u32
  rscheme :: span
  ruser_info :: span
  rhost :: span
  rpath :: span
  rquery :: span
  rfragment :: span

definition parse_uri_component :: "string \<Rightarrow> nat \<Rightarrow> string \<Rightarrow> span \<times> nat" where
  "parse_uri_component s p seps =
     (let q = scan_to (\<lambda>c. c \<in> set seps) s p in (Some (p, q - p), if q < length s then q + 1 else q))"

text \<open>\<open>rport *= 10; rport += *p - '0'\<close> with a signed \<open>char\<close>.\<close>

definition port_digit :: "u32 \<Rightarrow> char \<Rightarrow> u32" where
  "port_digit r c = r * 10 + ((scast (of_char c :: u8) :: u32) - 48)"

function port_scan :: "string \<Rightarrow> nat \<Rightarrow> u32 \<Rightarrow> nat \<times> u32 \<times> bool" where
  "port_scan s p r = (if p < length s
     then if s ! p = CHR ''/'' then (p, r, True) else port_scan s (p + 1) (port_digit r (s ! p))
     else (p, r, False))"
  by pat_completeness auto
termination by (relation "measure (\<lambda>(s, p, r). length s - p)") auto

declare port_scan.simps [simp del]

definition uri_start :: "string \<Rightarrow> uri_parts \<Rightarrow> uri_state \<times> uri_parts" where
  "uri_start s c =
     (if s ! u_p c = CHR ''['' then (P_HOST, c)
      else let p = scan_to (\<lambda>c. c = CHR '':'' \<or> c = CHR ''/'') s (u_p c) in
        if p < length s \<and> s ! p = CHR '':'' then (P_SCHEME_OR_PORT, c\<lparr>u_p := p\<rparr>)
        else if p < length s then (P_REST, c\<lparr>u_p := p, rhost := Some (0, p)\<rparr>)
        else (P_START, c\<lparr>u_p := p, rhost := Some (0, p)\<rparr>))"

definition uri_scheme_or_port :: "string \<Rightarrow> uri_parts \<Rightarrow> uri_state \<times> uri_parts" where
  "uri_scheme_or_port s c =
     (let p = u_p c in
      if 3 \<le> length s - p \<and> take 3 (drop p s) = ''://''
      then (P_USER_INFO, c\<lparr>rscheme := Some (0, p), u_p := p + 3\<rparr>)
      else (P_PORT, c\<lparr>rhost := Some (0, p)\<rparr>))"

definition uri_user_info :: "string \<Rightarrow> uri_parts \<Rightarrow> uri_state \<times> uri_parts" where
  "uri_user_info s c =
     (let q = scan_to (\<lambda>c. c = CHR ''@'' \<or> c = CHR ''['' \<or> c = CHR ''/'') s (u_p c);
          p = (if q = length s \<or> s ! q = CHR ''/'' \<or> s ! q = CHR ''['' then u_p c else q)
      in (P_HOST, c\<lparr>ruser_info := Some (u_p c, p - u_p c), u_p := p\<rparr>))"

definition uri_host :: "string \<Rightarrow> uri_parts \<Rightarrow> (err_type + uri_state \<times> uri_parts) option" where
  "uri_host s c = do {
     c0 \<leftarrow> char_at s (u_p c);
     let h = (if c0 = CHR ''@'' then u_p c + 1 else u_p c);
     c1 \<leftarrow> char_at s h;
     let q = (if c1 = CHR ''['' then scan_to (\<lambda>c. c = CHR '']'') s h
              else scan_to (\<lambda>c. c = CHR '':'' \<or> c = CHR ''/'') s h);
     if c1 = CHR ''['' \<and> \<not> q < length s then Some (Inl et_param)
     else do {
       let p = (if c1 = CHR ''['' then q + 1 else q);
       let c' = c\<lparr>rhost := Some (h, p - h), u_p := p\<rparr>;
       Some (Inr (if p < length s \<and> s ! p = CHR '':'' then (P_PORT, c')
                  else if p < length s \<and> s ! p = CHR ''/'' then (P_REST, c')
                  else (P_HOST, c'))) } }"

definition uri_port :: "string \<Rightarrow> uri_parts \<Rightarrow> uri_state \<times> uri_parts" where
  "uri_port s c = (case port_scan s (u_p c + 1) (rport c) of
      (p, r, slash) \<Rightarrow> (if slash then P_REST else P_PORT, c\<lparr>u_p := p, rport := r\<rparr>))"

definition uri_rest :: "string \<Rightarrow> uri_parts \<Rightarrow> uri_state \<times> uri_parts" where
  "uri_rest s c =
     (let (path, p1) = parse_uri_component s (u_p c) ''?#'';
          (query, p2) = (if p1 < length s \<and> s ! (p1 - 1) = CHR ''?''
                         then parse_uri_component s p1 ''#'' else (rquery c, p1));
          (fragment, p3) = parse_uri_component s p2 []
      in (P_REST, c\<lparr>rpath := path, rquery := query, rfragment := fragment, u_p := p3\<rparr>))"

definition uri_step :: "string \<Rightarrow> uri_state \<Rightarrow> uri_parts \<Rightarrow> (err_type + uri_state \<times> uri_parts) option" where
  "uri_step s st c = (case st of
      P_START \<Rightarrow> Some (Inr (uri_start s c))
    | P_SCHEME_OR_PORT \<Rightarrow> Some (Inr (uri_scheme_or_port s c))
    | P_USER_INFO \<Rightarrow> Some (Inr (uri_user_info s c))
    | P_HOST \<Rightarrow> uri_host s c
    | P_PORT \<Rightarrow> Some (Inr (uri_port s c))
    | P_REST \<Rightarrow> Some (Inr (uri_rest s c)))"

text \<open>The states are visited in this order when \<open>p\<close> stands still.\<close>

primrec uri_rank :: "uri_state \<Rightarrow> nat" where
  "uri_rank P_START = 5"
| "uri_rank P_SCHEME_OR_PORT = 4"
| "uri_rank P_USER_INFO = 3"
| "uri_rank P_HOST = 2"
| "uri_rank P_PORT = 1"
| "uri_rank P_REST = 0"

definition uri_measure :: "string \<Rightarrow> uri_state \<Rightarrow> uri_parts \<Rightarrow> nat" where
  "uri_measure s st c = 6 * (length s - u_p c) + uri_rank st"

lemma port_scan_bounds: "p \<le> length s \<Longrightarrow> p \<le> fst (port_scan s p r) \<and> fst (port_scan s p r) \<le> length s"
proof (induction s p r rule: port_scan.induct)
  case (1 s p r)
  then show ?case by (simp add: port_scan.simps[of s p r] split: if_splits) force
qed

lemma port_scan_slash: "port_scan s p r = (q, r', sl) \<Longrightarrow> p \<le> length s \<Longrightarrow>
    (sl \<longrightarrow> q < length s) \<and> (\<not> sl \<longrightarrow> q = length s)"
proof (induction s p r rule: port_scan.induct)
  case (1 s p r)
  then show ?case by (auto simp add: port_scan.simps[of s p r] split: if_splits)
qed

lemma measure_moves: "u_p c < u_p c' \<Longrightarrow> u_p c' \<le> length s \<Longrightarrow> u_p c < length s \<Longrightarrow> uri_measure s st' c' < uri_measure s st c"
  by (cases st'; cases st) (auto simp: uri_measure_def)

lemma measure_stays: "u_p c \<le> u_p c' \<Longrightarrow> u_p c' \<le> length s \<Longrightarrow> uri_rank st' < uri_rank st \<Longrightarrow> uri_measure s st' c' < uri_measure s st c"
  by (auto simp: uri_measure_def)

lemma component_moves:
  assumes "parse_uri_component s p seps = (r, q)" "p \<le> length s"
  shows "p \<le> q \<and> q \<le> length s \<and> (p < length s \<longrightarrow> p < q)"
  using assms scan_to_bounds[of p s "\<lambda>c. c \<in> set seps"] by (auto simp: parse_uri_component_def Let_def split: if_splits)

text \<open>Every step stays inside the address and makes progress.\<close>

definition uri_progress :: "string \<Rightarrow> uri_state \<Rightarrow> uri_parts \<Rightarrow> uri_state \<times> uri_parts \<Rightarrow> bool" where
  "uri_progress s st c r \<longleftrightarrow> u_p c \<le> u_p (snd r) \<and> u_p (snd r) \<le> length s \<and>
     uri_measure s (fst r) (snd r) < uri_measure s st c"

lemma progressI:
  assumes "u_p c < length s" "u_p c' \<le> length s" "u_p c < u_p c' \<or> u_p c = u_p c' \<and> uri_rank st' < uri_rank st"
  shows "uri_progress s st c (st', c')"
  using assms measure_moves[of c c' s st' st] measure_stays[of c c' s st' st] by (auto simp: uri_progress_def)

lemma uri_start_progress: "u_p c < length s \<Longrightarrow> uri_progress s P_START c (uri_start s c)"
  using scan_to_bounds[of "u_p c" s "\<lambda>c. c = CHR '':'' \<or> c = CHR ''/''"]
  by (auto simp: uri_start_def Let_def intro!: progressI)

lemma uri_scheme_or_port_progress: "u_p c < length s \<Longrightarrow> uri_progress s P_SCHEME_OR_PORT c (uri_scheme_or_port s c)"
  by (auto simp: uri_scheme_or_port_def Let_def intro!: progressI)

lemma uri_user_info_progress: "u_p c < length s \<Longrightarrow> uri_progress s P_USER_INFO c (uri_user_info s c)"
  using scan_to_bounds[of "u_p c" s "\<lambda>c. c = CHR ''@'' \<or> c = CHR ''['' \<or> c = CHR ''/''"]
  by (auto simp: uri_user_info_def Let_def intro!: progressI)

lemma uri_port_progress: "u_p c < length s \<Longrightarrow> uri_progress s P_PORT c (uri_port s c)"
  using port_scan_bounds[of "u_p c + 1" s "rport c"]
  by (auto simp: uri_port_def split: prod.split intro!: progressI)

lemma uri_rest_progress: "u_p c < length s \<Longrightarrow> uri_progress s P_REST c (uri_rest s c)"
proof -
  assume l: "u_p c < length s"
  obtain a p1 where 1: "parse_uri_component s (u_p c) ''?#'' = (a, p1)" by fastforce
  obtain b p2 where 2: "(if p1 < length s \<and> s ! (p1 - 1) = CHR ''?'' then parse_uri_component s p1 ''#'' else (rquery c, p1)) = (b, p2)"
    by (metis surj_pair)
  obtain d p3 where 3: "parse_uri_component s p2 [] = (d, p3)" by fastforce
  have p1: "u_p c < p1" "p1 \<le> length s" using component_moves[OF 1] l by auto
  have p2: "p1 \<le> p2" "p2 \<le> length s" using component_moves[of s p1 "''#''" b p2] 2 p1 by (auto split: if_splits)
  have "uri_rest s c = (P_REST, c\<lparr>rpath := a, rquery := b, rfragment := d, u_p := p3\<rparr>)"
    by (simp add: uri_rest_def 1 2[simplified] 3)
  then show ?thesis using p1 p2 component_moves[OF 3] l by (auto intro!: progressI)
qed

lemma uri_host_progress:
  assumes "u_p c < length s"
  shows "\<exists>r. uri_host s c = Some r \<and> (\<forall>st' c'. r = Inr (st', c') \<longrightarrow> uri_progress s P_HOST c (st', c'))"
proof -
  define h where "h = (if s ! u_p c = CHR ''@'' then u_p c + 1 else u_p c)"
  have h: "u_p c \<le> h" "h \<le> length s" using assms by (auto simp: h_def)
  then obtain c1 where c1: "char_at s h = Some c1" "c1 = CHR ''['' \<longrightarrow> h < length s"
    by (cases "h < length s") (auto simp: char_at_def NUL_def)
  note b = scan_to_bounds[OF h(2)]
  show ?thesis
  proof (cases "c1 = CHR ''[''")
    case True
    with assms c1 h b[of "\<lambda>c. c = CHR '']''"] show ?thesis
      by (auto simp: uri_host_def h_def[symmetric] Let_def intro!: progressI)
  next
    case False
    let ?q = "scan_to (\<lambda>c. c = CHR '':'' \<or> c = CHR ''/'') s h"
    have "?q < length s \<Longrightarrow> s ! ?q = CHR '':'' \<or> s ! ?q = CHR ''/''" using scan_to_stops[OF h(2)] by blast
    with assms c1 h b[of "\<lambda>c. c = CHR '':'' \<or> c = CHR ''/''"] False show ?thesis
      by (auto simp: uri_host_def h_def[symmetric] Let_def intro!: progressI)
  qed
qed

lemmas uri_progress_rules = uri_start_progress uri_scheme_or_port_progress uri_user_info_progress
  uri_port_progress uri_rest_progress

lemma uri_step_progress:
  assumes "u_p c < length s"
  shows "\<exists>r. uri_step s st c = Some r \<and> (\<forall>st' c'. r = Inr (st', c') \<longrightarrow> uri_progress s st c (st', c'))"
proof (cases st)
  case P_HOST
  then show ?thesis using uri_host_progress[OF assms] by (simp add: uri_step_def)
qed (use uri_progress_rules[OF assms] in \<open>auto simp: uri_step_def\<close>)

text \<open>\<open>while (p < end) switch (state)\<close>\<close>

function uri_loop :: "string \<Rightarrow> uri_state \<Rightarrow> uri_parts \<Rightarrow> (err_type + uri_parts) option" where
  "uri_loop s st c =
     (if u_p c < length s
      then case uri_step s st c of
          None \<Rightarrow> None
        | Some (Inl e) \<Rightarrow> Some (Inl e)
        | Some (Inr (st', c')) \<Rightarrow> uri_loop s st' c'
      else Some (Inr c))"
  by pat_completeness auto
termination
proof (relation "measure (\<lambda>(s, st, c). uri_measure s st c)")
  fix s st c x r y st' c'
  assume "u_p c < length s" "uri_step s st c = Some x" "x = Inr r" "(st', c') = r"
  then show "((s, st', c'), s, st, c) \<in> measure (\<lambda>(s, st, c). uri_measure s st c)"
    using uri_step_progress[of c s st] by (auto simp: uri_progress_def)
qed auto

declare uri_loop.simps [simp del]

definition uri_parse :: "string \<Rightarrow> (err_type + uri_parts) option" where
  "uri_parse s = uri_loop s P_START
     \<lparr>u_p = 0, rport = 0, rscheme = None, ruser_info = None, rhost = None,
      rpath = None, rquery = None, rfragment = None\<rparr>"

section \<open>Bounds\<close>

definition span_in :: "string \<Rightarrow> span \<Rightarrow> bool" where
  "span_in s sp = (case sp of None \<Rightarrow> True | Some (p, n) \<Rightarrow> p + n \<le> length s)"

definition parts_in :: "string \<Rightarrow> uri_parts \<Rightarrow> bool" where
  "parts_in s c \<longleftrightarrow> span_in s (rscheme c) \<and> span_in s (ruser_info c) \<and> span_in s (rhost c) \<and>
     span_in s (rpath c) \<and> span_in s (rquery c) \<and> span_in s (rfragment c)"

lemma span_in_simps [simp]: "span_in s None" "span_in s (Some (p, n)) \<longleftrightarrow> p + n \<le> length s"
  by (simp_all add: span_in_def)

lemma component_in: "p \<le> length s \<Longrightarrow> span_in s (fst (parse_uri_component s p seps))"
  using scan_to_bounds[of p s "\<lambda>c. c \<in> set seps"] by (simp add: parse_uri_component_def Let_def)

lemma uri_rest_in: "u_p c \<le> length s \<Longrightarrow> parts_in s c \<Longrightarrow> parts_in s (snd (uri_rest s c))"
proof -
  assume l: "u_p c \<le> length s" and ok: "parts_in s c"
  obtain a p1 where 1: "parse_uri_component s (u_p c) ''?#'' = (a, p1)" by fastforce
  obtain b p2 where 2: "(if p1 < length s \<and> s ! (p1 - 1) = CHR ''?'' then parse_uri_component s p1 ''#'' else (rquery c, p1)) = (b, p2)"
    by (metis surj_pair)
  obtain d p3 where 3: "parse_uri_component s p2 [] = (d, p3)" by fastforce
  have a: "span_in s a" using component_in[of "u_p c" s "''?#''"] 1 l by simp
  have p1: "p1 \<le> length s" using component_moves[OF 1 l] by simp
  have b: "span_in s b" "p2 \<le> length s"
    using component_in[of p1 s "''#''"] component_moves[of s p1 "''#''" b p2] 2 p1 ok by (auto simp: parts_in_def split: if_splits)
  have d: "span_in s d" using component_in[of p2 s "[]"] 3 b by simp
  show ?thesis using a b d ok by (simp add: uri_rest_def 1 2[simplified] 3 parts_in_def)
qed

lemma uri_host_in:
  assumes "u_p c < length s" "parts_in s c" "uri_host s c = Some (Inr (st', c'))"
  shows "parts_in s c'"
proof -
  define h where "h = (if s ! u_p c = CHR ''@'' then u_p c + 1 else u_p c)"
  have h: "h \<le> length s" using assms(1) by (auto simp: h_def)
  note b = scan_to_bounds[OF h, of "\<lambda>c. c = CHR '']''"] scan_to_bounds[OF h, of "\<lambda>c. c = CHR '':'' \<or> c = CHR ''/''"]
  have "\<exists>p. c' = c\<lparr>rhost := Some (h, p - h), u_p := p\<rparr> \<and> h \<le> p \<and> p \<le> length s"
  proof -
    have c0: "char_at s (u_p c) = Some (s ! u_p c)" using assms(1) by simp
    obtain c1 where "char_at s h = Some c1" using h by (cases "h = length s") auto
    then show ?thesis
      using assms(3) b unfolding uri_host_def c0 Option.bind.simps Let_def h_def[symmetric]
      by (cases "c1 = CHR ''[''") (auto split: if_splits)
  qed
  then show ?thesis using assms(2) by (auto simp: parts_in_def)
qed

lemma uri_step_in:
  assumes "u_p c < length s" "parts_in s c" "uri_step s st c = Some (Inr (st', c'))"
  shows "parts_in s c'"
proof (cases st)
  case P_START
  then show ?thesis using assms scan_to_bounds[of "u_p c" s "\<lambda>c. c = CHR '':'' \<or> c = CHR ''/''"]
    by (auto simp: uri_step_def uri_start_def Let_def parts_in_def split: if_splits)
next
  case P_USER_INFO
  then show ?thesis using assms scan_to_bounds[of "u_p c" s "\<lambda>c. c = CHR ''@'' \<or> c = CHR ''['' \<or> c = CHR ''/''"]
    by (auto simp: uri_step_def uri_user_info_def Let_def parts_in_def split: if_splits)
next
  case P_HOST
  then show ?thesis using assms uri_host_in by (simp add: uri_step_def)
next
  case P_REST
  then show ?thesis using assms uri_rest_in[of c s] by (auto simp: uri_step_def)
qed (use assms in \<open>auto simp: uri_step_def uri_scheme_or_port_def uri_port_def Let_def parts_in_def split: if_splits prod.splits\<close>)

lemma uri_loop_in:
  "parts_in s c \<Longrightarrow> \<exists>r. uri_loop s st c = Some r \<and> (\<forall>c'. r = Inr c' \<longrightarrow> parts_in s c') \<and> (\<forall>e. r = Inl e \<longrightarrow> e = et_param)"
proof (induction s st c rule: uri_loop.induct)
  case (1 s st c)
  show ?case
  proof (cases "u_p c < length s")
    case True
    obtain r where r: "uri_step s st c = Some r" using uri_step_progress[OF True] by blast
    show ?thesis
    proof (cases r)
      case (Inl e)
      with r have "e = et_param"
        by (auto simp: uri_step_def uri_host_def Let_def bind_eq_Some_conv split: uri_state.splits if_splits)
      with Inl r True show ?thesis by (simp add: uri_loop.simps[of s st c])
    next
      case (Inr q)
      obtain st' c' where q: "q = (st', c')" by fastforce
      with Inr r True have "parts_in s c'" using uri_step_in 1 by blast
      with 1(1)[OF True r Inr q[symmetric]] show ?thesis using r Inr q True by (simp add: uri_loop.simps[of s st c])
    qed
  qed (use 1 in \<open>simp add: uri_loop.simps\<close>)
qed

section \<open>Printing addresses\<close>

definition view :: "string \<Rightarrow> span \<Rightarrow> string" where
  "view s sp = (case sp of None \<Rightarrow> [] | Some (p, n) \<Rightarrow> take n (drop p s))"

record uri_text =
  scheme :: "string option"
  user :: "string option"
  host :: string
  port :: "string option"
  path :: string
  query :: "string option"
  fragment :: "string option"

definition opt_text :: "string \<Rightarrow> string \<Rightarrow> string option \<Rightarrow> string" where
  "opt_text l r x = (case x of None \<Rightarrow> [] | Some t \<Rightarrow> l @ t @ r)"

definition rest_text :: "uri_text \<Rightarrow> string" where
  "rest_text u = path u @ opt_text ''?'' [] (query u) @ opt_text ''#'' [] (fragment u)"

definition authority_text :: "uri_text \<Rightarrow> string" where
  "authority_text u = host u @ opt_text '':'' [] (port u) @ rest_text u"

definition uri_print :: "uri_text \<Rightarrow> string" where
  "uri_print u = opt_text [] ''://'' (scheme u) @ opt_text [] ''@'' (user u) @ authority_text u"

definition avoids :: "string \<Rightarrow> string \<Rightarrow> bool" where
  "avoids cs x \<longleftrightarrow> list_all (\<lambda>c. c \<notin> set cs) x"

definition is_digit :: "char \<Rightarrow> bool" where
  "is_digit c \<longleftrightarrow> c \<in> set ''0123456789''"

text \<open>An address in the forms the parser names: with a scheme, an optional user and an optional port, or
  without a scheme and a user. A query or a fragment needs a path.\<close>

definition uri_wf :: "uri_text \<Rightarrow> bool" where
  "uri_wf u \<longleftrightarrow> pred_option (avoids ''[:/'') (scheme u) \<and> pred_option (avoids ''@[/'') (user u) \<and>
     avoids '':/@['' (host u) \<and> pred_option (\<lambda>d. d \<noteq> [] \<and> list_all is_digit d) (port u) \<and>
     (path u = [] \<and> query u = None \<and> fragment u = None \<or>
      path u \<noteq> [] \<and> hd (path u) = CHR ''/'' \<and> avoids ''?#'' (path u) \<and>
      pred_option (avoids ''#'') (query u)) \<and>
     (scheme u = None \<longrightarrow> user u = None)"

definition port_value :: "string \<Rightarrow> nat" where
  "port_value d = foldl (\<lambda>n c. n * 10 + (of_char c - 48)) 0 d"

definition uri_denotes :: "string \<Rightarrow> uri_parts \<Rightarrow> uri_text \<Rightarrow> bool" where
  "uri_denotes s c u \<longleftrightarrow>
     view s (rscheme c) = (case scheme u of None \<Rightarrow> [] | Some x \<Rightarrow> x) \<and>
     view s (ruser_info c) = (case user u of None \<Rightarrow> [] | Some x \<Rightarrow> x) \<and>
     view s (rhost c) = host u \<and>
     rport c = (case port u of None \<Rightarrow> 0 | Some d \<Rightarrow> of_nat (port_value d)) \<and>
     view s (rpath c) = path u \<and>
     view s (rquery c) = (case query u of None \<Rightarrow> [] | Some x \<Rightarrow> x) \<and>
     view s (rfragment c) = (case fragment u of None \<Rightarrow> [] | Some x \<Rightarrow> x)"

lemma scan_seg:
  assumes "s = a @ b @ c" "p = length a" "\<forall>x \<in> set b. \<not> stop x" "c = [] \<or> stop (hd c)"
  shows "scan_to stop s p = p + length b"
  using scan_to_append[OF assms(3,4), of a] assms(1,2) by simp

lemma view_seg: "s = a @ b @ c \<Longrightarrow> p = length a \<Longrightarrow> n = length b \<Longrightarrow> view s (Some (p, n)) = b"
  by (simp add: view_def)

lemma view_simps [simp]: "view s None = []" "view s (Some (p, 0)) = []"
  by (simp_all add: view_def)

lemma uri_loop_end: "u_p c = length s \<Longrightarrow> uri_loop s st c = Some (Inr c)"
  by (simp add: uri_loop.simps)

lemma uri_loop_step:
  "u_p c < length s \<Longrightarrow> uri_step s st c = Some (Inr (st', c')) \<Longrightarrow> uri_loop s st c = uri_loop s st' c'"
  by (simp add: uri_loop.simps[of s st c])

lemma component_seg:
  assumes "s = a @ b @ c" "p = length a" "avoids seps b" "c = [] \<or> hd c \<in> set seps"
  shows "parse_uri_component s p seps = (Some (p, length b), if c = [] then length s else p + length b + 1)"
  using scan_seg[of s a b c p "\<lambda>c. c \<in> set seps"] assms
  by (auto simp: parse_uri_component_def Let_def avoids_def list_all_iff)

text \<open>The part from the first slash on.\<close>

lemma uri_loop_rest:
  assumes s: "s = a @ rest_text u" and wf: "uri_wf u" and p: "u_p c = length a" "rquery c = None" "rpath c = None" "rfragment c = None"
    and st: "rest_text u \<noteq> [] \<longrightarrow> st = P_REST"
  shows "\<exists>P Q F. uri_loop s st c = Some (Inr (c\<lparr>u_p := length s, rpath := P, rquery := Q, rfragment := F\<rparr>)) \<and>
    view s P = path u \<and> view s Q = (case query u of None \<Rightarrow> [] | Some x \<Rightarrow> x) \<and>
    view s F = (case fragment u of None \<Rightarrow> [] | Some x \<Rightarrow> x)"
proof (cases "path u = []")
  case True
  with wf have n: "query u = None" "fragment u = None" by (auto simp: uri_wf_def)
  then have "u_p c = length s" using s p True by (simp add: rest_text_def opt_text_def)
  then have "uri_loop s st c = Some (Inr (c\<lparr>u_p := length s, rpath := None, rquery := None, rfragment := None\<rparr>))"
    using p by (simp add: uri_loop_end)
  then show ?thesis using True n by (intro exI[of _ None]) simp
next
  case False
  define f where "f = opt_text ''#'' [] (fragment u)"
  define qf where "qf = opt_text ''?'' [] (query u) @ f"
  have wf': "avoids ''?#'' (path u)" "pred_option (avoids ''#'') (query u)" using wf False by (auto simp: uri_wf_def)
  have s1: "s = a @ path u @ qf" using s by (simp add: rest_text_def qf_def f_def)
  have st': "st = P_REST" and l: "u_p c < length s" using st False p s1 by (auto simp: rest_text_def)
  have 1: "parse_uri_component s (length a) ''?#'' = (Some (length a, length (path u)), if qf = [] then length s else length a + length (path u) + 1)"
    using component_seg[OF s1 p(1) wf'(1)] by (auto simp: qf_def f_def opt_text_def p(1) split: option.splits)
  have frag: "parse_uri_component s q [] = (Some (q, length s - q), length s)" if "q \<le> length s" for q
    using component_seg[of s "take q s" "drop q s" "[]" q "[]"] that by (simp add: avoids_def list_all_iff)
  define c' where "c' = snd (uri_rest s c)"
  have r: "uri_rest s c = (P_REST, c')" by (simp add: c'_def uri_rest_def split: prod.split)
  have vp: "view s (Some (length a, length (path u))) = path u" using view_seg[OF s1] by simp
  have key: "\<exists>Q F. c' = c\<lparr>u_p := length s, rpath := Some (length a, length (path u)), rquery := Q, rfragment := F\<rparr> \<and>
     view s Q = (case query u of None \<Rightarrow> [] | Some x \<Rightarrow> x) \<and> view s F = (case fragment u of None \<Rightarrow> [] | Some x \<Rightarrow> x)"
  proof (cases "query u")
    case None
    let ?q = "if qf = [] then length s else length a + length (path u) + 1"
    have q: "?q \<le> length s" "?q < length s \<longrightarrow> s ! (?q - 1) \<noteq> CHR ''?''"
      using None s1 by (auto simp: qf_def f_def opt_text_def nth_append split: option.splits)
    have c': "c' = c\<lparr>u_p := length s, rpath := Some (length a, length (path u)), rquery := None, rfragment := Some (?q, length s - ?q)\<rparr>"
      using q frag[OF q(1)] by (cases "qf = []") (auto simp add: c'_def uri_rest_def 1 p)
    moreover have "view s (Some (?q, length s - ?q)) = (case fragment u of None \<Rightarrow> [] | Some x \<Rightarrow> x)"
      using None s1 by (auto simp: view_def qf_def f_def opt_text_def split: option.splits)
    ultimately show ?thesis using None by (intro exI conjI) auto
  next
    case (Some y)
    let ?a = "a @ path u @ ''?''"
    have s2: "s = ?a @ y @ f" using s1 Some by (simp add: qf_def opt_text_def)
    have y: "avoids ''#'' y" using wf'(2) Some by simp
    have pn: "s ! (length a + length (path u)) = CHR ''?''" by (simp add: s2 nth_append)
    have qf: "qf \<noteq> []" using Some by (simp add: qf_def opt_text_def)
    show ?thesis
    proof (cases "length ?a < length s")
      case True
      let ?q = "if f = [] then length s else length ?a + length y + 1"
      have 2: "parse_uri_component s (Suc (length a + length (path u))) ''#'' = (Some (length ?a, length y), ?q)"
        using component_seg[OF s2 _ y] by (simp add: f_def opt_text_def split: option.splits)
      have q: "?q \<le> length s" using s2 by (cases f) auto
      have c': "c' = c\<lparr>u_p := length s, rpath := Some (length a, length (path u)), rquery := Some (length ?a, length y), rfragment := Some (?q, length s - ?q)\<rparr>"
        using frag[OF q] 2 True pn qf by (simp add: c'_def uri_rest_def 1 p)
      moreover have "view s (Some (length ?a, length y)) = y" using view_seg[OF s2] by simp
      moreover have "view s (Some (?q, length s - ?q)) = (case fragment u of None \<Rightarrow> [] | Some x \<Rightarrow> x)"
        using s2 by (auto simp: view_def f_def opt_text_def split: option.splits)
      ultimately show ?thesis using Some by (intro exI conjI) auto
    next
      case F: False
      then have e: "y = []" "f = []" "fragment u = None" using s2 by (auto simp: f_def opt_text_def split: option.splits)
      have q: "length ?a = length s" using s2 e by simp
      have c': "c' = c\<lparr>u_p := length s, rpath := Some (length a, length (path u)), rquery := None, rfragment := Some (length s, 0)\<rparr>"
        using frag[of "length s"] q qf p by (simp add: c'_def uri_rest_def 1 p)
      then show ?thesis using Some e by (intro exI conjI) auto
    qed
  qed
  then obtain Q F where Q: "c' = c\<lparr>u_p := length s, rpath := Some (length a, length (path u)), rquery := Q, rfragment := F\<rparr>"
     "view s Q = (case query u of None \<Rightarrow> [] | Some x \<Rightarrow> x)" "view s F = (case fragment u of None \<Rightarrow> [] | Some x \<Rightarrow> x)" by blast
  have "uri_loop s st c = Some (Inr c')"
    using uri_loop_step[OF l, of st P_REST c'] uri_loop_end[of c' s P_REST] Q by (simp add: st' uri_step_def r)
  then show ?thesis using Q vp by blast
qed


text \<open>The port.\<close>

lemma port_digit_value: "is_digit c \<Longrightarrow> port_digit (of_nat n) c = of_nat (n * 10 + (of_char c - 48))"
  by (auto simp: is_digit_def port_digit_def)

lemma is_digit_other: "is_digit c \<Longrightarrow> c \<noteq> CHR ''/'' \<and> c \<noteq> CHR ''@'' \<and> c \<noteq> CHR ''['' \<and> c \<noteq> CHR '':''"
  by (auto simp: is_digit_def)

lemma port_scan_digits:
  assumes "list_all is_digit d" "t = [] \<or> hd t = CHR ''/''"
  shows "port_scan (a @ d @ t) (length a) (of_nat n) =
    (length a + length d, of_nat (foldl (\<lambda>n c. n * 10 + (of_char c - 48)) n d), t \<noteq> [])"
  using assms(1)
proof (induction d arbitrary: a n)
  case Nil
  then show ?case using assms(2) by (cases t) (auto simp: port_scan.simps nth_append)
next
  case (Cons c d)
  then have "port_scan (a @ (c # d) @ t) (length a) (of_nat n) =
      port_scan ((a @ [c]) @ d @ t) (length (a @ [c])) (of_nat (n * 10 + (of_char c - 48)))"
    using is_digit_other[of c] port_digit_value[of c n]
    by (subst port_scan.simps) (simp add: nth_append)
  also have "\<dots> = (length (a @ [c]) + length d,
      of_nat (foldl (\<lambda>n c. n * 10 + (of_char c - 48)) (n * 10 + (of_char c - 48)) d), t \<noteq> [])"
    by (rule Cons.IH) (use Cons.prems in simp)
  finally show ?case by simp
qed

lemma rest_text_hd: "uri_wf u \<Longrightarrow> rest_text u = [] \<or> hd (rest_text u) = CHR ''/''"
  by (auto simp: uri_wf_def rest_text_def opt_text_def)

lemma uri_loop_port:
  assumes s: "s = a @ opt_text '':'' [] (port u) @ rest_text u" and wf: "uri_wf u"
    and p: "u_p c = length a" "rquery c = None" "rpath c = None" "rfragment c = None" "rport c = 0"
    and st: "port u \<noteq> None \<longrightarrow> st = P_PORT" "port u = None \<and> rest_text u \<noteq> [] \<longrightarrow> st = P_REST"
  shows "\<exists>P Q F. uri_loop s st c = Some (Inr (c\<lparr>u_p := length s,
       rport := (case port u of None \<Rightarrow> 0 | Some d \<Rightarrow> of_nat (port_value d)), rpath := P, rquery := Q, rfragment := F\<rparr>)) \<and>
    view s P = path u \<and> view s Q = (case query u of None \<Rightarrow> [] | Some x \<Rightarrow> x) \<and>
    view s F = (case fragment u of None \<Rightarrow> [] | Some x \<Rightarrow> x)"
proof (cases "port u")
  case None
  have s': "s = a @ rest_text u" using s None by (simp add: opt_text_def)
  obtain P Q F where
    "uri_loop s st c = Some (Inr (c\<lparr>u_p := length s, rpath := P, rquery := Q, rfragment := F\<rparr>))"
    "view s P = path u" "view s Q = (case query u of None \<Rightarrow> [] | Some x \<Rightarrow> x)"
    "view s F = (case fragment u of None \<Rightarrow> [] | Some x \<Rightarrow> x)"
    using uri_loop_rest[OF s' wf p(1-4), of st] None st(2) by auto
  moreover have "c\<lparr>u_p := n, rport := 0\<rparr> = c\<lparr>u_p := n\<rparr>" for n using p(5) by simp
  ultimately show ?thesis using None by (intro exI[of _ P] exI[of _ Q] exI[of _ F]) simp
next
  case (Some d)
  then have d: "list_all is_digit d" using wf by (simp add: uri_wf_def)
  let ?a = "a @ '':''" and ?v = "of_nat (port_value d) :: u32"
  have s1: "s = ?a @ d @ rest_text u" and s2: "s = (?a @ d) @ rest_text u" using s Some by (simp_all add: opt_text_def)
  have l: "u_p c < length s" using p(1) s1 by simp
  let ?c = "c\<lparr>u_p := length (?a @ d), rport := ?v\<rparr>" and ?st = "if rest_text u \<noteq> [] then P_REST else P_PORT"
  have "port_scan s (u_p c + 1) (rport c) = (length (?a @ d), ?v, rest_text u \<noteq> [])"
    using port_scan_digits[OF d rest_text_hd[OF wf], of ?a 0] s1 p by (simp add: port_value_def)
  then have "uri_loop s st c = uri_loop s ?st ?c"
    using uri_loop_step[OF l, of st ?st ?c] st Some by (simp add: uri_step_def uri_port_def)
  moreover obtain P Q F where
    "uri_loop s ?st ?c = Some (Inr (?c\<lparr>u_p := length s, rpath := P, rquery := Q, rfragment := F\<rparr>))"
    "view s P = path u" "view s Q = (case query u of None \<Rightarrow> [] | Some x \<Rightarrow> x)"
    "view s F = (case fragment u of None \<Rightarrow> [] | Some x \<Rightarrow> x)"
    using uri_loop_rest[OF s2 wf, of ?c ?st] p by auto
  ultimately show ?thesis using Some by (intro exI[of _ P] exI[of _ Q] exI[of _ F]) simp
qed

text \<open>The host, with the separator of the user in front of it or not.\<close>

lemma authority_hd:
  "uri_wf u \<Longrightarrow> opt_text '':'' [] (port u) @ rest_text u = [] \<or> hd (opt_text '':'' [] (port u) @ rest_text u) \<in> {CHR '':'', CHR ''/''}"
  using rest_text_hd[of u] by (auto simp: opt_text_def split: option.splits)

lemma uri_loop_host:
  assumes s: "s = a @ pre @ authority_text u" and wf: "uri_wf u" and pre: "pre = [] \<or> pre = ''@''"
    and p: "u_p c = length a" "rquery c = None" "rpath c = None" "rfragment c = None" "rport c = 0" "rhost c = None"
  shows "\<exists>H P Q F. uri_loop s P_HOST c = Some (Inr (c\<lparr>u_p := length s,
       rport := (case port u of None \<Rightarrow> 0 | Some d \<Rightarrow> of_nat (port_value d)), rhost := H, rpath := P, rquery := Q, rfragment := F\<rparr>)) \<and>
    view s H = host u \<and>
    view s P = path u \<and> view s Q = (case query u of None \<Rightarrow> [] | Some x \<Rightarrow> x) \<and>
    view s F = (case fragment u of None \<Rightarrow> [] | Some x \<Rightarrow> x)"
proof (cases "pre = [] \<and> authority_text u = []")
  case True
  then have e: "host u = []" "port u = None" "path u = []" "query u = None" "fragment u = None"
    by (auto simp: authority_text_def rest_text_def opt_text_def split: option.splits)
  have "uri_loop s P_HOST c = Some (Inr c)" using True s p by (simp add: uri_loop_end)
  moreover have "c = c\<lparr>u_p := length s, rport := 0, rhost := None, rpath := None, rquery := None, rfragment := None\<rparr>"
    using True s p by simp
  ultimately have "uri_loop s P_HOST c = Some (Inr (c\<lparr>u_p := length s, rport := 0, rhost := None, rpath := None, rquery := None, rfragment := None\<rparr>))"
    by simp
  then show ?thesis using e by (intro exI[of _ None]) simp
next
  case False
  define t where "t = opt_text '':'' [] (port u) @ rest_text u"
  have h: "avoids '':/@['' (host u)" using wf by (simp add: uri_wf_def)
  have th: "t = [] \<or> hd t = CHR '':'' \<or> hd t = CHR ''/''" using authority_hd[OF wf] by (simp add: t_def)
  have s1: "s = (a @ pre) @ host u @ t" and s2: "s = (a @ pre @ host u) @ t" using s by (simp_all add: authority_text_def t_def)
  have l: "u_p c < length s" using False p s by auto
  let ?h = "length (a @ pre)"
  have ht: "host u @ t = [] \<or> hd (host u @ t) \<noteq> CHR ''['' \<and> hd (host u @ t) \<noteq> CHR ''@''"
    using h th by (cases "host u") (auto simp: avoids_def)
  have "s ! length a = CHR ''@'' \<longleftrightarrow> pre = ''@''"
    using pre ht l p(1) s1 by (cases "host u @ t") (auto simp: nth_append)
  then have c0: "(if s ! u_p c = CHR ''@'' then u_p c + 1 else u_p c) = ?h" using pre p(1) by auto
  obtain c1 where c1: "char_at s ?h = Some c1" "c1 \<noteq> CHR ''[''"
    using ht s1 by (cases "host u @ t") (auto simp: char_at_def NUL_def nth_append)
  have q: "scan_to (\<lambda>c. c = CHR '':'' \<or> c = CHR ''/'') s ?h = length (a @ pre @ host u)"
    using scan_seg[OF s1 refl] h th by (auto simp: avoids_def list_all_iff)
  let ?c = "c\<lparr>rhost := Some (?h, length (host u)), u_p := length (a @ pre @ host u)\<rparr>"
  define st' where "st' = (if t = [] then P_HOST else if hd t = CHR '':'' then P_PORT else P_REST)"
  let ?n = "length (a @ pre @ host u)"
  have n: "t \<noteq> [] \<Longrightarrow> s ! ?n = hd t" "?n < length s \<longleftrightarrow> t \<noteq> []"
    unfolding s2 by (simp_all add: nth_append hd_conv_nth)
  have st': "(if ?n < length s \<and> s ! ?n = CHR '':'' then (P_PORT, ?c)
      else if ?n < length s \<and> s ! ?n = CHR ''/'' then (P_REST, ?c) else (P_HOST, ?c)) = (st', ?c)"
    using n th by (auto simp: st'_def)
  have e: "char_at s (u_p c) = Some (s ! u_p c)" using l by simp
  have ln: "?n - ?h = length (host u)" by simp
  have "uri_host s c = Some (Inr (st', ?c))"
    unfolding uri_host_def e Option.bind.simps Let_def c0 c1(1) q using c1(2)
    by (simp only: if_False simp_thms ln st')
  then have lp: "uri_loop s P_HOST c = uri_loop s st' ?c" using uri_loop_step[OF l] by (simp add: uri_step_def)
  have st: "port u \<noteq> None \<longrightarrow> st' = P_PORT" "port u = None \<and> rest_text u \<noteq> [] \<longrightarrow> st' = P_REST"
    using rest_text_hd[OF wf] by (cases "port u"; auto simp: st'_def t_def opt_text_def)+
  have "view s (Some (?h, length (host u))) = host u" using view_seg[OF s1] by simp
  moreover obtain P Q F where "uri_loop s st' ?c = Some (Inr (?c\<lparr>u_p := length s,
       rport := (case port u of None \<Rightarrow> 0 | Some d \<Rightarrow> of_nat (port_value d)), rpath := P, rquery := Q, rfragment := F\<rparr>))"
    "view s P = path u" "view s Q = (case query u of None \<Rightarrow> [] | Some x \<Rightarrow> x)"
    "view s F = (case fragment u of None \<Rightarrow> [] | Some x \<Rightarrow> x)"
    using uri_loop_port[OF s2[unfolded t_def] wf _ _ _ _ _ st, of ?c] p by auto
  ultimately show ?thesis unfolding lp
    by (intro exI[of _ "Some (?h, length (host u))"] exI[of _ P] exI[of _ Q] exI[of _ F]) simp
qed


text \<open>The user.\<close>

definition authority_denotes :: "string \<Rightarrow> uri_parts \<Rightarrow> uri_text \<Rightarrow> bool" where
  "authority_denotes s c u \<longleftrightarrow>
     view s (ruser_info c) = (case user u of None \<Rightarrow> [] | Some x \<Rightarrow> x) \<and>
     view s (rhost c) = host u \<and>
     rport c = (case port u of None \<Rightarrow> 0 | Some d \<Rightarrow> of_nat (port_value d)) \<and>
     view s (rpath c) = path u \<and>
     view s (rquery c) = (case query u of None \<Rightarrow> [] | Some x \<Rightarrow> x) \<and>
     view s (rfragment c) = (case fragment u of None \<Rightarrow> [] | Some x \<Rightarrow> x)"

lemma port_text_chars: "uri_wf u \<Longrightarrow> x \<in> set (opt_text '':'' [] (port u)) \<Longrightarrow> x \<noteq> CHR ''@'' \<and> x \<noteq> CHR ''['' \<and> x \<noteq> CHR ''/''"
proof -
  assume wf: "uri_wf u" and x: "x \<in> set (opt_text '':'' [] (port u))"
  then obtain d where d: "port u = Some d" by (cases "port u") (auto simp: opt_text_def)
  then have "list_all is_digit d" using wf by (simp add: uri_wf_def)
  then show ?thesis using x d is_digit_other[of x] by (auto simp: opt_text_def list_all_iff)
qed

lemma uri_loop_user:
  assumes s: "s = a @ opt_text [] ''@'' (user u) @ authority_text u" and wf: "uri_wf u"
    and p: "u_p c = length a" "rquery c = None" "rpath c = None" "rfragment c = None" "rport c = 0" "rhost c = None" "ruser_info c = None"
  shows "\<exists>c'. uri_loop s P_USER_INFO c = Some (Inr c') \<and> rscheme c' = rscheme c \<and> authority_denotes s c' u"
proof (cases "opt_text [] ''@'' (user u) @ authority_text u = []")
  case True
  then have "user u = None" "host u = []" "port u = None" "path u = []" "query u = None" "fragment u = None"
    by (auto simp: authority_text_def rest_text_def opt_text_def split: option.splits)
  moreover have "uri_loop s P_USER_INFO c = Some (Inr c)" using True s p by (simp add: uri_loop_end)
  ultimately show ?thesis using p by (simp add: authority_denotes_def)
next
  case False
  then have l: "u_p c < length s" using p(1) s by simp
  let ?stop = "\<lambda>c. c = CHR ''@'' \<or> c = CHR ''['' \<or> c = CHR ''/''"
  obtain U pre a' where U: "uri_user_info s c = (P_HOST, c\<lparr>ruser_info := U, u_p := length a'\<rparr>)"
    "s = a' @ pre @ authority_text u" "pre = [] \<or> pre = ''@''" "view s U = (case user u of None \<Rightarrow> [] | Some x \<Rightarrow> x)"
  proof (cases "user u")
    case None
    let ?ap = "host u @ opt_text '':'' [] (port u)"
    have s1: "s = a @ ?ap @ rest_text u" using s None by (simp add: authority_text_def opt_text_def)
    have "avoids '':/@['' (host u)" using wf by (simp add: uri_wf_def)
    then have "\<forall>x \<in> set ?ap. \<not> ?stop x"
      using port_text_chars[OF wf] by (auto simp: avoids_def list_all_iff)
    then have q: "scan_to ?stop s (u_p c) = length a + length ?ap"
      using scan_seg[OF s1 p(1), of ?stop] rest_text_hd[OF wf] p(1) by auto
    have h: "length a + length ?ap = length s \<or> s ! (length a + length ?ap) = CHR ''/''"
    proof (cases "rest_text u")
      case (Cons x r)
      have "s ! (length a + length ?ap) = x" unfolding s1 Cons by (simp add: nth_append)
      then show ?thesis using rest_text_hd[OF wf] Cons by simp
    qed (simp add: s1)
    have "uri_user_info s c = (P_HOST, c\<lparr>ruser_info := Some (u_p c, 0), u_p := length a\<rparr>)"
      unfolding uri_user_info_def q Let_def using h by (simp only: simp_thms if_True p(1)) auto
    then show ?thesis using None s p(1) by (intro that[where U = "Some (u_p c, 0)" and pre = "[]" and a' = a]) (auto simp: opt_text_def)
  next
    case (Some x)
    have s1: "s = a @ x @ (CHR ''@'' # authority_text u)" using s Some by (simp add: opt_text_def)
    have "\<forall>y \<in> set x. \<not> ?stop y" using wf Some by (auto simp: uri_wf_def avoids_def list_all_iff)
    then have q: "scan_to ?stop s (u_p c) = length a + length x" using scan_seg[OF s1 p(1), of ?stop] p(1) by simp
    have h: "\<not> (length a + length x = length s \<or> s ! (length a + length x) = CHR ''/'' \<or> s ! (length a + length x) = CHR ''['')"
      unfolding s1 by (simp add: nth_append)
    have "uri_user_info s c = (P_HOST, c\<lparr>ruser_info := Some (length a, length x), u_p := length (a @ x)\<rparr>)"
      unfolding uri_user_info_def Let_def q using h p(1) by simp
    then show ?thesis using Some view_seg[OF s1] s1
      by (intro that[where U = "Some (length a, length x)" and pre = "''@''" and a' = "a @ x"]) auto
  qed
  let ?c = "c\<lparr>ruser_info := U, u_p := length a'\<rparr>"
  have lp: "uri_loop s P_USER_INFO c = uri_loop s P_HOST ?c" using uri_loop_step[OF l] U(1) by (simp add: uri_step_def)
  obtain H P Q F where R: "uri_loop s P_HOST ?c = Some (Inr (?c\<lparr>u_p := length s,
       rport := (case port u of None \<Rightarrow> 0 | Some d \<Rightarrow> of_nat (port_value d)), rhost := H, rpath := P, rquery := Q, rfragment := F\<rparr>))"
    "view s H = host u" "view s P = path u" "view s Q = (case query u of None \<Rightarrow> [] | Some x \<Rightarrow> x)"
    "view s F = (case fragment u of None \<Rightarrow> [] | Some x \<Rightarrow> x)"
    using uri_loop_host[OF U(2) wf U(3), of ?c] p by auto
  show ?thesis unfolding lp R(1) using R(2-5) U(4) by (simp add: authority_denotes_def)
qed

text \<open>The start: with and without a scheme.\<close>

lemma uri_start_scan:
  assumes "s = b @ t" "u_p c = 0" "s \<noteq> []" "avoids ''[:/'' b" "t = [] \<or> hd t = CHR '':'' \<or> hd t = CHR ''/''"
  shows "uri_start s c =
    (if t = [] then (P_START, c\<lparr>u_p := length b, rhost := Some (0, length b)\<rparr>)
     else if hd t = CHR '':'' then (P_SCHEME_OR_PORT, c\<lparr>u_p := length b\<rparr>)
     else (P_REST, c\<lparr>u_p := length b, rhost := Some (0, length b)\<rparr>))"
proof -
  have q: "scan_to (\<lambda>c. c = CHR '':'' \<or> c = CHR ''/'') s 0 = length b"
    using scan_seg[of s "[]" b t 0 "\<lambda>c. c = CHR '':'' \<or> c = CHR ''/''"] assms by (auto simp: avoids_def list_all_iff)
  have "s ! 0 \<noteq> CHR ''[''" using assms by (cases b; cases t) (auto simp: avoids_def)
  moreover have "t \<noteq> [] \<Longrightarrow> s ! length b = hd t" "length b < length s \<longleftrightarrow> t \<noteq> []"
    unfolding assms(1) by (simp_all add: nth_append hd_conv_nth)
  ultimately show ?thesis using assms(5) unfolding uri_start_def assms(2) q Let_def by (auto simp: assms(2))
qed


lemma uri_parse_scheme:
  assumes wf: "uri_wf u" and x: "scheme u = Some x"
  shows "\<exists>c. uri_parse (uri_print u) = Some (Inr c) \<and> uri_denotes (uri_print u) c u"
proof -
  let ?s = "uri_print u" and ?r = "opt_text [] ''@'' (user u) @ authority_text u"
  define c0 where "c0 = \<lparr>u_p = 0, rport = 0, rscheme = None, ruser_info = None, rhost = None,
      rpath = None, rquery = None, rfragment = None\<rparr>"
  have s1: "?s = x @ (''://'' @ ?r)" and s2: "?s = (x @ ''://'') @ ?r" by (simp_all add: uri_print_def x opt_text_def)
  have ax: "avoids ''[:/'' x" using wf x by (simp add: uri_wf_def)
  have 1: "uri_start ?s c0 = (P_SCHEME_OR_PORT, c0\<lparr>u_p := length x\<rparr>)"
    using uri_start_scan[OF s1 _ _ ax, of c0] by (simp add: c0_def s1)
  let ?c1 = "c0\<lparr>u_p := length x\<rparr>" and ?c2 = "c0\<lparr>rscheme := Some (0, length x), u_p := length (x @ ''://'')\<rparr>"
  have 2: "uri_scheme_or_port ?s ?c1 = (P_USER_INFO, ?c2)"
    unfolding uri_scheme_or_port_def s1 by (simp add: Let_def)
  have l: "u_p c0 < length ?s" "u_p ?c1 < length ?s" by (simp_all add: s1 c0_def)
  obtain c' where c': "uri_loop ?s P_USER_INFO ?c2 = Some (Inr c')" "rscheme c' = rscheme ?c2" "authority_denotes ?s c' u"
    using uri_loop_user[OF s2 wf, of ?c2] by (auto simp: c0_def)
  have "uri_parse ?s = Some (Inr c')"
    using uri_loop_step[OF l(1), of P_START] uri_loop_step[OF l(2), of P_SCHEME_OR_PORT] 1 2 c'(1)
    by (simp add: uri_parse_def c0_def[symmetric] uri_step_def)
  moreover have "view ?s (rscheme c') = x" using c'(2) view_seg[of ?s "[]" x] s1 by simp
  ultimately show ?thesis using c'(3) x by (simp add: uri_denotes_def authority_denotes_def)
qed

lemma uri_parse_no_scheme:
  assumes wf: "uri_wf u" and x: "scheme u = None"
  shows "\<exists>c. uri_parse (uri_print u) = Some (Inr c) \<and> uri_denotes (uri_print u) c u"
proof -
  let ?s = "uri_print u"
  define t where "t = opt_text '':'' [] (port u) @ rest_text u"
  define c0 where "c0 = \<lparr>u_p = 0, rport = 0, rscheme = None, ruser_info = None, rhost = None,
      rpath = None, rquery = None, rfragment = None\<rparr>"
  have us: "user u = None" using wf x by (simp add: uri_wf_def)
  have s1: "?s = host u @ t" by (simp add: uri_print_def x us opt_text_def authority_text_def t_def)
  have h: "avoids ''[:/'' (host u)" using wf by (auto simp: uri_wf_def avoids_def list_all_iff)
  have th: "t = [] \<or> hd t = CHR '':'' \<or> hd t = CHR ''/''" using authority_hd[OF wf] by (simp add: t_def)
  let ?c = "c0\<lparr>u_p := length (host u), rhost := Some (0, length (host u))\<rparr>"
  have vh: "view ?s (Some (0, length (host u))) = host u" using view_seg[of ?s "[]" "host u" t] s1 by simp
  have fin: "\<exists>c. uri_loop ?s st ?c = Some (Inr c) \<and> uri_denotes ?s c u"
    if st: "port u \<noteq> None \<longrightarrow> st = P_PORT" "port u = None \<and> rest_text u \<noteq> [] \<longrightarrow> st = P_REST" for st
  proof -
    obtain P Q F where "uri_loop ?s st ?c = Some (Inr (?c\<lparr>u_p := length ?s,
         rport := (case port u of None \<Rightarrow> 0 | Some d \<Rightarrow> of_nat (port_value d)), rpath := P, rquery := Q, rfragment := F\<rparr>))"
      "view ?s P = path u" "view ?s Q = (case query u of None \<Rightarrow> [] | Some x \<Rightarrow> x)"
      "view ?s F = (case fragment u of None \<Rightarrow> [] | Some x \<Rightarrow> x)"
      using uri_loop_port[OF s1[unfolded t_def] wf _ _ _ _ _ st, of ?c] by (auto simp: c0_def)
    then show ?thesis using vh x us by (simp add: uri_denotes_def c0_def)
  qed
  show ?thesis
  proof (cases "?s = []")
    case True
    then have "host u = []" "port u = None" "path u = []" "query u = None" "fragment u = None"
      using s1 by (auto simp: t_def rest_text_def opt_text_def split: option.splits)
    then show ?thesis using True x us by (simp add: uri_parse_def uri_loop_end uri_denotes_def)
  next
    case False
    note st = uri_start_scan[OF s1 _ False h th, of c0]
    have l: "u_p c0 < length ?s" using False by (simp add: c0_def)
    have p0: "uri_parse ?s = uri_loop ?s P_START c0" by (simp add: uri_parse_def c0_def)
    show ?thesis
    proof (cases "port u")
      case None
      then have t: "t = rest_text u" by (simp add: t_def opt_text_def)
      have hd: "t \<noteq> [] \<Longrightarrow> hd t \<noteq> CHR '':''" using rest_text_hd[OF wf] t by auto
      then have "uri_parse ?s = uri_loop ?s (if t = [] then P_START else P_REST) ?c"
        unfolding p0 using st uri_loop_step[OF l, of P_START] by (simp add: uri_step_def c0_def)
      then show ?thesis using fin[of "if t = [] then P_START else P_REST"] None t by simp
    next
      case (Some d)
      then have d: "d \<noteq> []" "list_all is_digit d" using wf by (auto simp: uri_wf_def)
      obtain y ys where y: "d = y # ys" "is_digit y" using d by (cases d) auto
      have t: "t = CHR '':'' # y # ys @ rest_text u" by (simp add: t_def Some opt_text_def y)
      let ?c1 = "c0\<lparr>u_p := length (host u)\<rparr>"
      have l1: "u_p ?c1 < length ?s" using s1 t by simp
      have "take 3 (drop (length (host u)) ?s) \<noteq> ''://''"
        using is_digit_other[OF y(2)] by (simp add: s1 t numeral_eq_Suc)
      then have "uri_scheme_or_port ?s ?c1 = (P_PORT, ?c)" by (simp add: uri_scheme_or_port_def c0_def Let_def)
      then have "uri_parse ?s = uri_loop ?s P_PORT ?c"
        unfolding p0 using st t uri_loop_step[OF l, of P_START] uri_loop_step[OF l1, of P_SCHEME_OR_PORT]
        by (simp add: uri_step_def c0_def)
      then show ?thesis using fin[of P_PORT] Some by simp
    qed
  qed
qed

section \<open>Properties\<close>

text \<open>C14: parsing the text of a well-formed address (without an IPv6 host in brackets) gives back its parts: scheme, user, host, path, query
  and fragment are the texts it was built from, and the port is the number its digits denote, modulo
  \<open>2 ^ 32\<close>.\<close>

theorem uri_parse_round_trip:
  assumes "uri_wf u"
  shows "\<exists>c. uri_parse (uri_print u) = Some (Inr c) \<and> uri_denotes (uri_print u) c u"
  using uri_parse_scheme[OF assms] uri_parse_no_scheme[OF assms] by (cases "scheme u") auto

definition uri_example :: uri_text where
  "uri_example = \<lparr>scheme = Some ''http'', user = Some ''me'', host = ''host.org'', port = Some ''8080'',
     path = ''/a/b'', query = Some ''x=1'', fragment = Some ''top''\<rparr>"

theorem uri_parse_round_trip_witness:
  "uri_print uri_example = ''http://me@host.org:8080/a/b?x=1#top'' \<and>
   (\<exists>c. uri_parse (uri_print uri_example) = Some (Inr c) \<and> uri_denotes (uri_print uri_example) c uri_example \<and> rport c = 8080)"
proof
  show "uri_print uri_example = ''http://me@host.org:8080/a/b?x=1#top''" by code_simp
  have "uri_wf uri_example" by (simp add: uri_wf_def uri_example_def avoids_def is_digit_def)
  then show "\<exists>c. uri_parse (uri_print uri_example) = Some (Inr c) \<and> uri_denotes (uri_print uri_example) c uri_example \<and> rport c = 8080"
    using uri_parse_round_trip[of uri_example] by (auto simp: uri_denotes_def uri_example_def port_value_def)
qed

text \<open>C15: the parser of addresses returns on every input, reads only the address and its terminator, and
  reports nothing but a parameter error; on success every part it returns lies inside the address.\<close>

theorem uri_parse_total:
  "uri_parse s = Some (Inl et_param) \<or> (\<exists>c. uri_parse s = Some (Inr c) \<and> parts_in s c)"
proof -
  obtain r where r: "uri_parse s = Some r" "\<forall>c'. r = Inr c' \<longrightarrow> parts_in s c'" "\<forall>e. r = Inl e \<longrightarrow> e = et_param"
    unfolding uri_parse_def using uri_loop_in[of s "\<lparr>u_p = 0, rport = 0, rscheme = None, ruser_info = None, rhost = None,
      rpath = None, rquery = None, rfragment = None\<rparr>" P_START] by (auto simp: parts_in_def)
  then show ?thesis by (cases r) auto
qed

end
