(* ===== verification/Http_Header.thy ===== *)
theory Http_Header
  imports C_String
begin

text \<open>
  The header tables of \<open>lib/libhttp/src/awoke_http.c\<close> and the operations on a table of headers.
  The enumerations of \<open>awoke_http.h\<close> are datatypes with their integer values; a header table is the
  array of \<open>HTTP_HEADER_SIZEOF\<close> entries indexed by header type. A \<open>mem_ptr_t\<close> is the value it refers
  to, \<open>None\<close> for NULL: the value type is a parameter, text for a request and an offset with a length
  for a response.
\<close>

section \<open>Model\<close>

datatype http_protocol = HTTP_PROTOCOL_UNKNOWN | HTTP_PROTOCOL_10 | HTTP_PROTOCOL_11 | HTTP_PROTOCOL_20

primrec http_protocol_id :: "http_protocol \<Rightarrow> nat" where
  "http_protocol_id HTTP_PROTOCOL_UNKNOWN = 0"
| "http_protocol_id HTTP_PROTOCOL_10 = 1"
| "http_protocol_id HTTP_PROTOCOL_11 = 2"
| "http_protocol_id HTTP_PROTOCOL_20 = 3"

datatype request_headers =
    HTTP_HEADER_UNKNOWN | HTTP_HEADER_HOST | HTTP_HEADER_USER_AGENT | HTTP_HEADER_ACCEPT
  | HTTP_HEADER_ACCEPT_CHARSET | HTTP_HEADER_ACCEPT_ENCODING | HTTP_HEADER_ACCEPT_LANGUAGE
  | HTTP_HEADER_CONNECTION | HTTP_HEADER_CONTENT_LENGTH | HTTP_HEADER_CONTENT_TYPE
  | HTTP_HEADER_KEEP_ALIVE | HTTP_HEADER_AUTHORIZATION | HTTP_HEADER_SIZEOF | HTTP_HEADER_OTHER

primrec request_headers_id :: "request_headers \<Rightarrow> nat" where
  "request_headers_id HTTP_HEADER_UNKNOWN = 0"
| "request_headers_id HTTP_HEADER_HOST = 1"
| "request_headers_id HTTP_HEADER_USER_AGENT = 2"
| "request_headers_id HTTP_HEADER_ACCEPT = 3"
| "request_headers_id HTTP_HEADER_ACCEPT_CHARSET = 4"
| "request_headers_id HTTP_HEADER_ACCEPT_ENCODING = 5"
| "request_headers_id HTTP_HEADER_ACCEPT_LANGUAGE = 6"
| "request_headers_id HTTP_HEADER_CONNECTION = 7"
| "request_headers_id HTTP_HEADER_CONTENT_LENGTH = 8"
| "request_headers_id HTTP_HEADER_CONTENT_TYPE = 9"
| "request_headers_id HTTP_HEADER_KEEP_ALIVE = 10"
| "request_headers_id HTTP_HEADER_AUTHORIZATION = 11"
| "request_headers_id HTTP_HEADER_SIZEOF = 12"
| "request_headers_id HTTP_HEADER_OTHER = 13"

definition CRLF :: string where "CRLF = [CHR 0x0D, CHR 0x0A]"

definition g_header_keys_table :: "(string \<times> nat) list" where
  "g_header_keys_table =
    [(''Host'', 1), (''User-Agent'', 2), (''Accept'', 3), (''Accept-Charset'', 4), (''Accept-Encoding'', 5),
     (''Accept-Language'', 6), (''Connection'', 7), (''Content-Length'', 8), (''Content-Type'', 9),
     (''Keep-Alive'', 10), (''Authorization'', 11)]"

definition g_protocol_table :: "(string \<times> nat) list" where
  "g_protocol_table = [(''HTTP/1.0'', 1), (''HTTP/1.1'', 2), (''HTTP/2.0'', 3)]"

fun table_key :: "(string \<times> nat) list \<Rightarrow> nat \<Rightarrow> string option" where
  "table_key [] t = None"
| "table_key ((k, i) # r) t = (if i = t then Some k else table_key r t)"

definition find_key :: "nat \<Rightarrow> string option" where
  "find_key t = table_key g_header_keys_table t"

text \<open>\<open>strncmp(key, text, n) = 0\<close> for a text of \<open>n\<close> characters without a NUL.\<close>

definition strncmp_eq :: "string \<Rightarrow> string \<Rightarrow> bool" where
  "strncmp_eq k x \<longleftrightarrow> take (length x) k = x"

fun table_type :: "(string \<times> nat) list \<Rightarrow> string \<Rightarrow> nat" where
  "table_type [] x = 0"
| "table_type ((k, i) # r) x = (if strncmp_eq k x then i else table_type r x)"

definition parse_key :: "string \<Rightarrow> nat" where
  "parse_key x = table_type g_header_keys_table x"

definition get_protocol :: "string \<Rightarrow> nat" where
  "get_protocol x = table_type g_protocol_table x"

record 'v http_header =
  h_type :: nat
  h_key :: "string option"
  h_val :: "'v option"

type_synonym 'v header_table = "'v http_header list"

definition blank_header :: "'v http_header" where
  "blank_header = \<lparr>h_type = 0, h_key = None, h_val = None\<rparr>"

definition http_header_init :: "'v header_table" where
  "http_header_init = replicate (request_headers_id HTTP_HEADER_SIZEOF) blank_header"

definition header_set :: "'v header_table \<Rightarrow> nat \<Rightarrow> 'v option \<Rightarrow> 'v header_table option" where
  "header_set hs t v = (case find_key t of
      None \<Rightarrow> Some hs
    | Some k \<Rightarrow> do {
        h \<leftarrow> arr_get hs (int t);
        arr_set hs (int t) (h\<lparr>h_type := t, h_key := Some k, h_val := v\<rparr>) })"

definition http_header_set :: "'v header_table \<Rightarrow> nat \<Rightarrow> 'v option \<Rightarrow> 'v header_table option" where
  "http_header_set hs t v = (case v of None \<Rightarrow> Some hs | Some x \<Rightarrow> header_set hs t (Some x))"

definition request_set_header :: "'v header_table \<Rightarrow> nat \<Rightarrow> 'v option \<Rightarrow> 'v header_table option" where
  "request_set_header hs t v = header_set hs t v"

fun extend_headers :: "'v http_header list \<Rightarrow> 'v header_table \<Rightarrow> 'v header_table option" where
  "extend_headers [] hs = Some hs"
| "extend_headers (h # ext) hs = do {
     hs' \<leftarrow> (if h_type h \<noteq> 0 then request_set_header hs (h_type h) (h_val h) else Some hs);
     extend_headers ext hs' }"

text \<open>The loop reads \<open>HTTP_HEADER_SIZEOF\<close> entries of the extension array.\<close>

definition request_set_extend_header :: "'v header_table \<Rightarrow> 'v header_table \<Rightarrow> 'v header_table option" where
  "request_set_extend_header ext hs =
     (if length ext < request_headers_id HTTP_HEADER_SIZEOF then None
      else extend_headers (take (request_headers_id HTTP_HEADER_SIZEOF) ext) hs)"

section \<open>Lookup and update\<close>

definition known_type :: "nat \<Rightarrow> bool" where "known_type t \<longleftrightarrow> 0 < t \<and> t < 12"

lemma known_cases: "known_type t \<Longrightarrow> t \<in> {1, 2, 3, 4, 5, 6, 7, 8, 9, 10, 11}"
  unfolding known_type_def by simp presburger

lemma find_key_known: "find_key t \<noteq> None \<longleftrightarrow> known_type t"
proof
  assume "find_key t \<noteq> None"
  then show "known_type t" by (auto simp: find_key_def g_header_keys_table_def known_type_def split: if_splits)
next
  assume "known_type t"
  then have "t \<in> {1, 2, 3, 4, 5, 6, 7, 8, 9, 10, 11}" by (rule known_cases)
  then show "find_key t \<noteq> None" by (auto simp: find_key_def g_header_keys_table_def)
qed

text \<open>A table holds an entry per type: unused, or with the type and the key of its position.\<close>

definition header_ok :: "nat \<Rightarrow> 'v http_header \<Rightarrow> bool" where
  "header_ok t h \<longleftrightarrow> h = blank_header \<or> known_type t \<and> h_type h = t \<and> h_key h = find_key t"

definition table_ok :: "'v header_table \<Rightarrow> bool" where
  "table_ok hs \<longleftrightarrow> length hs = 12 \<and> (\<forall>t < 12. header_ok t (hs ! t))"

lemma table_ok_init: "table_ok http_header_init"
  by (simp add: table_ok_def http_header_init_def header_ok_def)

lemma header_set_known:
  assumes "table_ok hs" "known_type t"
  shows "header_set hs t v = Some (hs[t := \<lparr>h_type = t, h_key = find_key t, h_val = v\<rparr>])"
proof -
  have t: "t < length hs" using assms by (auto simp: table_ok_def known_type_def)
  obtain k where "find_key t = Some k" using assms(2) find_key_known by auto
  then show ?thesis using t by (cases "hs ! t") (simp add: header_set_def arr_get_Some arr_set_Some)
qed

lemma header_set_unknown: "\<not> known_type t \<Longrightarrow> header_set hs t v = Some hs"
  using find_key_known[of t] by (auto simp: header_set_def split: option.split)

lemma header_set_ok:
  assumes "table_ok hs"
  shows "\<exists>hs'. header_set hs t v = Some hs' \<and> table_ok hs'"
proof (cases "known_type t")
  case True
  then have "table_ok (hs[t := \<lparr>h_type = t, h_key = find_key t, h_val = v\<rparr>])"
    using assms unfolding table_ok_def header_ok_def by (metis (no_types, lifting) http_header.select_convs(1,2) length_list_update nth_list_update_eq nth_list_update_neq)
  then show ?thesis using header_set_known[OF assms True] by blast
qed (use assms header_set_unknown in blast)

lemma extend_headers_ok: "table_ok hs \<Longrightarrow> \<exists>hs'. extend_headers ext hs = Some hs' \<and> table_ok hs'"
proof (induction ext arbitrary: hs)
  case (Cons h ext)
  obtain hs' where "(if h_type h \<noteq> 0 then request_set_header hs (h_type h) (h_val h) else Some hs) = Some hs'" "table_ok hs'"
    using header_set_ok[OF Cons.prems, of "h_type h" "h_val h"] Cons.prems
    by (cases "h_type h = 0") (auto simp: request_set_header_def)
  then show ?case using Cons.IH by (auto split: if_splits)
qed simp

lemma parse_find_key: "find_key t = Some k \<Longrightarrow> parse_key k = t"
proof -
  assume k: "find_key t = Some k"
  have "list_all (\<lambda>t. case find_key t of None \<Rightarrow> True | Some k \<Rightarrow> parse_key k = t) [1, 2, 3, 4, 5, 6, 7, 8, 9, 10, 11]"
    by (simp add: find_key_def parse_key_def g_header_keys_table_def strncmp_eq_def)
  moreover have "t \<in> set [1, 2, 3, 4, 5, 6, 7, 8, 9, 10, 11]" using known_cases[of t] find_key_known[of t] k by simp
  ultimately show ?thesis using k unfolding list_all_iff by force
qed

end
