(* ===== verification/Http_Response.thy ===== *)
theory Http_Response
  imports Http_Header
begin

text \<open>
  The responses of \<open>lib/libhttp/src/awoke_http.c\<close>: the growing buffer (configuration without
  \<open>HTTP_BUFFCHUNK_FIXED\<close>), the receive loop and the parser of the status line and the headers. The
  buffer is a block of characters; the string routines see its text up to the first NUL and are
  undefined on a block without one. A reference into the buffer is an offset and an
  \<open>unsigned long\<close> length. \<open>recv\<close> is a parameter: the peer answers the \<open>i\<close>-th call, with the
  number of bytes it may write, by an error or by data. Content lengths and status codes are read
  with \<open>sscanf\<close>; a number that does not fit its type is undefined.
\<close>

section \<open>Model: the buffer\<close>

definition HTTP_BUFFER_CHUNK :: int where "HTTP_BUFFER_CHUNK = 8092"
definition HTTP_BUFFER_LIMIT :: int where "HTTP_BUFFER_LIMIT = 8 * HTTP_BUFFER_CHUNK"

record http_buffchunk =
  hb_buff :: "string option"
  hb_size :: int
  hb_length :: int

definition http_buffchunk_init :: "allocator \<Rightarrow> err_type \<times> http_buffchunk" where
  "http_buffchunk_init alloc =
     (if alloc (nat HTTP_BUFFER_CHUNK)
      then (et_ok, \<lparr>hb_buff = Some (replicate (nat HTTP_BUFFER_CHUNK) NUL), hb_size = HTTP_BUFFER_CHUNK, hb_length = 0\<rparr>)
      else (et_nomem, \<lparr>hb_buff = None, hb_size = HTTP_BUFFER_CHUNK, hb_length = 0\<rparr>))"

definition http_buffchunk_dynamic :: "http_buffchunk \<Rightarrow> bool" where
  "http_buffchunk_dynamic chunk = True"

definition http_buffchunk_copy :: "http_buffchunk \<Rightarrow> http_buffchunk \<Rightarrow> http_buffchunk" where
  "http_buffchunk_copy dst src =
     (let dst1 = dst\<lparr>hb_size := hb_size src, hb_length := hb_length src\<rparr>
      in if http_buffchunk_dynamic src then dst1\<lparr>hb_buff := hb_buff src\<rparr> else dst1)"

text \<open>The failure test after \<open>realloc\<close> looks at the old pointer, so a failed call stores NULL.\<close>

definition http_buffchunk_resize ::
  "allocator \<Rightarrow> (nat \<Rightarrow> char) \<Rightarrow> http_buffchunk \<Rightarrow> int \<Rightarrow> (err_type \<times> http_buffchunk) option" where
  "http_buffchunk_resize alloc junk chunk new_size =
     (if hb_size chunk \<ge> new_size then Some (et_ok, chunk)
      else if new_size > HTTP_BUFFER_LIMIT then Some (et_mem_limit, chunk)
      else if \<not> http_buffchunk_dynamic chunk then
        (if alloc (nat (new_size + 1))
         then Some (et_ok, chunk\<lparr>hb_buff := Some (replicate (nat (new_size + 1)) NUL), hb_size := new_size\<rparr>)
         else Some (et_nomem, chunk\<lparr>hb_buff := None\<rparr>))
      else do {
        r \<leftarrow> mem_realloc alloc junk (case hb_buff chunk of None \<Rightarrow> [] | Some b \<Rightarrow> b) (nat (new_size + 1));
        if hb_buff chunk = None then Some (et_nomem, chunk)
        else Some (et_ok, chunk\<lparr>hb_buff := r, hb_size := new_size\<rparr>) })"

section \<open>Model: strings in the buffer\<close>

definition c_str :: "string \<Rightarrow> string option" where
  "c_str b = (if NUL \<in> set b then Some (takeWhile (\<lambda>c. c \<noteq> NUL) b) else None)"

fun find_sub :: "string \<Rightarrow> string \<Rightarrow> nat option" where
  "find_sub pat [] = (if pat = [] then Some 0 else None)"
| "find_sub pat (c # s) = (if take (length pat) (c # s) = pat then Some 0 else map_option Suc (find_sub pat s))"

definition c_strstr :: "string \<Rightarrow> nat \<Rightarrow> string \<Rightarrow> nat option" where
  "c_strstr s off pat = map_option (\<lambda>i. off + i) (find_sub pat (drop off s))"

definition is_space :: "char \<Rightarrow> bool" where
  "is_space c \<longleftrightarrow> c \<in> {CHR '' '', CHR 0x09, CHR 0x0A, CHR 0x0B, CHR 0x0C, CHR 0x0D}"

definition is_digit_char :: "char \<Rightarrow> bool" where
  "is_digit_char c \<longleftrightarrow> c \<in> set ''0123456789''"

definition digits_value :: "string \<Rightarrow> int" where
  "digits_value d = foldl (\<lambda>n c. n * 10 + (of_char c - 48)) 0 d"

text \<open>A decimal conversion of \<open>sscanf\<close>: leading space, an optional sign, digits; \<open>None\<close> when no digit follows.\<close>

definition scan_decimal :: "string \<Rightarrow> int option" where
  "scan_decimal s =
     (let t = dropWhile is_space s;
          neg = (t \<noteq> [] \<and> hd t = CHR ''-'');
          u = (if t \<noteq> [] \<and> (hd t = CHR ''-'' \<or> hd t = CHR ''+'') then tl t else t);
          d = takeWhile is_digit_char u
      in if d = [] then None else Some (if neg then - digits_value d else digits_value d))"

section \<open>Model: responses\<close>

type_synonym buff_span = "(nat \<times> u64) option"

record http_response =
  rsp_status :: int
  rsp_protocol :: nat
  rsp_connection :: int
  rsp_content_length :: u64
  rsp_firstline :: buff_span
  rsp_protocol_p :: buff_span
  rsp_statuscode_p :: buff_span
  rsp_body :: buff_span
  rsp_headers :: "(nat \<times> u64) header_table"
  rsp_buffchunk :: http_buffchunk

definition http_response_init :: "allocator \<Rightarrow> http_response" where
  "http_response_init alloc =
     \<lparr>rsp_status = 200, rsp_protocol = http_protocol_id HTTP_PROTOCOL_UNKNOWN, rsp_connection = 0,
      rsp_content_length = 0, rsp_firstline = None, rsp_protocol_p = None, rsp_statuscode_p = None,
      rsp_body = None, rsp_headers = http_header_init, rsp_buffchunk = snd (http_buffchunk_init alloc)\<rparr>"

definition rsp_text :: "http_response \<Rightarrow> string option" where
  "rsp_text rsp = do { b \<leftarrow> hb_buff (rsp_buffchunk rsp); c_str b }"

text \<open>A difference of two pointers into the buffer stored in an \<open>unsigned long\<close>.\<close>

definition ptr_diff :: "nat \<Rightarrow> nat \<Rightarrow> u64" where
  "ptr_diff p q = of_int (int p - int q)"

text \<open>\<open>while ((end = strstr(head, "\r\n")) && (end <= tail))\<close>\<close>

lemma find_sub_bounds: "find_sub pat s = Some i \<Longrightarrow> i + length pat \<le> length s"
proof (induction pat s arbitrary: i rule: find_sub.induct)
  case (2 pat c s)
  show ?case
  proof (cases "take (length pat) (c # s) = pat")
    case True
    then have "length pat \<le> length (c # s)" by (metis length_take min.cobounded1)
    then show ?thesis using 2 True by simp
  qed (use 2 in auto)
qed (auto split: if_splits)

lemma c_strstr_bounds: "c_strstr s off pat = Some i \<Longrightarrow> off \<le> i \<and> (pat \<noteq> [] \<longrightarrow> i + length pat \<le> length s)"
proof -
  assume "c_strstr s off pat = Some i"
  then obtain j where j: "find_sub pat (drop off s) = Some j" "i = off + j" by (auto simp: c_strstr_def)
  from find_sub_bounds[OF j(1)] have l: "j + length pat \<le> length s - off" by simp
  show ?thesis
  proof (cases "pat = []")
    case False
    then have "0 < length pat" by simp
    with l have "off + j + length pat \<le> length s" by linarith
    then show ?thesis using j(2) by simp
  qed (simp add: j(2))
qed

function header_lines ::
  "string \<Rightarrow> nat \<Rightarrow> nat \<Rightarrow> (nat \<times> u64) header_table \<Rightarrow> (nat \<times> u64) header_table option" where
  "header_lines s head tail hs = (case c_strstr s head CRLF of
      None \<Rightarrow> Some hs
    | Some e \<Rightarrow>
        if e \<le> tail then
          (case c_strstr s head '': '' of
             None \<Rightarrow> None
           | Some pos \<Rightarrow>
               (case header_set hs (parse_key (take (pos - head) (drop head s))) (Some (pos + 2, ptr_diff e (pos + 2))) of
                  None \<Rightarrow> None
                | Some hs' \<Rightarrow> header_lines s (e + 2) tail hs'))
        else Some hs)"
  by pat_completeness auto
termination
proof (relation "measure (\<lambda>(s, head, tail, hs). length s - head)")
  fix s :: string and head tail hs e pos hs'
  assume "c_strstr s head CRLF = Some e"
  then show "((s, e + 2, tail, hs'), s, head, tail, hs) \<in> measure (\<lambda>(s, head, tail, hs). length s - head)"
    using c_strstr_bounds[of s head CRLF e] by (auto simp: CRLF_def)
qed auto

declare header_lines.simps [simp del]

definition response_parse_header :: "http_response \<Rightarrow> (err_type \<times> http_response) option" where
  "response_parse_header rsp = do {
     s \<leftarrow> rsp_text rsp;
     case c_strstr s 0 CRLF of
       None \<Rightarrow> Some (et_parser, rsp)
     | Some tail \<Rightarrow> do {
         let rsp1 = rsp\<lparr>rsp_firstline := Some (0, ptr_diff tail 0)\<rparr>;
         case c_strstr s 0 '' '' of
           None \<Rightarrow> Some (et_parser, rsp1)
         | Some pos \<Rightarrow> do {
             let rsp2 = rsp1\<lparr>rsp_protocol_p := Some (0, ptr_diff pos 0), rsp_protocol := get_protocol (take pos s)\<rparr>;
             let head = pos + 1;
             case c_strstr s head '' '' of
               None \<Rightarrow> Some (et_parser, rsp2)
             | Some pos2 \<Rightarrow> do {
                 let rsp3 = rsp2\<lparr>rsp_statuscode_p := Some (head, ptr_diff tail head)\<rparr>;
                 st \<leftarrow> (case scan_decimal (drop head s) of
                     None \<Rightarrow> Some (rsp_status rsp3)
                   | Some n \<Rightarrow> if - (2 ^ 31) \<le> n \<and> n < 2 ^ 31 then Some n else None);
                 let rsp4 = rsp3\<lparr>rsp_status := st\<rparr>;
                 case c_strstr s (tail + 2) (CRLF @ CRLF) of
                   None \<Rightarrow> Some (et_parser, rsp4)
                 | Some tail2 \<Rightarrow> do {
                     hs \<leftarrow> header_lines s (tail + 2) tail2 (rsp_headers rsp4);
                     Some (et_ok, rsp4\<lparr>rsp_headers := hs, rsp_body := Some (tail2 + 4, rsp_content_length rsp4)\<rparr>) } } } } }"

definition http_response_parse :: "http_response \<Rightarrow> (err_type \<times> http_response) option" where
  "http_response_parse rsp = response_parse_header rsp"

text \<open>\<open>sscanf(pos, "Content-Length: %lu\r\n", &content_length)\<close> at the first occurrence of the name.\<close>

definition scan_content_length :: "string \<Rightarrow> u64 \<Rightarrow> u64 option" where
  "scan_content_length s old = (case c_strstr s 0 ''Content-Length'' of
      None \<Rightarrow> Some old
    | Some pos \<Rightarrow>
        (let t = drop (pos + 14) s in
         if t \<noteq> [] \<and> hd t = CHR '':'' then
           (case scan_decimal (tl t) of
              None \<Rightarrow> Some old
            | Some n \<Rightarrow> if - (2 ^ 64) < n \<and> n < 2 ^ 64 then Some (of_int n) else None)
         else Some old))"

text \<open>Without an empty line in the buffer the code computes with a NULL pointer: undefined.\<close>

definition http_response_preparse :: "http_response \<Rightarrow> (err_type \<times> http_response) option" where
  "http_response_preparse rsp = do {
     s \<leftarrow> rsp_text rsp;
     cl \<leftarrow> (if rsp_content_length rsp = 0 then scan_content_length s (rsp_content_length rsp)
            else Some (rsp_content_length rsp));
     pos \<leftarrow> c_strstr s 0 (CRLF @ CRLF);
     Some (et_ok, rsp\<lparr>rsp_content_length := cl,
       rsp_body := Some (pos + 4, of_int (hb_length (rsp_buffchunk rsp) - int (pos + 4)))\<rparr>) }"

definition http_response_recv_finish :: "http_response \<Rightarrow> (bool \<times> http_response) option" where
  "http_response_recv_finish rsp = do {
     (_, rsp1) \<leftarrow> http_response_preparse rsp;
     (_, blen) \<leftarrow> rsp_body rsp1;
     Some (blen = rsp_content_length rsp1, rsp1) }"

type_synonym peer = "nat \<Rightarrow> nat \<Rightarrow> int + string"

text \<open>\<open>awoke_tcp_connect_recv\<close> into the free part of the buffer, then the terminator behind the data.\<close>

definition recv_into :: "(nat \<Rightarrow> int + string) \<Rightarrow> http_buffchunk \<Rightarrow> (err_type \<times> http_buffchunk) option" where
  "recv_into recv chunk = do {
     let max_read = hb_size chunk - hb_length chunk;
     case recv (nat max_read) of
       Inl rs \<Rightarrow> Some (et_sock_recv, chunk)
     | Inr d \<Rightarrow> do {
         b \<leftarrow> hb_buff chunk;
         b1 \<leftarrow> mem_write b (hb_length chunk) d;
         let len = hb_length chunk + int (length d);
         b2 \<leftarrow> mem_write b1 len [NUL];
         Some (et_ok, chunk\<lparr>hb_buff := Some b2, hb_length := len\<rparr>) } }"

definition recv_grow :: "allocator \<Rightarrow> (nat \<Rightarrow> char) \<Rightarrow> http_buffchunk \<Rightarrow> (err_type \<times> http_buffchunk) option" where
  "recv_grow alloc junk chunk =
     (if hb_length chunk = 0 then Some (et_ok, chunk)
      else http_buffchunk_resize alloc junk chunk (hb_size chunk + HTTP_BUFFER_CHUNK))"

text \<open>One round of the receive loop: \<open>Inl\<close> leaves it with an error, \<open>Inr\<close> carries whether it is finished.\<close>

definition recv_round ::
  "allocator \<Rightarrow> (nat \<Rightarrow> char) \<Rightarrow> (nat \<Rightarrow> int + string) \<Rightarrow> http_response \<Rightarrow> (err_type + bool \<times> http_response) option" where
  "recv_round alloc junk recv rsp = do {
     (e, chunk) \<leftarrow> recv_grow alloc junk (rsp_buffchunk rsp);
     if e \<noteq> et_ok then Some (Inl e)
     else do {
       (e, chunk) \<leftarrow> recv_into recv chunk;
       if e \<noteq> et_ok then Some (Inl e)
       else do {
         r \<leftarrow> http_response_recv_finish (rsp\<lparr>rsp_buffchunk := chunk\<rparr>);
         Some (Inr r) } } }"

lemma find_sub_NoneI: "length s < length pat \<Longrightarrow> find_sub pat s = None"
  using find_sub_bounds[of pat s] by (cases "find_sub pat s") auto

text \<open>A round that does not finish has received something, and a later round grows the buffer.\<close>

lemma recv_into_cases:
  assumes "recv_into recv c = Some (et_ok, c')"
  obtains d where "recv (nat (hb_size c - hb_length c)) = Inr d" "0 \<le> hb_length c" "hb_size c' = hb_size c"
    "hb_length c' = hb_length c + int (length d)"
    "hb_buff c' \<noteq> None" "hb_length c' < int (length (the (hb_buff c')))" "the (hb_buff c') ! nat (hb_length c') = NUL"
    "hb_buff c \<noteq> None" "length (the (hb_buff c')) = length (the (hb_buff c))"
    "take (nat (hb_length c')) (the (hb_buff c')) = take (nat (hb_length c)) (the (hb_buff c)) @ d"
proof -
  obtain d b b1 b2 where d: "recv (nat (hb_size c - hb_length c)) = Inr d" "hb_buff c = Some b"
      "mem_write b (hb_length c) d = Some b1" "mem_write b1 (hb_length c + int (length d)) [NUL] = Some b2"
      "c' = c\<lparr>hb_buff := Some b2, hb_length := hb_length c + int (length d)\<rparr>"
    using assms by (auto simp: recv_into_def Let_def bind_eq_Some_conv split: sum.splits)
  let ?n = "nat (hb_length c)"
  have n: "0 \<le> hb_length c" "?n + length d \<le> length b" "b1 = take ?n b @ d @ drop (?n + length d) b"
    using d(3) by (auto simp: mem_write_def split: if_splits)
  have m: "nat (hb_length c + int (length d)) = ?n + length d" using n(1) by linarith
  have w: "?n + length d + 1 \<le> length b1" "b2 = take (?n + length d) b1 @ [NUL] @ drop (?n + length d + 1) b1"
    using d(4) m by (auto simp: mem_write_def split: if_splits)
  have l: "length b1 = length b" "length b2 = length b" using n w by auto
  have t: "take (?n + length d) b1 = take ?n b @ d" using n by simp
  then have b2: "b2 = (take ?n b @ d) @ [NUL] @ drop (?n + length d + 1) b1" using w(2) by simp
  have tl: "length (take ?n b @ d) = ?n + length d" using n by simp
  have "b2 ! (?n + length d) = NUL" "take (?n + length d) b2 = take ?n b @ d"
    using tl unfolding b2 by (metis append_Cons nth_append_length, metis append_eq_conv_conj)
  then show ?thesis using that[of d] d n m w(1) l by simp
qed

lemma c_str_short: "i < length b \<Longrightarrow> b ! i = NUL \<Longrightarrow> \<exists>s. c_str b = Some s \<and> length s \<le> i"
proof -
  assume i: "i < length b" "b ! i = NUL"
  then have "NUL \<in> set b" by (metis nth_mem)
  moreover have "length (takeWhile (\<lambda>c. c \<noteq> NUL) b) \<le> i"
    using i by (metis (mono_tags, lifting) linorder_not_le nth_mem set_takeWhileD takeWhile_nth)
  ultimately show ?thesis by (simp add: c_str_def)
qed

lemma recv_finish_body:
  assumes "http_response_recv_finish rsp = Some (fin, rsp')"
  obtains s pos cl where "rsp_text rsp = Some s" "c_strstr s 0 (CRLF @ CRLF) = Some pos"
    "rsp' = rsp\<lparr>rsp_content_length := cl,
       rsp_body := Some (pos + 4, of_int (hb_length (rsp_buffchunk rsp) - int (pos + 4)))\<rparr>"
    "fin \<longleftrightarrow> of_int (hb_length (rsp_buffchunk rsp) - int (pos + 4)) = cl"
    "rsp_content_length rsp \<noteq> 0 \<longrightarrow> cl = rsp_content_length rsp"
    "rsp_content_length rsp = 0 \<longrightarrow> scan_content_length s 0 = Some cl"
proof -
  obtain rsp1 a blen where r: "http_response_preparse rsp = Some (a, rsp1)" "rsp' = rsp1"
    "rsp_body rsp1 = Some blen" "fin \<longleftrightarrow> snd blen = rsp_content_length rsp1"
    using assms by (auto simp: http_response_recv_finish_def bind_eq_Some_conv)
  obtain s cl pos where p: "rsp_text rsp = Some s" "c_strstr s 0 (CRLF @ CRLF) = Some pos"
    "(if rsp_content_length rsp = 0 then scan_content_length s (rsp_content_length rsp)
            else Some (rsp_content_length rsp)) = Some cl"
    "rsp1 = rsp\<lparr>rsp_content_length := cl,
       rsp_body := Some (pos + 4, of_int (hb_length (rsp_buffchunk rsp) - int (pos + 4)))\<rparr>"
    using r(1) unfolding http_response_preparse_def by (auto simp only: bind_eq_Some_conv prod.inject option.inject)
  have "fin \<longleftrightarrow> of_int (hb_length (rsp_buffchunk rsp) - int (pos + 4)) = cl" using r(3,4) p(4) by auto
  moreover have "rsp_content_length rsp \<noteq> 0 \<longrightarrow> cl = rsp_content_length rsp"
    "rsp_content_length rsp = 0 \<longrightarrow> scan_content_length s 0 = Some cl" using p(3) by auto
  moreover have "rsp' = rsp\<lparr>rsp_content_length := cl,
       rsp_body := Some (pos + 4, of_int (hb_length (rsp_buffchunk rsp) - int (pos + 4)))\<rparr>" using p(4) r(2) by simp
  ultimately show ?thesis using p(1,2) that by blast
qed

lemma recv_grow_size:
  assumes "recv_grow alloc junk c = Some (et_ok, c')"
  shows "hb_length c' = hb_length c \<and> (if hb_length c = 0 then c' = c
    else hb_size c' = hb_size c + HTTP_BUFFER_CHUNK \<and> hb_size c' \<le> HTTP_BUFFER_LIMIT)"
  using assms by (auto simp: recv_grow_def http_buffchunk_resize_def http_buffchunk_dynamic_def HTTP_BUFFER_CHUNK_def
      bind_eq_Some_conv split: if_splits)

lemma recv_round_cases:
  assumes "recv_round alloc junk recv rsp = Some (Inr (fin, rsp'))"
  obtains c1 c2 where "recv_grow alloc junk (rsp_buffchunk rsp) = Some (et_ok, c1)" "recv_into recv c1 = Some (et_ok, c2)"
    "http_response_recv_finish (rsp\<lparr>rsp_buffchunk := c2\<rparr>) = Some (fin, rsp')"
  using assms by (auto simp: recv_round_def bind_eq_Some_conv split: if_splits)

lemma recv_round_progress:
  assumes "recv_round alloc junk recv rsp = Some (Inr (fin, rsp'))"
  shows "0 < hb_length (rsp_buffchunk rsp') \<and>
    (if hb_length (rsp_buffchunk rsp) = 0 then hb_size (rsp_buffchunk rsp') = hb_size (rsp_buffchunk rsp)
     else hb_size (rsp_buffchunk rsp') = hb_size (rsp_buffchunk rsp) + HTTP_BUFFER_CHUNK \<and>
       hb_size (rsp_buffchunk rsp') \<le> HTTP_BUFFER_LIMIT)"
proof -
  obtain c1 c2 where r: "recv_grow alloc junk (rsp_buffchunk rsp) = Some (et_ok, c1)" "recv_into recv c1 = Some (et_ok, c2)"
    "http_response_recv_finish (rsp\<lparr>rsp_buffchunk := c2\<rparr>) = Some (fin, rsp')"
    using recv_round_cases[OF assms] by blast
  obtain d :: string where d: "0 \<le> hb_length c1" "hb_size c2 = hb_size c1" "hb_length c2 = hb_length c1 + int (length d)"
    "hb_buff c2 \<noteq> None" "hb_length c2 < int (length (the (hb_buff c2)))" "the (hb_buff c2) ! nat (hb_length c2) = NUL"
    by (rule recv_into_cases[OF r(2)]) blast
  obtain s pos where s: "rsp_text (rsp\<lparr>rsp_buffchunk := c2\<rparr>) = Some s" "c_strstr s 0 (CRLF @ CRLF) = Some pos"
    and b: "rsp_buffchunk rsp' = c2" by (rule recv_finish_body[OF r(3)]) simp
  have "nat (hb_length c2) < length (the (hb_buff c2))" using d(1,3,5) by linarith
  from c_str_short[OF this d(6)] have "length s \<le> nat (hb_length c2)"
    using s(1) d(4) by (auto simp: rsp_text_def)
  moreover have "4 \<le> length s" using c_strstr_bounds[OF s(2)] by (simp add: CRLF_def)
  ultimately have "0 < hb_length c2" by linarith
  then show ?thesis using recv_grow_size[OF r(1)] d b by (auto split: if_splits)
qed

function recv_loop ::
  "allocator \<Rightarrow> (nat \<Rightarrow> char) \<Rightarrow> peer \<Rightarrow> nat \<Rightarrow> http_response \<Rightarrow> (err_type + http_response) option" where
  "recv_loop alloc junk peer i rsp = (case recv_round alloc junk (peer i) rsp of
      None \<Rightarrow> None
    | Some (Inl e) \<Rightarrow> Some (Inl e)
    | Some (Inr (fin, rsp')) \<Rightarrow> if fin then Some (Inr rsp') else recv_loop alloc junk peer (Suc i) rsp')"
  by pat_completeness auto
termination
proof (relation "measures [\<lambda>(alloc, junk, peer, i, rsp). if hb_length (rsp_buffchunk rsp) = 0 then 1 else 0,
    \<lambda>(alloc, junk, peer, i, rsp). nat (HTTP_BUFFER_LIMIT - hb_size (rsp_buffchunk rsp))]")
  fix alloc junk and peer :: peer and i rsp x r fin rsp'
  assume "recv_round alloc junk (peer i) rsp = Some x" "x = Inr r" "(fin, rsp') = r" "\<not> fin"
  then have "recv_round alloc junk (peer i) rsp = Some (Inr (fin, rsp'))" by simp
  from recv_round_progress[OF this]
  show "((alloc, junk, peer, Suc i, rsp'), alloc, junk, peer, i, rsp) \<in> measures
      [\<lambda>(alloc, junk, peer, i, rsp). if hb_length (rsp_buffchunk rsp) = 0 then 1 else 0,
       \<lambda>(alloc, junk, peer, i, rsp). nat (HTTP_BUFFER_LIMIT - hb_size (rsp_buffchunk rsp))]"
    by (auto simp: HTTP_BUFFER_CHUNK_def split: if_splits)
qed auto

declare recv_loop.simps [simp del]

text \<open>On an error the buffer and the response are released; the result of the parser is not looked at.\<close>

definition http_response_recv ::
  "allocator \<Rightarrow> (nat \<Rightarrow> char) \<Rightarrow> peer \<Rightarrow> http_response \<Rightarrow> (err_type \<times> http_response cptr) option" where
  "http_response_recv alloc junk peer rsp = do {
     r \<leftarrow> recv_loop alloc junk peer 0 rsp;
     case r of
       Inl e \<Rightarrow> Some (e, Freed)
     | Inr rsp1 \<Rightarrow> do {
         (_, rsp2) \<leftarrow> http_response_parse rsp1;
         Some (et_ok, Live rsp2) } }"

definition response_copy :: "http_response \<Rightarrow> http_response \<Rightarrow> http_response" where
  "response_copy dst src = dst\<lparr>rsp_status := rsp_status src, rsp_protocol := rsp_protocol src,
     rsp_connection := rsp_connection src, rsp_content_length := rsp_content_length src,
     rsp_firstline := rsp_firstline src, rsp_protocol_p := rsp_protocol_p src,
     rsp_statuscode_p := rsp_statuscode_p src, rsp_body := rsp_body src,
     rsp_buffchunk := http_buffchunk_copy (rsp_buffchunk dst) (rsp_buffchunk src)\<rparr>"

text \<open>The pointer keeps its value after the release.\<close>

definition http_response_clean :: "http_response \<Rightarrow> string cptr \<Rightarrow> string cptr option" where
  "http_response_clean rsp buff = (if http_buffchunk_dynamic (rsp_buffchunk rsp) then mem_free buff else Some buff)"

section \<open>Searching a text\<close>

lemma find_sub_skip:
  "x \<notin> set a \<Longrightarrow> find_sub (x # p) (a @ s) = map_option (\<lambda>i. length a + i) (find_sub (x # p) s)"
  by (induction a; cases "find_sub (x # p) s") auto

lemma find_sub_here: "find_sub p (p @ b) = Some 0"
  by (cases "p @ b") (auto, metis append_eq_conv_conj)

lemma c_strstr_at:
  assumes "s = a @ b @ pat @ c" "off = length a" "pat \<noteq> []" "hd pat \<notin> set b"
  shows "c_strstr s off pat = Some (length a + length b)"
proof -
  obtain x p where p: "pat = x # p" using assms(3) by (cases pat) auto
  have "find_sub pat (b @ pat @ c) = Some (length b)"
    using find_sub_skip[of x b p "pat @ c"] find_sub_here[of pat c] assms(4) p by simp
  then show ?thesis using assms(1,2) by (simp add: c_strstr_def)
qed

section \<open>The text of a response\<close>

definition header_text :: "(string \<times> string) list \<Rightarrow> string" where
  "header_text hdrs = concat (map (\<lambda>(k, v). k @ '': '' @ v @ CRLF) hdrs)"

definition response_text :: "string \<Rightarrow> string \<Rightarrow> string \<Rightarrow> (string \<times> string) list \<Rightarrow> string \<Rightarrow> string" where
  "response_text p c r hdrs body = p @ '' '' @ c @ '' '' @ r @ CRLF @ header_text hdrs @ CRLF @ body"

definition CR :: char where "CR = CHR 0x0D"

definition header_wf :: "string \<times> string \<Rightarrow> bool" where
  "header_wf h \<longleftrightarrow> CR \<notin> set (fst h) \<and> CHR '':'' \<notin> set (fst h) \<and> CR \<notin> set (snd h)"

definition response_wf :: "string \<Rightarrow> string \<Rightarrow> string \<Rightarrow> (string \<times> string) list \<Rightarrow> bool" where
  "response_wf p c r hdrs \<longleftrightarrow> CHR '' '' \<notin> set p \<and> CR \<notin> set p \<and> c \<noteq> [] \<and> list_all is_digit_char c \<and>
     digits_value c < 2 ^ 31 \<and> CR \<notin> set r \<and> hdrs \<noteq> [] \<and> list_all header_wf hdrs"

text \<open>The value a response gives for a header type: the last line whose key is read as that type.\<close>

definition header_value :: "(string \<times> string) list \<Rightarrow> nat \<Rightarrow> string option" where
  "header_value hdrs t = map_of (rev (map (\<lambda>(k, v). (parse_key k, v)) hdrs)) t"

definition bview :: "string \<Rightarrow> nat \<times> u64 \<Rightarrow> string" where
  "bview s r = take (unat (snd r)) (drop (fst r) s)"

lemma header_text_Cons [simp]: "header_text ((k, v) # hdrs) = k @ '': '' @ v @ CRLF @ header_text hdrs"
  by (simp add: header_text_def)

lemma header_text_Nil [simp]: "header_text [] = []"
  by (simp add: header_text_def)

lemma CRLF_Cons: "CRLF = CR # [CHR 0x0A]"
  by (simp add: CRLF_def CR_def)

text \<open>A line that is followed by another one does not hold the empty line.\<close>

lemma find_blank_skip:
  assumes "CR \<notin> set l" "r \<noteq> []" "hd r \<noteq> CR"
  shows "find_sub (CRLF @ CRLF) (l @ CRLF @ r) = map_option (\<lambda>i. length l + 2 + i) (find_sub (CRLF @ CRLF) r)"
proof -
  have "find_sub (CRLF @ CRLF) (CRLF @ r) = map_option (\<lambda>i. 2 + i) (find_sub (CRLF @ CRLF) r)"
    using assms(2,3) by (cases r) (auto simp: CRLF_Cons CR_def option.map_comp comp_def)
  then show ?thesis using find_sub_skip[OF assms(1), of "[CHR 0x0A] @ CRLF" "CRLF @ r"]
    by (cases "find_sub (CRLF @ CRLF) r") (simp_all add: CRLF_Cons)
qed

lemma header_text_hd:
  assumes "hdrs \<noteq> []" "list_all header_wf hdrs"
  shows "header_text hdrs @ b \<noteq> []" "hd (header_text hdrs @ b) \<noteq> CR"
proof -
  obtain k v r where h: "hdrs = (k, v) # r" using assms(1) by (cases hdrs) auto
  then show "header_text hdrs @ b \<noteq> []" "hd (header_text hdrs @ b) \<noteq> CR"
    using assms(2) by (cases k; auto simp: header_wf_def CR_def)+
qed

lemma find_blank_line:
  assumes "hdrs \<noteq> []" "list_all header_wf hdrs"
  shows "\<exists>i. find_sub (CRLF @ CRLF) (header_text hdrs @ CRLF @ b) = Some i \<and> i + 2 = length (header_text hdrs)"
  using assms
proof (induction hdrs)
  case (Cons h hdrs)
  obtain k v where h: "h = (k, v)" by fastforce
  have w: "CR \<notin> set (k @ '': '' @ v)" using Cons.prems h by (auto simp: header_wf_def CR_def)
  show ?case
  proof (cases "hdrs = []")
    case True
    then show ?thesis using find_sub_skip[OF w, of "[CHR 0x0A] @ CRLF" "CRLF @ CRLF @ b"] find_sub_here[of "CRLF @ CRLF" b]
      by (simp add: h CRLF_def CR_def)
  next
    case False
    then obtain i where "find_sub (CRLF @ CRLF) (header_text hdrs @ CRLF @ b) = Some i" "i + 2 = length (header_text hdrs)"
      using Cons by auto
    then show ?thesis using find_blank_skip[OF w header_text_hd[of hdrs "CRLF @ b"]] False Cons.prems by (simp add: h CRLF_def)
  qed
qed simp

lemma ptr_diff_unat: "p + n = q \<Longrightarrow> n < 2 ^ 64 \<Longrightarrow> unat (ptr_diff q p) = n"
proof -
  assume n: "p + n = q" "n < 2 ^ 64"
  then have "ptr_diff q p = of_nat n" by (auto simp: ptr_diff_def)
  then show ?thesis using n(2) by (simp add: unat_of_nat)
qed

lemma header_value_Cons:
  "header_value ((k, v) # hdrs) t = (case header_value hdrs t of None \<Rightarrow> if parse_key k = t then Some v else None | Some w \<Rightarrow> Some w)"
  by (auto simp: header_value_def map_add_def split: option.split)

text \<open>The lines from \<open>head\<close> on enter the table in order.\<close>

definition table_holds :: "string \<Rightarrow> (nat \<times> u64) header_table \<Rightarrow> (nat \<times> u64) header_table \<Rightarrow> (string \<times> string) list \<Rightarrow> bool" where
  "table_holds s hs hs' hdrs \<longleftrightarrow> table_ok hs' \<and> (\<forall>t. known_type t \<longrightarrow>
     (case header_value hdrs t of
        None \<Rightarrow> hs' ! t = hs ! t
      | Some v \<Rightarrow> h_key (hs' ! t) = find_key t \<and> map_option (bview s) (h_val (hs' ! t)) = Some v))"

lemma header_lines_text:
  assumes "s = a @ header_text hdrs @ CRLF @ b" "list_all header_wf hdrs" "head = length a"
    and "tail + 2 = length a + length (header_text hdrs)" "length s < 2 ^ 64" "table_ok hs"
  shows "\<exists>hs'. header_lines s head tail hs = Some hs' \<and> table_holds s hs hs' hdrs"
  using assms
proof (induction hdrs arbitrary: a head hs)
  case Nil
  have "c_strstr s head CRLF = Some head" using c_strstr_at[of s a "[]" CRLF b head] Nil by (simp add: CRLF_def)
  then have "header_lines s head tail hs = Some hs" using Nil by (subst header_lines.simps) simp
  then show ?case using Nil by (simp add: table_holds_def header_value_def)
next
  case (Cons h hdrs)
  obtain k v where h: "h = (k, v)" by fastforce
  let ?l = "k @ '': '' @ v" and ?r = "header_text hdrs @ CRLF @ b"
  have s1: "s = a @ ?l @ CRLF @ ?r" using Cons.prems(1) h by simp
  have s2: "s = a @ k @ '': '' @ (v @ CRLF @ ?r)" using Cons.prems(1) h by simp
  have wf: "CR \<notin> set ?l" "CHR '':'' \<notin> set k" using Cons.prems(2) h by (auto simp: header_wf_def CR_def)
  let ?e = "length a + length ?l" and ?p = "length a + length k"
  have e: "c_strstr s head CRLF = Some ?e" using c_strstr_at[OF s1 Cons.prems(3)] wf(1) by (simp add: CRLF_Cons)
  have p: "c_strstr s head '': '' = Some ?p" using c_strstr_at[OF s2 Cons.prems(3)] wf(2) by simp
  have le: "?e \<le> tail" using Cons.prems(4) h by (simp add: CRLF_def)
  have k: "take (?p - head) (drop head s) = k" using s2 Cons.prems(3) by simp
  obtain hs1 where hs1: "header_set hs (parse_key k) (Some (?p + 2, ptr_diff ?e (?p + 2))) = Some hs1" "table_ok hs1"
    using header_set_ok[OF Cons.prems(6)] by blast
  have lp: "header_lines s head tail hs = header_lines s (?e + 2) tail hs1"
    by (subst header_lines.simps) (simp only: e p option.case le if_True k hs1(1))
  have s3: "s = (a @ ?l @ CRLF) @ header_text hdrs @ CRLF @ b" using s1 by simp
  have pre: "list_all header_wf hdrs" "?e + 2 = length (a @ ?l @ CRLF)"
    "tail + 2 = length (a @ ?l @ CRLF) + length (header_text hdrs)"
    using Cons.prems(2,4) h by (simp_all add: CRLF_def)
  obtain hs' where hs': "header_lines s (?e + 2) tail hs1 = Some hs'" "table_holds s hs1 hs' hdrs"
    using Cons.IH[OF s3 pre Cons.prems(5) hs1(2)] by blast
  have lv: "length v < 2 ^ 64" using Cons.prems(5) s1 by simp
  have ev: "bview s (?p + 2, ptr_diff ?e (?p + 2)) = v"
    using ptr_diff_unat[of "?p + 2" "length v" ?e] lv by (simp add: bview_def s2)
  have one: "case (if parse_key k = t then Some v else None) of None \<Rightarrow> hs1 ! t = hs ! t
      | Some v \<Rightarrow> h_key (hs1 ! t) = find_key t \<and> map_option (bview s) (h_val (hs1 ! t)) = Some v" if t: "known_type t" for t
  proof (cases "known_type (parse_key k)")
    case True
    have "hs1 = hs[parse_key k := \<lparr>h_type = parse_key k, h_key = find_key (parse_key k), h_val = Some (?p + 2, ptr_diff ?e (?p + 2))\<rparr>]"
      using header_set_known[OF Cons.prems(6) True] hs1(1) by simp
    moreover have "t < length hs" using t Cons.prems(6) by (simp add: table_ok_def known_type_def)
    ultimately show ?thesis using ev by (simp add: nth_list_update)
  next
    case False
    then have "hs1 = hs" using header_set_unknown hs1(1) by (metis option.inject)
    then show ?thesis using False t by auto
  qed
  have "table_holds s hs hs' (h # hdrs)"
    unfolding table_holds_def
  proof (intro conjI allI impI)
    show "table_ok hs'" using hs'(2) by (simp add: table_holds_def)
    fix t assume t: "known_type t"
    then show "case header_value (h # hdrs) t of None \<Rightarrow> hs' ! t = hs ! t
        | Some v \<Rightarrow> h_key (hs' ! t) = find_key t \<and> map_option (bview s) (h_val (hs' ! t)) = Some v"
      using hs'(2) one[OF t] unfolding table_holds_def h header_value_Cons
      by (cases "header_value hdrs t"; cases "parse_key k = t") auto
  qed
  then show ?case using lp hs'(1) by auto
qed

lemma digit_char_facts:
  assumes "is_digit_char c"
  shows "c \<noteq> CR" "c \<noteq> CHR '' ''" "c \<noteq> CHR ''-''" "c \<noteq> CHR ''+''" "\<not> is_space c" "(48 :: int) \<le> of_char c"
  using assms unfolding is_digit_char_def by (auto simp: CR_def is_space_def)

lemma takeWhile_digits: "list_all P c \<Longrightarrow> \<not> P x \<Longrightarrow> takeWhile P (c @ x # r) = c"
  by (induction c) auto

lemma scan_decimal_digits:
  assumes "c \<noteq> []" "list_all is_digit_char c"
  shows "scan_decimal (c @ CHR '' '' # r) = Some (digits_value c)"
proof -
  obtain x d where c: "c = x # d" using assms(1) by (cases c) auto
  have x: "\<not> is_space x" "x \<noteq> CHR ''-''" "x \<noteq> CHR ''+''" using digit_char_facts[of x] assms(2) c by simp_all
  have "takeWhile is_digit_char (c @ CHR '' '' # r) = c"
    using takeWhile_digits[OF assms(2)] by (simp add: is_digit_char_def)
  moreover have "dropWhile is_space (c @ CHR '' '' # r) = c @ CHR '' '' # r" using x(1) c by simp
  ultimately show ?thesis using x c by (simp add: scan_decimal_def)
qed

lemma digits_value_nonneg: "list_all is_digit_char c \<Longrightarrow> 0 \<le> digits_value c"
proof -
  have "list_all is_digit_char c \<Longrightarrow> 0 \<le> n \<Longrightarrow> 0 \<le> foldl (\<lambda>n c. n * 10 + (of_char c - 48)) n c" for n :: int
  proof (induction c arbitrary: n)
    case (Cons x c)
    have "0 \<le> n * 10 + (of_char x - 48)" using Cons.prems digit_char_facts(6)[of x] by simp
    then show ?case using Cons by simp
  qed simp
  then show "list_all is_digit_char c \<Longrightarrow> 0 \<le> digits_value c" by (simp add: digits_value_def)
qed

lemma response_parse_ok:
  assumes "rsp_text rsp = Some (response_text p c r hdrs body)" "response_wf p c r hdrs"
    and "length (response_text p c r hdrs body) < 2 ^ 64" "table_ok (rsp_headers rsp)"
  shows "\<exists>rsp' off. response_parse_header rsp = Some (et_ok, rsp') \<and>
    rsp_status rsp' = digits_value c \<and> rsp_protocol rsp' = get_protocol p \<and>
    table_holds (response_text p c r hdrs body) (rsp_headers rsp) (rsp_headers rsp') hdrs \<and>
    rsp_body rsp' = Some (off, rsp_content_length rsp) \<and> drop off (response_text p c r hdrs body) = body"
proof -
  define s where "s = response_text p c r hdrs body"
  let ?line = "p @ '' '' @ c @ '' '' @ r"
  let ?rest = "header_text hdrs @ CRLF @ body"
  have "list_all is_digit_char c" using assms(2) by (simp add: response_wf_def)
  then have "CR \<notin> set c" "CHR '' '' \<notin> set c" using digit_char_facts(1,2) unfolding list_all_iff by blast+
  then have wf: "CHR '' '' \<notin> set p" "CR \<notin> set ?line" "c \<noteq> []" "list_all is_digit_char c" "digits_value c < 2 ^ 31" "hdrs \<noteq> []" "list_all header_wf hdrs"
    using assms(2) by (simp_all add: response_wf_def CR_def)
  have s1: "s = [] @ ?line @ CRLF @ ?rest" and s2: "s = [] @ p @ '' '' @ (c @ '' '' @ r @ CRLF @ ?rest)"
    and s3: "s = (p @ '' '') @ c @ '' '' @ (r @ CRLF @ ?rest)" and s4: "s = (?line @ CRLF) @ header_text hdrs @ CRLF @ body"
    by (simp_all add: s_def response_text_def)
  have 1: "c_strstr s 0 CRLF = Some (length ?line)" using c_strstr_at[OF s1] wf(2) by (simp add: CRLF_Cons)
  have 2: "c_strstr s 0 '' '' = Some (length p)" using c_strstr_at[OF s2] wf(1) by simp
  have 3: "c_strstr s (length p + 1) '' '' = Some (length p + 1 + length c)" using c_strstr_at[OF s3] \<open>CHR '' '' \<notin> set c\<close> by simp
  obtain i where i: "find_sub (CRLF @ CRLF) ?rest = Some i" "i + 2 = length (header_text hdrs)"
    using find_blank_line[OF wf(6,7)] by blast
  let ?h = "length ?line + 2"
  have hl: "length (?line @ CRLF) = ?h" by (simp add: CRLF_def)
  have dr: "drop ?h s = ?rest" unfolding s4 hl[symmetric] by (rule append_eq_conv_conj[THEN iffD1, THEN conjunct2, symmetric]) simp
  have 4: "c_strstr s ?h (CRLF @ CRLF) = Some (?h + i)" unfolding c_strstr_def dr i(1) by simp
  have 5: "scan_decimal (drop (length p + 1) s) = Some (digits_value c)"
    using scan_decimal_digits[OF wf(3,4)] by (simp add: s3)
  have n: "- (2 ^ 31) \<le> digits_value c \<and> digits_value c < 2 ^ 31" using digits_value_nonneg[OF wf(4)] wf(5) by simp
  have tl2: "?h + i + 2 = length (?line @ CRLF) + length (header_text hdrs)" using i(2) hl by linarith
  obtain hs where hs: "header_lines s ?h (?h + i) (rsp_headers rsp) = Some hs" "table_holds s (rsp_headers rsp) hs hdrs"
    using header_lines_text[OF s4 wf(7) hl[symmetric] tl2 assms(3)[folded s_def] assms(4)] by blast
  have "drop (?h + i + 4) s = drop (i + 4) (drop ?h s)" unfolding drop_drop by (rule arg_cong[of _ _ "\<lambda>n. drop n s"]) linarith
  also note dr
  also have "i + 4 = length (header_text hdrs @ CRLF)" using i(2) by (simp add: CRLF_def)
  also have "drop (length (header_text hdrs @ CRLF)) ?rest = body" by simp
  finally have b: "drop (?h + i + 4) s = body" .
  have t: "rsp_text rsp = Some s" using assms(1) by (simp add: s_def)
  have pt: "take (length p) s = p" by (simp add: s2)
  define r4 where "r4 = rsp\<lparr>rsp_firstline := Some (0, ptr_diff (length ?line) 0),
      rsp_protocol_p := Some (0, ptr_diff (length p) 0), rsp_protocol := get_protocol p,
      rsp_statuscode_p := Some (length p + 1, ptr_diff (length ?line) (length p + 1)), rsp_status := digits_value c\<rparr>"
  have "response_parse_header rsp = Some (et_ok, r4\<lparr>rsp_headers := hs, rsp_body := Some (?h + i + 4, rsp_content_length r4)\<rparr>)"
    unfolding response_parse_header_def t Option.bind.simps 1 option.case Let_def 2 3 5 pt using n 4 hs(1)
    by (simp only: if_True simp_thms Option.bind.simps option.case) (simp add: r4_def)
  moreover have "rsp_content_length r4 = rsp_content_length rsp" "rsp_status r4 = digits_value c" "rsp_protocol r4 = get_protocol p"
    by (simp_all add: r4_def)
  ultimately show ?thesis unfolding s_def[symmetric]
    by (intro exI[of _ "r4\<lparr>rsp_headers := hs, rsp_body := Some (?h + i + 4, rsp_content_length r4)\<rparr>"] exI[of _ "?h + i + 4"])
       (use hs(2) b in simp)
qed

section \<open>Properties\<close>

text \<open>C16: parsing a received response with a status line, at least one header line and the empty line gives
  the status code, the protocol, the value of every known header (the last line with that name wins) and the
  start of the body, whatever follows the empty line.\<close>

theorem response_parse_round_trip:
  assumes "rsp_text rsp = Some (response_text p c r hdrs body)" "response_wf p c r hdrs"
    and "length (response_text p c r hdrs body) < 2 ^ 64" "table_ok (rsp_headers rsp)"
  shows "\<exists>rsp' off. response_parse_header rsp = Some (et_ok, rsp') \<and>
    rsp_status rsp' = digits_value c \<and> rsp_protocol rsp' = get_protocol p \<and>
    table_holds (response_text p c r hdrs body) (rsp_headers rsp) (rsp_headers rsp') hdrs \<and>
    rsp_body rsp' = Some (off, rsp_content_length rsp) \<and> drop off (response_text p c r hdrs body) = body"
  by (rule response_parse_ok[OF assms])

definition rsp_example :: "string \<Rightarrow> http_response" where
  "rsp_example t = \<lparr>rsp_status = 200, rsp_protocol = 0, rsp_connection = 0, rsp_content_length = 2,
     rsp_firstline = None, rsp_protocol_p = None, rsp_statuscode_p = None, rsp_body = None,
     rsp_headers = http_header_init,
     rsp_buffchunk = \<lparr>hb_buff = Some (t @ [NUL]), hb_size = int (length t), hb_length = int (length t)\<rparr>\<rparr>"

theorem response_parse_round_trip_witness:
  "\<exists>rsp' off. response_parse_header (rsp_example (response_text ''HTTP/1.1'' ''404'' ''None'' [(''Content-Length'', ''2''), (''Host'', ''h'')] ''hi'')) = Some (et_ok, rsp') \<and>
     rsp_status rsp' = 404 \<and> rsp_protocol rsp' = 2 \<and> rsp_body rsp' = Some (off, 2) \<and>
     map_option (bview (response_text ''HTTP/1.1'' ''404'' ''None'' [(''Content-Length'', ''2''), (''Host'', ''h'')] ''hi'')) (h_val (rsp_headers rsp' ! 8)) = Some ''2''"
proof -
  let ?hd = "[(''Content-Length'', ''2''), (''Host'', ''h'')]"
  let ?t = "response_text ''HTTP/1.1'' ''404'' ''None'' ?hd ''hi''"
  have 1: "rsp_text (rsp_example ?t) = Some ?t" "length ?t < 2 ^ 64"
    by (simp_all add: rsp_text_def rsp_example_def c_str_def response_text_def header_text_def CRLF_def NUL_def)
  have 2: "response_wf ''HTTP/1.1'' ''404'' ''None'' ?hd"
    by (simp add: response_wf_def header_wf_def CR_def is_digit_char_def digits_value_def)
  have 3: "table_ok (rsp_headers (rsp_example ?t))" "rsp_content_length (rsp_example ?t) = 2"
    by (simp_all add: rsp_example_def table_ok_init)
  have 4: "header_value ?hd 8 = Some ''2''" "get_protocol ''HTTP/1.1'' = 2" "digits_value ''404'' = 404" "known_type 8"
    by (simp_all add: header_value_def parse_key_def get_protocol_def g_protocol_table_def g_header_keys_table_def strncmp_eq_def digits_value_def known_type_def)
  obtain rsp' off where r: "response_parse_header (rsp_example ?t) = Some (et_ok, rsp')" "rsp_status rsp' = digits_value ''404''"
    "rsp_protocol rsp' = get_protocol ''HTTP/1.1''" "table_holds ?t (rsp_headers (rsp_example ?t)) (rsp_headers rsp') ?hd"
    "rsp_body rsp' = Some (off, rsp_content_length (rsp_example ?t))"
    using response_parse_round_trip[OF 1(1) 2 1(2) 3(1)] by blast
  have "map_option (bview ?t) (h_val (rsp_headers rsp' ! 8)) = Some ''2''"
    using r(4) 4(1,4) unfolding table_holds_def by auto
  then show ?thesis using r 3(2) 4(2,3) by auto
qed

end
