(* ===== verification/Http_Request.thy ===== *)
theory Http_Request
  imports Http_Response Awoke_Tcp
begin

text \<open>
  The requests of \<open>lib/libhttp/src/awoke_http.c\<close>: building the text with \<open>build_ptr\<close>
  (\<open>awoke_string.h\<close>) and sending it. A \<open>mem_ptr_t\<close> of a request is the text it refers to, or
  \<open>Dangling\<close> when the array behind it no longer exists (\<open>mem_mkptr_num\<close> returns the address of a
  local array); reading through it is undefined. \<open>vsnprintf\<close> writes at most its size and counts the
  whole text; a negative remaining size is converted to a huge \<open>size_t\<close>.
\<close>

section \<open>Model: building text\<close>

datatype mem_text = Dangling | Text string

definition mem_mkptr_num :: "int \<Rightarrow> mem_text" where
  "mem_mkptr_num num = Dangling"

primrec text_of :: "mem_text \<Rightarrow> string option" where
  "text_of Dangling = None"
| "text_of (Text s) = Some s"

definition ptr_text :: "mem_text option \<Rightarrow> string option" where
  "ptr_text m = (case m of None \<Rightarrow> Some [] | Some x \<Rightarrow> text_of x)"

record build_ptr =
  bp_p :: nat
  bp_max :: int
  bp_len :: u64

definition build_ptr_make :: "string \<Rightarrow> int \<Rightarrow> build_ptr option" where
  "build_ptr_make s mx = do { t \<leftarrow> c_str s; Some \<lparr>bp_p = 0, bp_max = mx, bp_len = of_nat (length t)\<rparr> }"

text \<open>\<open>__build_ptr\<close> with the formatted text.\<close>

definition build_put :: "string \<Rightarrow> build_ptr \<times> string \<Rightarrow> (build_ptr \<times> string) option" where
  "build_put t s = (case s of (bp, buf) \<Rightarrow> do {
     buf' \<leftarrow> (if bp_max bp = 0 then Some buf
              else mem_write buf (int (bp_p bp))
                ((if bp_max bp < 0 then t else take (nat (bp_max bp) - 1) t) @ [NUL]));
     Some (bp\<lparr>bp_p := bp_p bp + length t, bp_max := bp_max bp - int (length t),
              bp_len := bp_len bp + of_nat (length t)\<rparr>, buf') })"

record http_request_struct =
  rq_host :: "mem_text option"
  rq_path :: "mem_text option"
  rq_body :: "string option"
  rq_method :: string
  rq_protocol :: string
  rq_headers :: "mem_text header_table"
  rq_extend_headers :: "mem_text header_table option"
  rq_bp :: build_ptr
  rq_buffchunk :: http_buffchunk

type_synonym building = "build_ptr \<times> string"

definition request_build_header :: "mem_text http_header \<Rightarrow> building \<Rightarrow> building option" where
  "request_build_header h s = do {
     v \<leftarrow> ptr_text (h_val h);
     build_put ((case h_key h of None \<Rightarrow> [] | Some k \<Rightarrow> k) @ '': '' @ v @ CRLF) s }"

definition request_build_string :: "string \<Rightarrow> building \<Rightarrow> building option" where
  "request_build_string t s = build_put t s"

definition request_build_body :: "http_request_struct \<Rightarrow> building \<Rightarrow> building option" where
  "request_build_body req s = build_put (case rq_body req of None \<Rightarrow> [] | Some b \<Rightarrow> b) s"

definition request_build_startline :: "http_request_struct \<Rightarrow> building \<Rightarrow> building option" where
  "request_build_startline req s = do {
     p \<leftarrow> ptr_text (rq_path req);
     build_put (rq_method req @ '' '' @ p @ '' '' @ rq_protocol req @ CRLF) s }"

fun request_build_headers :: "mem_text http_header list \<Rightarrow> building \<Rightarrow> building option" where
  "request_build_headers [] s = Some s"
| "request_build_headers (h # hs) s = do {
     s' \<leftarrow> (if h_key h \<noteq> None then request_build_header h s else Some s);
     request_build_headers hs s' }"

definition body_len :: "http_request_struct \<Rightarrow> nat" where
  "body_len req = (case rq_body req of None \<Rightarrow> 0 | Some b \<Rightarrow> length b)"

definition package_headers :: "http_request_struct \<Rightarrow> mem_text header_table option" where
  "package_headers req = do {
     hs1 \<leftarrow> request_set_header (rq_headers req) 1 (rq_host req);
     hs2 \<leftarrow> (if body_len req \<noteq> 0 then request_set_header hs1 8 (Some (mem_mkptr_num (int (body_len req)))) else Some hs1);
     (case rq_extend_headers req of None \<Rightarrow> Some hs2 | Some ext \<Rightarrow> request_set_extend_header ext hs2) }"

definition http_request_package :: "http_request_struct \<Rightarrow> (err_type \<times> http_request_struct) option" where
  "http_request_package req = do {
     hs \<leftarrow> package_headers req;
     let req1 = req\<lparr>rq_headers := hs\<rparr>;
     buf \<leftarrow> hb_buff (rq_buffchunk req);
     s1 \<leftarrow> request_build_startline req1 (rq_bp req, buf);
     s2 \<leftarrow> request_build_headers hs s1;
     s3 \<leftarrow> request_build_string CRLF s2;
     s4 \<leftarrow> (if body_len req \<noteq> 0 then request_build_body req1 s3 else Some s3);
     (case s4 of (bp, buf') \<Rightarrow>
       Some (et_ok, req1\<lparr>rq_bp := bp, rq_buffchunk := (rq_buffchunk req)\<lparr>hb_buff := Some buf', hb_length := uint (bp_len bp)\<rparr>\<rparr>)) }"

text \<open>The code leaves \<open>extend_headers\<close> as it is; here it is none.\<close>

definition http_request_init :: "allocator \<Rightarrow> http_request_struct option" where
  "http_request_init alloc = do {
     let chunk = snd (http_buffchunk_init alloc);
     buf \<leftarrow> hb_buff chunk;
     bp \<leftarrow> build_ptr_make buf (hb_size chunk);
     Some \<lparr>rq_host = None, rq_path = None, rq_body = None, rq_method = [], rq_protocol = [],
       rq_headers = http_header_init, rq_extend_headers = None, rq_bp = bp, rq_buffchunk = chunk\<rparr> }"

section \<open>Model: sending\<close>

definition http_reqeust_send_finish :: "int \<Rightarrow> int \<Rightarrow> bool" where
  "http_reqeust_send_finish len send_total \<longleftrightarrow> len = send_total"

text \<open>The answers of \<open>send\<close>: the \<open>i\<close>-th call gets the bytes offered and returns the number it took.
  The wire is what the peer has received. The start of the next send is the size of the last one.\<close>

partial_function (option) send_loop ::
  "(nat \<Rightarrow> string \<Rightarrow> int) \<Rightarrow> awoke_tcp_connect \<Rightarrow> string \<Rightarrow> int \<Rightarrow> nat \<Rightarrow> int \<Rightarrow> int \<Rightarrow> string \<Rightarrow> (err_type \<times> string) option" where
  "send_loop send conn buf len i send_size send_total wire = do {
     let max_send = (if len - send_total > HTTP_BUFFER_CHUNK then HTTP_BUFFER_CHUNK else len - send_total);
     d \<leftarrow> mem_read buf send_size (nat max_send);
     (case awoke_tcp_connect_send (\<lambda>_. send i) (Some conn) (Some d) of
        (e, None) \<Rightarrow> Some (e, wire)
      | (e, Some ss) \<Rightarrow>
          (if http_reqeust_send_finish len (send_total + ss) then Some (e, wire @ take (nat ss) d)
           else send_loop send conn buf len (i + 1) ss (send_total + ss) (wire @ take (nat ss) d))) }"

definition http_request_send :: "(nat \<Rightarrow> string \<Rightarrow> int) \<Rightarrow> awoke_tcp_connect \<Rightarrow> http_request_struct \<Rightarrow> (err_type \<times> string) option" where
  "http_request_send send conn req = do {
     buf \<leftarrow> hb_buff (rq_buffchunk req);
     send_loop send conn buf (hb_length (rq_buffchunk req)) 0 0 0 [] }"

section \<open>Building\<close>

text \<open>While the text fits, the buffer collects the pieces.\<close>

definition collected :: "building \<Rightarrow> string \<Rightarrow> bool" where
  "collected s t \<longleftrightarrow> (case s of (bp, buf) \<Rightarrow>
     bp_p bp = length t \<and> bp_max bp = int (length buf) - int (length t) \<and> bp_len bp = of_nat (length t) \<and>
     length t < length buf \<and> take (length t) buf = t \<and> buf ! length t = NUL)"

lemma build_put_collects:
  assumes "collected (bp, buf) t" "length (t @ x) < length buf"
  shows "\<exists>bp' buf'. build_put x (bp, buf) = Some (bp', buf') \<and> collected (bp', buf') (t @ x) \<and> length buf' = length buf"
proof -
  have c: "bp_p bp = length t" "bp_max bp = int (length buf) - int (length t)" "bp_len bp = of_nat (length t)"
    "length t < length buf" "take (length t) buf = t" using assms(1) by (auto simp: collected_def)
  let ?w = "x @ [NUL]" and ?rest = "drop (length t + length x + 1) buf"
  let ?b = "take (length t) buf @ ?w @ ?rest"
  have "nat (bp_max bp) - 1 \<ge> length x" using assms(2) c(2) by simp
  then have w: "take (nat (bp_max bp) - 1) x = x" by simp
  have "mem_write buf (int (bp_p bp)) (take (nat (bp_max bp) - 1) x @ [NUL]) = Some ?b"
    using assms(2) c(1) w by (simp add: mem_write_def)
  moreover have "bp_max bp > 0" using c by simp
  ultimately have p: "build_put x (bp, buf) = Some (bp\<lparr>bp_p := bp_p bp + length x, bp_max := bp_max bp - int (length x),
      bp_len := bp_len bp + of_nat (length x)\<rparr>, ?b)" by (simp add: build_put_def)
  have lb: "length ?b = length buf" using assms(2) c(4) by simp
  have "collected (bp\<lparr>bp_p := bp_p bp + length x, bp_max := bp_max bp - int (length x),
      bp_len := bp_len bp + of_nat (length x)\<rparr>, ?b) (t @ x)"
    using c assms(2) lb unfolding collected_def by (simp add: nth_append)
  then show ?thesis using p lb by blast
qed

definition header_line :: "mem_text http_header \<Rightarrow> string option" where
  "header_line h = (case h_key h of None \<Rightarrow> Some []
     | Some k \<Rightarrow> map_option (\<lambda>v. k @ '': '' @ v @ CRLF) (ptr_text (h_val h)))"

fun header_lines_of :: "mem_text http_header list \<Rightarrow> string option" where
  "header_lines_of [] = Some []"
| "header_lines_of (h # hs) = do { l \<leftarrow> header_line h; r \<leftarrow> header_lines_of hs; Some (l @ r) }"

lemma build_headers_collect:
  assumes "header_lines_of hs = Some x" "collected (bp, buf) t" "length (t @ x) < length buf"
  shows "\<exists>bp' buf'. request_build_headers hs (bp, buf) = Some (bp', buf') \<and> collected (bp', buf') (t @ x) \<and> length buf' = length buf"
  using assms
proof (induction hs arbitrary: x t bp buf)
  case (Cons h hs)
  obtain l r where l: "header_line h = Some l" "header_lines_of hs = Some r" "x = l @ r"
    using Cons.prems(1) by (auto simp: bind_eq_Some_conv)
  have "\<exists>bp1 buf1. (if h_key h \<noteq> None then request_build_header h (bp, buf) else Some (bp, buf)) = Some (bp1, buf1) \<and>
      collected (bp1, buf1) (t @ l) \<and> length buf1 = length buf"
  proof (cases "h_key h")
    case None
    then show ?thesis using l(1) Cons.prems(2) by (simp add: header_line_def)
  next
    case (Some k)
    then obtain v where v: "ptr_text (h_val h) = Some v" "l = k @ '': '' @ v @ CRLF" using l(1) by (auto simp: header_line_def)
    have "length (t @ l) < length buf" using Cons.prems(3) l(3) by simp
    then show ?thesis using build_put_collects[OF Cons.prems(2)] Some v by (simp add: request_build_header_def)
  qed
  then obtain bp1 buf1 where 1: "(if h_key h \<noteq> None then request_build_header h (bp, buf) else Some (bp, buf)) = Some (bp1, buf1)"
    "collected (bp1, buf1) (t @ l)" "length buf1 = length buf" by blast
  then show ?case using Cons.IH[OF l(2) 1(2)] Cons.prems(3) l(3) by (simp split: if_splits)
qed simp

lemma init_request:
  assumes "alloc 8092"
  shows "\<exists>r0. http_request_init alloc = Some r0 \<and> hb_buff (rq_buffchunk r0) = Some (replicate 8092 NUL) \<and>
    collected (rq_bp r0, replicate 8092 NUL) [] \<and> rq_headers r0 = http_header_init \<and> rq_extend_headers r0 = None \<and> rq_body r0 = None"
proof -
  have n: "nat HTTP_BUFFER_CHUNK = 8092" "HTTP_BUFFER_CHUNK = 8092" by (simp_all add: HTTP_BUFFER_CHUNK_def)
  have c: "c_str (replicate 8092 NUL) = Some []"
  proof -
    have "replicate 8092 NUL = NUL # replicate 8091 NUL" using replicate_Suc[of 8091 NUL] by simp
    then show ?thesis by (simp add: c_str_def)
  qed
  show ?thesis using assms c by (simp add: http_request_init_def http_buffchunk_init_def n build_ptr_make_def Let_def collected_def)
qed

lemma header_ok_0: "table_ok hs \<Longrightarrow> hs ! 0 = blank_header"
proof -
  assume "table_ok hs"
  then have "header_ok 0 (hs ! 0)" unfolding table_ok_def by simp
  then show ?thesis by (simp add: header_ok_def known_type_def)
qed

lemma table_split: "table_ok hs \<Longrightarrow> hs[1 := h] = blank_header # h # drop 2 hs"
proof -
  assume ok: "table_ok hs"
  then obtain a b r where h: "hs = a # b # r" by (cases hs; cases "tl hs") (auto simp: table_ok_def)
  then show ?thesis using header_ok_0[OF ok] by simp
qed

lemma collected_text:
  assumes "collected (bp, buf) t" "length t < 8092"
  shows "take (nat (uint (bp_len bp))) buf = t" "buf = t @ NUL # drop (Suc (length t)) buf"
proof -
  have "uint (bp_len bp) = int (length t)" using assms by (simp add: collected_def uint_nat unat_of_nat)
  then show "take (nat (uint (bp_len bp))) buf = t" using assms(1) by (simp add: collected_def)
  show "buf = t @ NUL # drop (Suc (length t)) buf"
    using assms(1) id_take_nth_drop[of "length t" buf] by (simp add: collected_def)
qed

text \<open>C18: packaging a request without a body gives, when the text fits the buffer, the start line, the host
  header, the other headers of the table in the order of their types and the empty line, terminated, and
  its length.\<close>

theorem http_request_package_text:
  assumes "alloc 8092" "http_request_init alloc = Some r0" "table_ok hs0" "header_lines_of (drop 2 hs0) = Some rest"
    and "length (m @ '' '' @ p @ '' '' @ v @ CRLF @ ''Host: '' @ h @ CRLF @ rest @ CRLF) < 8092"
  shows "\<exists>req' buf. http_request_package (r0\<lparr>rq_host := Some (Text h), rq_path := Some (Text p), rq_method := m,
      rq_protocol := v, rq_headers := hs0\<rparr>) = Some (et_ok, req') \<and>
    hb_buff (rq_buffchunk req') = Some buf \<and>
    c_str buf = Some (takeWhile (\<lambda>c. c \<noteq> NUL) (m @ '' '' @ p @ '' '' @ v @ CRLF @ ''Host: '' @ h @ CRLF @ rest @ CRLF)) \<and>
    take (nat (hb_length (rq_buffchunk req'))) buf = m @ '' '' @ p @ '' '' @ v @ CRLF @ ''Host: '' @ h @ CRLF @ rest @ CRLF"
proof -
  let ?req = "r0\<lparr>rq_host := Some (Text h), rq_path := Some (Text p), rq_method := m, rq_protocol := v, rq_headers := hs0\<rparr>"
  let ?l = "m @ '' '' @ p @ '' '' @ v @ CRLF" and ?hl = "''Host: '' @ h @ CRLF @ rest"
  let ?t = "?l @ ?hl @ CRLF"
  obtain r where r: "http_request_init alloc = Some r" "hb_buff (rq_buffchunk r) = Some (replicate 8092 NUL)"
    "collected (rq_bp r, replicate 8092 NUL) []" "rq_extend_headers r = None" "rq_body r = None"
    using init_request[where alloc = alloc, OF assms(1)] by blast
  then have r0: "hb_buff (rq_buffchunk r0) = Some (replicate 8092 NUL)" "collected (rq_bp r0, replicate 8092 NUL) []"
    "rq_extend_headers r0 = None" "rq_body r0 = None" using assms(2) by simp_all
  have n: "length ?t < 8092" using assms(5) by simp
  define hs where "hs = hs0[1 := \<lparr>h_type = 1, h_key = find_key 1, h_val = Some (Text h)\<rparr>]"
  have kn: "known_type 1" "find_key 1 = Some ''Host''" by (simp_all add: known_type_def find_key_def g_header_keys_table_def)
  have ph: "package_headers ?req = Some hs"
    using header_set_known[OF assms(3) kn(1)] r0 by (simp add: package_headers_def body_len_def request_set_header_def hs_def)
  have hl: "header_lines_of hs = Some ?hl"
    using table_split[OF assms(3)] kn(2) assms(4)
    by (simp add: hs_def blank_header_def header_line_def ptr_text_def)
  have L: "length (replicate 8092 NUL) = 8092" by simp
  obtain bp1 b1 where 1: "build_put ?l (rq_bp r0, replicate 8092 NUL) = Some (bp1, b1)" "collected (bp1, b1) ([] @ ?l)" "length b1 = length (replicate 8092 NUL)"
    using build_put_collects[OF r0(2), of ?l] n by auto
  obtain bp2 b2 where 2: "request_build_headers hs (bp1, b1) = Some (bp2, b2)" "collected (bp2, b2) (([] @ ?l) @ ?hl)" "length b2 = length b1"
    using build_headers_collect[OF hl 1(2)] n 1(3) by auto
  obtain bp3 b3 where 3: "build_put CRLF (bp2, b2) = Some (bp3, b3)" "collected (bp3, b3) ((([] @ ?l) @ ?hl) @ CRLF)" "length b3 = length b2"
    using build_put_collects[OF 2(2), of CRLF] n 1(3) 2(3) by auto
  have c: "collected (bp3, b3) ?t" using 3(2) by simp
  let ?req' = "?req\<lparr>rq_headers := hs, rq_bp := bp3, rq_buffchunk := (rq_buffchunk r0)\<lparr>hb_buff := Some b3, hb_length := uint (bp_len bp3)\<rparr>\<rparr>"
  have pk: "http_request_package ?req = Some (et_ok, ?req')"
    using ph 1(1) 2(1) 3(1) r0
    by (simp add: http_request_package_def Let_def request_build_startline_def request_build_string_def ptr_text_def body_len_def)
  have tk: "take (nat (uint (bp_len bp3))) b3 = ?t" by (rule collected_text(1)[OF c n])
  have "b3 = ?t @ NUL # drop (Suc (length ?t)) b3" by (rule collected_text(2)[OF c n])
  then have "c_str b3 = Some (takeWhile (\<lambda>c. c \<noteq> NUL) ?t)"
  proof -
    assume b: "b3 = ?t @ NUL # drop (Suc (length ?t)) b3"
    have "takeWhile (\<lambda>c. c \<noteq> NUL) (x @ NUL # y) = takeWhile (\<lambda>c. c \<noteq> NUL) x" for x y by (induction x) auto
    then have "takeWhile (\<lambda>c. c \<noteq> NUL) b3 = takeWhile (\<lambda>c. c \<noteq> NUL) ?t" using arg_cong[OF b] by (rule trans[rotated])
    moreover have "NUL \<in> set b3" using arg_cong[OF b, of set] by auto
    ultimately show ?thesis by (simp only: c_str_def if_True)
  qed
  then show ?thesis using pk tk by (intro exI[of _ ?req'] exI[of _ b3]) simp
qed

theorem http_request_package_text_witness:
  "\<exists>r0 req' buf. http_request_init (\<lambda>n. True) = Some r0 \<and>
    http_request_package (r0\<lparr>rq_host := Some (Text ''h''), rq_path := Some (Text ''/''), rq_method := ''GET'',
      rq_protocol := ''HTTP/1.0'', rq_headers := http_header_init\<rparr>) = Some (et_ok, req') \<and>
    hb_buff (rq_buffchunk req') = Some buf \<and>
    take (nat (hb_length (rq_buffchunk req'))) buf = ''GET / HTTP/1.0'' @ CRLF @ ''Host: h'' @ CRLF @ CRLF"
proof -
  obtain r0 where r0: "http_request_init (\<lambda>n. True) = Some r0" using init_request[of "\<lambda>n. True"] by auto
  have "header_lines_of (drop 2 (http_header_init :: mem_text header_table)) = Some []"
    by (simp add: http_header_init_def blank_header_def header_line_def numeral_eq_Suc)
  from http_request_package_text[OF TrueI r0 table_ok_init this, of "''GET''" "''/''" "''HTTP/1.0''" "''h''"] r0
  show ?thesis by (auto simp: CRLF_def)
qed

lemma build_headers_dangling:
  "h \<in> set hs \<Longrightarrow> h_key h \<noteq> None \<Longrightarrow> h_val h = Some Dangling \<Longrightarrow> request_build_headers hs s = None"
proof (induction hs arbitrary: s)
  case (Cons x hs)
  show ?case
  proof (cases "h = x")
    case True
    then show ?thesis using Cons.prems by (auto simp: request_build_header_def ptr_text_def)
  next
    case False
    then have "request_build_headers hs s' = None" for s' using Cons by simp
    then show ?thesis by (cases "if h_key x \<noteq> None then request_build_header x s else Some s") (auto split: if_splits)
  qed
qed simp

text \<open>Packaging a request with a body and without extension headers is undefined: the value of the content
  length header refers to an array of a function that has returned.\<close>

theorem http_request_package_body_undefined:
  assumes "table_ok (rq_headers req)" "rq_body req = Some b" "b \<noteq> []" "rq_extend_headers req = None"
  shows "http_request_package req = None"
proof -
  have kn: "known_type 1" "known_type 8" by (simp_all add: known_type_def)
  have bl: "body_len req \<noteq> 0" using assms(2,3) by (simp add: body_len_def)
  obtain hs1 where h1: "header_set (rq_headers req) 1 (rq_host req) = Some hs1" "table_ok hs1"
    using header_set_ok[OF assms(1)] by blast
  let ?hs = "hs1[8 := \<lparr>h_type = 8, h_key = find_key 8, h_val = Some Dangling\<rparr>]"
  have p: "package_headers req = Some ?hs"
    using h1 header_set_known[OF h1(2) kn(2)] bl assms(4)
    by (simp add: package_headers_def request_set_header_def mem_mkptr_num_def)
  have l: "8 < length hs1" using h1(2) by (simp add: table_ok_def)
  then have "\<lparr>h_type = 8, h_key = find_key 8, h_val = Some Dangling\<rparr> \<in> set ?hs" by (simp add: set_update_memI)
  moreover have "find_key 8 \<noteq> None" using find_key_known kn(2) by blast
  ultimately have "request_build_headers ?hs s = None" for s
    using build_headers_dangling[of "\<lparr>h_type = 8, h_key = find_key 8, h_val = Some Dangling\<rparr>" ?hs] by simp
  then show ?thesis unfolding http_request_package_def p by (auto simp: Let_def bind_eq_None_conv)
qed

theorem http_request_package_body_undefined_witness:
  "\<exists>r0. http_request_init (\<lambda>n. True) = Some r0 \<and> http_request_package (r0\<lparr>rq_body := Some ''x''\<rparr>) = None"
proof -
  obtain r0 where "http_request_init (\<lambda>n. True) = Some r0" "rq_headers r0 = http_header_init" "rq_extend_headers r0 = None"
    using init_request[of "\<lambda>n. True"] by auto
  then show ?thesis using http_request_package_body_undefined[of "r0\<lparr>rq_body := Some ''x''\<rparr>" "''x''"] table_ok_init by auto
qed

section \<open>Sending\<close>

text \<open>The pieces that the code puts on the wire when \<open>send\<close> takes \<open>ks\<close> bytes in turn.\<close>

fun slices :: "string \<Rightarrow> nat \<Rightarrow> nat list \<Rightarrow> string" where
  "slices buf off [] = []"
| "slices buf off (k # ks) = take k (drop off buf) @ slices buf k ks"

text \<open>The counts \<open>send\<close> may return: positive, no more than offered, and together the whole request.\<close>

fun takes :: "int \<Rightarrow> int \<Rightarrow> nat list \<Rightarrow> bool" where
  "takes len tot [] \<longleftrightarrow> False"
| "takes len tot (k # ks) \<longleftrightarrow> 0 < k \<and> int k \<le> min HTTP_BUFFER_CHUNK (len - tot) \<and>
     (if tot + int k = len then ks = [] else takes len (tot + int k) ks)"

lemma send_loop_slices:
  assumes "takes len tot ks" "tc_status conn = tcp_connected" "\<forall>j < length ks. \<forall>d. send (i + j) d = int (ks ! j)"
    and "0 \<le> off" "off \<le> tot" "len \<le> int (length buf)" "0 \<le> tot"
  shows "send_loop send conn buf len i off tot wire = Some (et_ok, wire @ slices buf (nat off) ks)"
  using assms
proof (induction ks arbitrary: tot i off wire)
  case (Cons k ks)
  let ?mx = "if len - tot > HTTP_BUFFER_CHUNK then HTTP_BUFFER_CHUNK else len - tot"
  have k: "0 < k" "int k \<le> ?mx" "?mx \<le> len - tot" using Cons.prems(1) by (auto simp: min_def split: if_splits)
  have "nat off + nat ?mx \<le> length buf" using k Cons.prems(4-7) by linarith
  then have rd: "mem_read buf off (nat ?mx) = Some (take (nat ?mx) (drop (nat off) buf))" using Cons.prems(4) by (simp add: mem_read_def)
  have s0: "send i d = int k" for d using Cons.prems(3) by auto
  have sd: "awoke_tcp_connect_send (\<lambda>_. send i) (Some conn) (Some d) = (et_ok, Some (int k))" for d
    using Cons.prems(2) s0 by (simp add: awoke_tcp_connect_send_def)
  have tk: "take (nat (int k)) (take (nat ?mx) (drop (nat off) buf)) = take k (drop (nat off) buf)"
  proof -
    have "k \<le> nat ?mx" using k(2) by linarith
    then show ?thesis by (simp only: nat_int take_take min.absorb1)
  qed
  show ?case
  proof (cases "tot + int k = len")
    case True
    then have "ks = []" using Cons.prems(1) by simp
    then show ?thesis using True rd sd tk
      by (subst send_loop.simps) (simp add: Let_def http_reqeust_send_finish_def del: nat_int)
  next
    case False
    have "send_loop send conn buf len (i + 1) (int k) (tot + int k) (wire @ take k (drop (nat off) buf)) =
        Some (et_ok, (wire @ take k (drop (nat off) buf)) @ slices buf (nat (int k)) ks)"
    proof (rule Cons.IH)
      show "\<forall>j<length ks. \<forall>d. send (i + 1 + j) d = int (ks ! j)"
        using Cons.prems(3) by (metis Suc_less_eq add.assoc add.commute length_Cons nth_Cons_Suc plus_1_eq_Suc)
    qed (use Cons.prems False in auto)
    then show ?thesis using False rd sd tk
      by (subst send_loop.simps) (simp add: Let_def http_reqeust_send_finish_def del: nat_int, simp)
  qed
qed simp

text \<open>C19: a request that the network takes in at most two pieces arrives as it is. In general the wire carries
  the pieces \<open>slices\<close>, each of them starting where the piece before it was long, so from the third
  piece on the wrong bytes are sent.\<close>

theorem http_request_send_two_pieces:
  assumes "hb_buff (rq_buffchunk req) = Some buf" "len = hb_length (rq_buffchunk req)" "len \<le> int (length buf)"
    and "tc_status conn = tcp_connected" "takes len 0 ks" "\<forall>j < length ks. \<forall>d. send j d = int (ks ! j)"
  shows "http_request_send send conn req = Some (et_ok, slices buf 0 ks) \<and>
    (length ks \<le> 2 \<longrightarrow> slices buf 0 ks = take (nat len) buf)"
proof
  show "http_request_send send conn req = Some (et_ok, slices buf 0 ks)"
    using send_loop_slices[OF assms(5,4), of send 0 0 buf "[]"] assms by (simp add: http_request_send_def)
  show "length ks \<le> 2 \<longrightarrow> slices buf 0 ks = take (nat len) buf"
  proof
    assume "length ks \<le> 2"
    then consider "ks = []" | k where "ks = [k]" | k j where "ks = [k, j]"
      by (cases ks; cases "tl ks"; cases "tl (tl ks)") auto
    then show "slices buf 0 ks = take (nat len) buf"
    proof cases
      case 3
      then have "nat len = k + j" using assms(5) by (auto split: if_splits)
      then show ?thesis using 3 by (simp add: take_add)
    qed (use assms(5) in \<open>auto split: if_splits\<close>)
  qed
qed

theorem http_request_send_two_pieces_witness:
  "http_request_send (\<lambda>j d. 3) (tcp_blank\<lparr>tc_status := tcp_connected\<rparr>)
     \<lparr>rq_host = None, rq_path = None, rq_body = None, rq_method = [], rq_protocol = [], rq_headers = [], rq_extend_headers = None,
      rq_bp = \<lparr>bp_p = 0, bp_max = 0, bp_len = 0\<rparr>, rq_buffchunk = \<lparr>hb_buff = Some ''abcdef'', hb_size = 6, hb_length = 6\<rparr>\<rparr> =
     Some (et_ok, ''abcdef'') \<and> slices ''abcdef'' 0 [2, 2, 2] = ''abcdcd''"
proof -
  let ?req = "\<lparr>rq_host = None, rq_path = None, rq_body = None, rq_method = [], rq_protocol = [], rq_headers = [], rq_extend_headers = None,
      rq_bp = \<lparr>bp_p = 0, bp_max = 0, bp_len = 0\<rparr>, rq_buffchunk = \<lparr>hb_buff = Some ''abcdef'', hb_size = 6, hb_length = 6\<rparr>\<rparr>"
  have "takes 6 0 [3, 3]" by (simp add: HTTP_BUFFER_CHUNK_def)
  moreover have "\<forall>j < length [3, 3 :: nat]. \<forall>d :: string. (3 :: int) = int ([3, 3] ! j)" by (simp add: less_Suc_eq numeral_eq_Suc)
  ultimately show ?thesis
    using http_request_send_two_pieces[of ?req "''abcdef''" 6 "tcp_blank\<lparr>tc_status := tcp_connected\<rparr>" "[3, 3]" "\<lambda>j d. 3"] by simp
qed

end
