(* ===== verification/Http_Receive.thy ===== *)
theory Http_Receive
  imports Http_Response
begin

text \<open>
  What the receive loop of \<open>http_response_recv\<close> guarantees: its buffer holds the answers of the peer in
  order, a response that arrives in one read comes out parsed; and the inputs
  on which the code is undefined. \<open>recv\<close> is assumed to return no more than it was asked for
  (\<open>honest\<close>) where a statement needs it.
\<close>

section \<open>The receive loop\<close>

text \<open>What the loop has received so far, when \<open>recv\<close> returns no more than it was asked for.\<close>

definition honest :: "peer \<Rightarrow> bool" where
  "honest peer \<longleftrightarrow> (\<forall>i n d. peer i n = Inr d \<longrightarrow> length d \<le> n)"

definition holds_received :: "http_buffchunk \<Rightarrow> string list \<Rightarrow> bool" where
  "holds_received c ds \<longleftrightarrow> hb_length c = int (length (concat ds)) \<and> hb_length c \<le> hb_size c \<and>
     (hb_length c = 0 \<or> (\<exists>b. hb_buff c = Some b \<and> length (concat ds) \<le> length b \<and> take (length (concat ds)) b = concat ds))"

definition answers :: "peer \<Rightarrow> string list \<Rightarrow> bool" where
  "answers peer ds \<longleftrightarrow> (\<forall>j < length ds. \<exists>n. peer j n = Inr (ds ! j))"

lemma recv_grow_keeps:
  assumes "recv_grow alloc junk c = Some (et_ok, c')" "holds_received c ds" "hb_buff c' \<noteq> None"
  shows "holds_received c' ds"
proof (cases "hb_length c = 0")
  case True
  then show ?thesis using assms by (simp add: recv_grow_def)
next
  case False
  then obtain b where b: "hb_buff c = Some b" "length (concat ds) \<le> length b" "take (length (concat ds)) b = concat ds"
    "hb_length c = int (length (concat ds))" "hb_length c \<le> hb_size c" using assms(2) by (auto simp: holds_received_def)
  define n where "n = nat (hb_size c + HTTP_BUFFER_CHUNK + 1)"
  obtain r where r: "mem_realloc alloc junk b n = Some r" "c' = c\<lparr>hb_buff := r, hb_size := hb_size c + HTTP_BUFFER_CHUNK\<rparr>"
    using assms(1) False b(1) by (auto simp: recv_grow_def http_buffchunk_resize_def http_buffchunk_dynamic_def HTTP_BUFFER_CHUNK_def
      n_def bind_eq_Some_conv split: if_splits)
  then obtain m where m: "r = Some m" "m = take n b @ map junk [length b..<n]"
    using assms(3) by (auto simp: mem_realloc_def split: if_splits)
  have l: "length (concat ds) \<le> n" using b(4,5) by (auto simp: n_def HTTP_BUFFER_CHUNK_def)
  have "take (length (concat ds)) m = concat ds" using l b(2,3) m(2) by (simp add: min_def)
  moreover have "length (concat ds) \<le> length m" using l b(2) m(2) by simp
  ultimately show ?thesis using r(2) m(1) b by (auto simp: holds_received_def HTTP_BUFFER_CHUNK_def)
qed

lemma recv_into_keeps:
  assumes "recv_into recv c = Some (et_ok, c')" "holds_received c ds" "\<And>n d. recv n = Inr d \<Longrightarrow> length d \<le> n"
  obtains d n where "recv n = Inr d" "holds_received c' (ds @ [d])" "the (hb_buff c') ! length (concat (ds @ [d])) = NUL"
    "length (concat (ds @ [d])) < length (the (hb_buff c'))" "hb_buff c' \<noteq> None" "hb_buff c \<noteq> None"
proof -
  obtain d where d: "recv (nat (hb_size c - hb_length c)) = Inr d" "0 \<le> hb_length c" "hb_size c' = hb_size c"
    "hb_length c' = hb_length c + int (length d)"
    "hb_buff c' \<noteq> None" "hb_length c' < int (length (the (hb_buff c')))" "the (hb_buff c') ! nat (hb_length c') = NUL"
    "hb_buff c \<noteq> None"
    "take (nat (hb_length c')) (the (hb_buff c')) = take (nat (hb_length c)) (the (hb_buff c)) @ d"
    by (rule recv_into_cases[OF assms(1)])
  have n: "hb_length c = int (length (concat ds))" "hb_length c \<le> hb_size c" using assms(2) by (auto simp: holds_received_def)
  then have n': "nat (hb_length c) = length (concat ds)" "nat (hb_length c') = length (concat (ds @ [d]))"
    "hb_length c' = int (length (concat (ds @ [d])))" using d(4) by auto
  have "take (length (concat ds)) (the (hb_buff c)) = concat ds"
  proof (cases "concat ds = []")
    case False
    then show ?thesis using assms(2) n(1) by (auto simp: holds_received_def)
  next
    case True
    show ?thesis unfolding True by simp
  qed
  then have t: "take (length (concat (ds @ [d]))) (the (hb_buff c')) = concat (ds @ [d])" using d(9) n' by simp
  have "length d \<le> nat (hb_size c - hb_length c)" using assms(3) d(1) by blast
  then have "hb_length c' \<le> hb_size c'" using d(3,4) n by linarith
  moreover obtain b where b: "hb_buff c' = Some b" using d(5) by blast
  ultimately have "holds_received c' (ds @ [d])" using t d(6) n'(3) by (auto simp: holds_received_def)
  then show ?thesis using that d n' by auto
qed

text \<open>What the loop establishes when it finishes.\<close>

definition received_all :: "http_response \<Rightarrow> string list \<Rightarrow> bool" where
  "received_all rsp ds \<longleftrightarrow> holds_received (rsp_buffchunk rsp) ds \<and>
     (\<exists>s pos. rsp_text rsp = Some s \<and> c_strstr s 0 (CRLF @ CRLF) = Some pos \<and> pos + 4 \<le> length (concat ds) \<and>
       rsp_content_length rsp = of_nat (length (concat ds) - (pos + 4)))"

lemma recv_round_keeps:
  assumes "recv_round alloc junk (peer i) rsp = Some (Inr (fin, rsp'))" "holds_received (rsp_buffchunk rsp) ds" "honest peer"
  obtains d n where "peer i n = Inr d" "holds_received (rsp_buffchunk rsp') (ds @ [d])" "fin \<longrightarrow> received_all rsp' (ds @ [d])"
proof -
  obtain c1 c2 where r: "recv_grow alloc junk (rsp_buffchunk rsp) = Some (et_ok, c1)" "recv_into (peer i) c1 = Some (et_ok, c2)"
    "http_response_recv_finish (rsp\<lparr>rsp_buffchunk := c2\<rparr>) = Some (fin, rsp')"
    using recv_round_cases[OF assms(1)] by blast
  have hon: "\<And>n d. peer i n = Inr d \<Longrightarrow> length d \<le> n" using assms(3) by (simp add: honest_def)
  have "hb_buff c1 \<noteq> None" by (rule recv_into_cases[OF r(2)])
  then have h1: "holds_received c1 ds" using recv_grow_keeps[OF r(1) assms(2)] by blast
  obtain d n where d: "peer i n = Inr d" "holds_received c2 (ds @ [d])" "the (hb_buff c2) ! length (concat (ds @ [d])) = NUL"
    "length (concat (ds @ [d])) < length (the (hb_buff c2))" "hb_buff c2 \<noteq> None"
    by (rule recv_into_keeps[OF r(2) h1 hon])
  obtain s pos cl where f: "rsp_text (rsp\<lparr>rsp_buffchunk := c2\<rparr>) = Some s" "c_strstr s 0 (CRLF @ CRLF) = Some pos"
    "rsp' = rsp\<lparr>rsp_buffchunk := c2, rsp_content_length := cl,
       rsp_body := Some (pos + 4, of_int (hb_length c2 - int (pos + 4)))\<rparr>"
    "fin \<longleftrightarrow> of_int (hb_length c2 - int (pos + 4)) = cl"
    by (rule recv_finish_body[OF r(3)]) simp
  have b: "rsp_buffchunk rsp' = c2" "rsp_text rsp' = Some s" "rsp_content_length rsp' = cl" using f(1,3) by (auto simp: rsp_text_def)
  have "length s \<le> length (concat (ds @ [d]))"
    using c_str_short[OF d(4,3)] f(1) d(5) by (auto simp: rsp_text_def)
  moreover have "pos + 4 \<le> length s" using c_strstr_bounds[OF f(2)] by (simp add: CRLF_def)
  ultimately have p: "pos + 4 \<le> length (concat (ds @ [d]))" by simp
  have "hb_length c2 = int (length (concat (ds @ [d])))" using d(2) by (simp add: holds_received_def)
  then have "hb_length c2 - int (pos + 4) = int (length (concat (ds @ [d])) - (pos + 4))" using p by linarith
  then have "fin \<longrightarrow> cl = of_nat (length (concat (ds @ [d])) - (pos + 4))" using f(4) by (metis of_int_of_nat_eq)
  then have "fin \<longrightarrow> received_all rsp' (ds @ [d])" using b d(2) f(2) p by (auto simp: received_all_def)
  then show ?thesis using that d(1,2) b(1) by simp
qed

lemma recv_loop_received:
  assumes "recv_loop alloc junk peer (length ds) rsp = Some (Inr rsp')" "holds_received (rsp_buffchunk rsp) ds" "honest peer" "answers peer ds"
  shows "\<exists>ds'. answers peer ds' \<and> received_all rsp' ds'"
  using assms
proof (induction alloc junk peer "length ds" rsp arbitrary: ds rule: recv_loop.induct)
  case (1 alloc junk peer rsp)
  obtain fin rsp1 where r: "recv_round alloc junk (peer (length ds)) rsp = Some (Inr (fin, rsp1))"
    using "1.prems"(1) by (auto simp: recv_loop.simps[of _ _ _ "length ds" rsp] split: option.splits sum.splits)
  obtain d n where d: "peer (length ds) n = Inr d" "holds_received (rsp_buffchunk rsp1) (ds @ [d])" "fin \<longrightarrow> received_all rsp1 (ds @ [d])"
    by (rule recv_round_keeps[OF r "1.prems"(2,3)])
  have a: "answers peer (ds @ [d])" using "1.prems"(4) d(1) by (auto simp: answers_def nth_append less_Suc_eq)
  show ?case
  proof (cases fin)
    case True
    then have "rsp' = rsp1" using "1.prems"(1) r by (simp add: recv_loop.simps[of _ _ _ "length ds" rsp])
    then show ?thesis using a d(3) True by blast
  next
    case False
    have "recv_loop alloc junk peer (length (ds @ [d])) rsp1 = Some (Inr rsp')"
      using "1.prems"(1) r False by (simp add: recv_loop.simps[of _ _ _ "length ds" rsp])
    then show ?thesis using "1.hyps"[OF r refl refl False, of "ds @ [d]"] d(2) "1.prems"(3) a by simp
  qed
qed

lemma parse_keeps:
  assumes "response_parse_header rsp = Some (e, rsp')"
  shows "rsp_buffchunk rsp' = rsp_buffchunk rsp \<and> rsp_content_length rsp' = rsp_content_length rsp"
proof -
  obtain s where s: "rsp_text rsp = Some s" using assms by (auto simp: response_parse_header_def bind_eq_Some_conv)
  note d = assms[unfolded response_parse_header_def s Option.bind.simps Let_def]
  show ?thesis
  proof (cases "c_strstr s 0 CRLF")
    case (Some tail)
    show ?thesis
    proof (cases "c_strstr s 0 '' ''")
      case (Some pos)
      show ?thesis
      proof (cases "c_strstr s (pos + 1) '' ''")
        case (Some pos2)
        show ?thesis
        proof (cases "c_strstr s (tail + 2) (CRLF @ CRLF)")
          case None
          then show ?thesis using d \<open>c_strstr s 0 CRLF = Some tail\<close> \<open>c_strstr s 0 '' '' = Some pos\<close> Some
            by (auto simp: bind_eq_Some_conv split del: if_split)
        next
          case (Some tail2)
          then show ?thesis using d \<open>c_strstr s 0 CRLF = Some tail\<close> \<open>c_strstr s 0 '' '' = Some pos\<close>
              \<open>c_strstr s (pos + 1) '' '' = Some pos2\<close>
            by (auto simp: bind_eq_Some_conv split del: if_split)
        qed
      qed (use d \<open>c_strstr s 0 CRLF = Some tail\<close> Some in auto)
    qed (use d Some in auto)
  qed (use d in auto)
qed

text \<open>When receiving succeeds, the buffer holds exactly the answers of the peer in the order they came,
  and the bytes behind the first empty line are as many as the content length announces.\<close>

theorem http_response_recv_sound:
  assumes "honest peer" "http_response_recv alloc junk peer (http_response_init alloc) = Some (et_ok, Live rsp)"
  shows "\<exists>ds. answers peer ds \<and> received_all rsp ds"
proof -
  obtain rsp1 e where r: "recv_loop alloc junk peer 0 (http_response_init alloc) = Some (Inr rsp1)"
    "response_parse_header rsp1 = Some (e, rsp)"
  proof -
    obtain y where y: "recv_loop alloc junk peer 0 (http_response_init alloc) = Some y"
      using assms(2) by (auto simp: http_response_recv_def bind_eq_Some_conv)
    then show ?thesis using assms(2) that
      by (cases y) (auto simp: http_response_recv_def http_response_parse_def bind_eq_Some_conv)
  qed
  have "holds_received (rsp_buffchunk (http_response_init alloc)) []"
    by (simp add: holds_received_def http_response_init_def http_buffchunk_init_def HTTP_BUFFER_CHUNK_def)
  then obtain ds where "answers peer ds" "received_all rsp1 ds"
    using recv_loop_received[of alloc junk peer "[]" "http_response_init alloc" rsp1] r(1) assms(1) by (auto simp: answers_def)
  moreover have "rsp_buffchunk rsp = rsp_buffchunk rsp1" "rsp_content_length rsp = rsp_content_length rsp1"
    using parse_keeps[OF r(2)] by auto
  ultimately show ?thesis by (auto simp: received_all_def rsp_text_def)
qed


lemma bind_Some_map: "(x \<bind> (\<lambda>r. Some (f r))) = map_option f x"
  by (cases x) auto

lemma recv_first:
  assumes "alloc (nat HTTP_BUFFER_CHUNK)" "peer 0 (nat HTTP_BUFFER_CHUNK) = Inr d"
  shows "recv_round alloc junk (peer 0) (http_response_init alloc) =
    (if length d < nat HTTP_BUFFER_CHUNK
     then map_option Inr (http_response_recv_finish ((http_response_init alloc)\<lparr>rsp_buffchunk :=
       \<lparr>hb_buff = Some (d @ replicate (nat HTTP_BUFFER_CHUNK - length d) NUL), hb_size = HTTP_BUFFER_CHUNK, hb_length = int (length d)\<rparr>\<rparr>))
     else None)"
proof -
  let ?N = "nat HTTP_BUFFER_CHUNK"
  let ?c = "\<lparr>hb_buff = Some (replicate ?N NUL), hb_size = HTTP_BUFFER_CHUNK, hb_length = 0\<rparr>"
  have i: "rsp_buffchunk (http_response_init alloc) = ?c" using assms(1) by (simp add: http_response_init_def http_buffchunk_init_def)
  have g: "recv_grow alloc junk ?c = Some (et_ok, ?c)" by (simp add: recv_grow_def)
  have "recv_into (peer 0) ?c = (if length d < ?N
      then Some (et_ok, \<lparr>hb_buff = Some (d @ replicate (?N - length d) NUL), hb_size = HTTP_BUFFER_CHUNK, hb_length = int (length d)\<rparr>) else None)"
  proof (cases "length d < ?N")
    case True
    then have "?N - length d = Suc (?N - length d - 1)" by simp
    then have e: "replicate (?N - length d) NUL = NUL # replicate (?N - length d - 1) NUL" by (metis replicate_Suc)
    have w: "mem_write (replicate ?N NUL) 0 d = Some (d @ replicate (?N - length d) NUL)" using True by (simp add: mem_write_def)
    have "mem_write (d @ replicate (?N - length d) NUL) (int (length d)) [NUL] = Some (d @ replicate (?N - length d) NUL)"
      using True e by (simp add: mem_write_def)
    then show ?thesis using True assms(2) w by (simp add: recv_into_def)
  next
    case False
    then show ?thesis using assms(2) by (cases "length d = ?N") (auto simp: recv_into_def mem_write_def)
  qed
  then show ?thesis by (simp add: recv_round_def i g bind_Some_map)
qed

lemma c_str_padded: "0 < n \<Longrightarrow> c_str (d @ replicate n NUL) = Some (takeWhile (\<lambda>c. c \<noteq> NUL) d)"
proof -
  assume "0 < n"
  then obtain m where n: "n = Suc m" by (cases n) auto
  have "takeWhile (\<lambda>c. c \<noteq> NUL) (d @ NUL # replicate m NUL) = takeWhile (\<lambda>c. c \<noteq> NUL) d"
    by (induction d) auto
  then show ?thesis by (simp add: c_str_def n)
qed

text \<open>Receiving is undefined when the first read fills the whole buffer, because the terminator is
  written one byte behind the block, and when the first read does not hold the complete header, because
  the position of the empty line is then computed from a NULL pointer.\<close>

theorem http_response_recv_undefined:
  assumes "alloc 8092" "peer 0 8092 = Inr d"
    and "length d = 8092 \<or> length d < 8092 \<and> c_strstr (takeWhile (\<lambda>c. c \<noteq> NUL) d) 0 (CRLF @ CRLF) = None"
  shows "http_response_recv alloc junk peer (http_response_init alloc) = None"
proof -
  have N: "nat HTTP_BUFFER_CHUNK = 8092" by (simp add: HTTP_BUFFER_CHUNK_def)
  have f: "c_str (d @ replicate (8092 - length d) NUL) = Some (takeWhile (\<lambda>c. c \<noteq> NUL) d)" if "length d < 8092"
    using c_str_padded[of "8092 - length d" d] that by simp
  have "recv_round alloc junk (peer 0) (http_response_init alloc) = None"
    using recv_first[of alloc peer d junk] assms f unfolding N
    by (auto simp: http_response_recv_finish_def http_response_preparse_def rsp_text_def)
  then show ?thesis by (simp add: http_response_recv_def recv_loop.simps)
qed

theorem http_response_recv_undefined_witness:
  "http_response_recv (\<lambda>n. True) (\<lambda>n. NUL) (\<lambda>i n. Inr ''HTTP/1.1 200 OK'') (http_response_init (\<lambda>n. True)) = None"
  by (rule http_response_recv_undefined[where d = "''HTTP/1.1 200 OK''"]) (simp_all add: c_strstr_def CRLF_def NUL_def)

lemma recv_one_read_ok:
  assumes "alloc 8092" "peer 0 8092 = Inr (response_text p c r hdrs body)" "length (response_text p c r hdrs body) < 8092"
    and "NUL \<notin> set (response_text p c r hdrs body)" "response_wf p c r hdrs"
    and "scan_content_length (response_text p c r hdrs body) 0 = Some (of_nat (length body))"
  shows "\<exists>rsp off. http_response_recv alloc junk peer (http_response_init alloc) = Some (et_ok, Live rsp) \<and>
    rsp_status rsp = digits_value c \<and> rsp_protocol rsp = get_protocol p \<and>
    table_holds (response_text p c r hdrs body) http_header_init (rsp_headers rsp) hdrs \<and>
    rsp_body rsp = Some (off, of_nat (length body)) \<and> rsp_text rsp = Some (response_text p c r hdrs body) \<and>
    bview (response_text p c r hdrs body) (off, of_nat (length body)) = body"
proof -
  define s where "s = response_text p c r hdrs body"
  have N: "nat HTTP_BUFFER_CHUNK = 8092" by (simp add: HTTP_BUFFER_CHUNK_def)
  define ch where "ch = \<lparr>hb_buff = Some (s @ replicate (8092 - length s) NUL), hb_size = HTTP_BUFFER_CHUNK, hb_length = int (length s)\<rparr>"
  define r0 where "r0 = (http_response_init alloc)\<lparr>rsp_buffchunk := ch\<rparr>"
  have rd: "recv_round alloc junk (peer 0) (http_response_init alloc) = map_option Inr (http_response_recv_finish r0)"
    using recv_first[of alloc peer s junk] assms(1,2,3) unfolding N by (simp add: r0_def ch_def s_def)
  have "takeWhile (\<lambda>c. c \<noteq> NUL) s = s" using assms(4) by (auto simp: s_def takeWhile_eq_all_conv)
  then have "c_str (s @ replicate (8092 - length s) NUL) = Some s" using c_str_padded[of "8092 - length s" s] assms(3) by (simp add: s_def)
  then have t0: "rsp_text r0 = Some s" by (simp add: rsp_text_def r0_def ch_def)
  let ?line = "p @ '' '' @ c @ '' '' @ r" and ?rest = "header_text hdrs @ CRLF @ body"
  have wf: "hdrs \<noteq> []" "list_all header_wf hdrs" using assms(5) by (simp_all add: response_wf_def)
  have "list_all is_digit_char c" using assms(5) by (simp add: response_wf_def)
  then have "CR \<notin> set c" using digit_char_facts(1) unfolding list_all_iff by blast
  then have cr: "CR \<notin> set ?line" using assms(5) by (simp add: response_wf_def CR_def)
  obtain i where i: "find_sub (CRLF @ CRLF) ?rest = Some i" "i + 2 = length (header_text hdrs)"
    using find_blank_line[OF wf] by blast
  have s1: "s = ?line @ CRLF @ ?rest" by (simp add: s_def response_text_def)
  let ?pos = "length ?line + 2 + i"
  have pos: "c_strstr s 0 (CRLF @ CRLF) = Some ?pos"
    using find_blank_skip[OF cr header_text_hd[OF wf, of "CRLF @ body"]] i(1) unfolding c_strstr_def s1 by simp
  have len: "length s = ?pos + 4 + length body" using i(2) by (simp add: s1 CRLF_def)
  define r1 where "r1 = r0\<lparr>rsp_content_length := of_nat (length body), rsp_body := Some (?pos + 4, of_nat (length body))\<rparr>"
  have c0: "rsp_content_length r0 = 0" "hb_length (rsp_buffchunk r0) = int (length s)" "rsp_headers r0 = http_header_init"
    by (simp_all add: r0_def http_response_init_def ch_def)
  have d: "of_int (int (length s) - int (?pos + 4)) = (of_nat (length body) :: u64)" using len by (simp del: append_assoc)
  have "http_response_preparse r0 = Some (et_ok, r1)"
    unfolding http_response_preparse_def t0 Option.bind.simps c0 pos d using assms(6) by (simp add: r1_def s_def)
  then have "http_response_recv_finish r0 = Some (True, r1)" by (simp add: http_response_recv_finish_def r1_def)
  then have lp: "recv_loop alloc junk peer 0 (http_response_init alloc) = Some (Inr r1)" using rd by (simp add: recv_loop.simps)
  have t1: "rsp_text r1 = Some s" "rsp_headers r1 = http_header_init" "rsp_content_length r1 = of_nat (length body)"
    using t0 c0 by (simp_all add: r1_def rsp_text_def)
  have l64: "length s < 2 ^ 64" using assms(3) by (simp add: s_def)
  obtain rsp off where q: "response_parse_header r1 = Some (et_ok, rsp)" "rsp_status rsp = digits_value c" "rsp_protocol rsp = get_protocol p"
    "table_holds s http_header_init (rsp_headers rsp) hdrs" "rsp_body rsp = Some (off, of_nat (length body))" "drop off s = body"
    using response_parse_ok[of r1 p c r hdrs body] t1 assms(5) l64 table_ok_init unfolding s_def by fastforce
  have "rsp_text rsp = Some s" using parse_keeps[OF q(1)] t1(1) by (simp add: rsp_text_def)
  moreover have "length body < 2 ^ 64" using l64 len by linarith
  then have "bview s (off, of_nat (length body)) = body" using q(6) by (simp add: bview_def unat_of_nat)
  moreover have "http_response_recv alloc junk peer (http_response_init alloc) = Some (et_ok, Live rsp)"
    using lp q(1) by (simp add: http_response_recv_def http_response_parse_def)
  ultimately show ?thesis using q unfolding s_def by blast
qed

text \<open>C17: a response that arrives in one read, shorter than the buffer of 8092 bytes, without NUL characters and with the
  content length it announces, is received and parsed: receiving returns, and the result carries the status, the
  protocol and the headers of the response, and its body reference denotes the body.\<close>

theorem http_response_recv_one_read:
  assumes "alloc 8092" "peer 0 8092 = Inr (response_text p c r hdrs body)" "length (response_text p c r hdrs body) < 8092"
    and "NUL \<notin> set (response_text p c r hdrs body)" "response_wf p c r hdrs"
    and "scan_content_length (response_text p c r hdrs body) 0 = Some (of_nat (length body))"
  shows "\<exists>rsp off. http_response_recv alloc junk peer (http_response_init alloc) = Some (et_ok, Live rsp) \<and>
    rsp_status rsp = digits_value c \<and> rsp_protocol rsp = get_protocol p \<and>
    table_holds (response_text p c r hdrs body) http_header_init (rsp_headers rsp) hdrs \<and>
    rsp_body rsp = Some (off, of_nat (length body)) \<and> rsp_text rsp = Some (response_text p c r hdrs body) \<and>
    bview (response_text p c r hdrs body) (off, of_nat (length body)) = body"
  by (rule recv_one_read_ok[where alloc = alloc and peer = peer, OF assms])

definition ok_text :: string where
  "ok_text = response_text ''HTTP/1.1'' ''200'' ''OK'' [(''Content-Length'', ''2'')] ''hi''"

lemma ok_text_facts:
  "length ok_text < 8092" "NUL \<notin> set ok_text" "response_wf ''HTTP/1.1'' ''200'' ''OK'' [(''Content-Length'', ''2'')]"
  "scan_content_length ok_text 0 = Some (of_nat (length ''hi''))"
proof -
  show "length ok_text < 8092" by (simp add: ok_text_def response_text_def header_text_def CRLF_def)
  show "NUL \<notin> set ok_text" by (simp add: ok_text_def response_text_def header_text_def CRLF_def NUL_def)
  show "response_wf ''HTTP/1.1'' ''200'' ''OK'' [(''Content-Length'', ''2'')]"
    by (simp add: response_wf_def header_wf_def CR_def is_digit_char_def digits_value_def)
  show "scan_content_length ok_text 0 = Some (of_nat (length ''hi''))"
    by (simp add: ok_text_def response_text_def header_text_def CRLF_def scan_content_length_def c_strstr_def
        scan_decimal_def is_space_def is_digit_char_def digits_value_def)
qed

theorem http_response_recv_one_read_witness:
  "\<exists>rsp off. http_response_recv (\<lambda>n. True) (\<lambda>n. NUL) (\<lambda>i n. Inr ok_text) (http_response_init (\<lambda>n. True)) = Some (et_ok, Live rsp) \<and>
    rsp_status rsp = 200 \<and> bview ok_text (off, 2) = ''hi''"
proof -
  have "digits_value ''200'' = 200" by (simp add: digits_value_def)
  then show ?thesis
    using http_response_recv_one_read[of "\<lambda>n. True" "\<lambda>i n. Inr ok_text" "''HTTP/1.1''" "''200''" "''OK''" "[(''Content-Length'', ''2'')]" "''hi''" "\<lambda>n. NUL"]
      ok_text_facts unfolding ok_text_def by auto
qed

theorem http_response_recv_sound_witness:
  "\<exists>rsp ds. http_response_recv (\<lambda>n. True) (\<lambda>n. NUL) (\<lambda>i n. if length ok_text \<le> n then Inr ok_text else Inl 1) (http_response_init (\<lambda>n. True)) = Some (et_ok, Live rsp) \<and>
    received_all rsp ds"
proof -
  let ?p = "\<lambda>i n. if length ok_text \<le> n then Inr ok_text else Inl 1"
  obtain rsp where r: "http_response_recv (\<lambda>n. True) (\<lambda>n. NUL) ?p (http_response_init (\<lambda>n. True)) = Some (et_ok, Live rsp)"
    using recv_one_read_ok[of "\<lambda>n. True" ?p "''HTTP/1.1''" "''200''" "''OK''" "[(''Content-Length'', ''2'')]" "''hi''" "\<lambda>n. NUL"]
      ok_text_facts unfolding ok_text_def by auto
  have "honest ?p" by (auto simp: honest_def split: if_splits)
  from http_response_recv_sound[OF this r] show ?thesis using r by blast
qed

end
