(* ===== verification/Http_Client.thy ===== *)
theory Http_Client
  imports Http_Uri Http_Request Http_Receive
begin

text \<open>
  The client of \<open>lib/libhttp/src/awoke_http.c\<close>: opening a connection for an address and the whole
  exchange \<open>http_request\<close>. The system is a record of parameters: name resolution, the conversions of
  addresses, the socket calls, memory. The caller's connection is passed in and its content before
  \<open>http_connect_create\<close> is arbitrary, as the code does not initialise it.
\<close>

section \<open>Model\<close>

record http_env =
  env_alloc :: allocator
  env_junk :: "nat \<Rightarrow> char"
  env_gethostbyname :: "string \<Rightarrow> u32 option"
  env_inet_ntoa :: "u32 \<Rightarrow> string"
  env_inet_addr :: "string \<Rightarrow> u32"
  env_socket :: int
  env_connect :: "int \<Rightarrow> sockaddr_in \<Rightarrow> int"
  env_send :: "nat \<Rightarrow> string \<Rightarrow> int"
  env_peer :: peer

definition HTTP_CONN_F_HOSTNAME :: u16 where "HTTP_CONN_F_HOSTNAME = 0x0002"
definition HTTP_CONN_F_KEEP_ALIVE :: u16 where "HTTP_CONN_F_KEEP_ALIVE = 0x0010"

record http_connect =
  hc_uri :: string
  hc_hostname :: string
  hc_host :: "string option"
  hc_user :: "string option"
  hc_path :: "string option"
  hc_query :: "string option"
  hc_scheme :: "string option"
  hc_fragment :: "string option"
  hc_flag :: u16
  hc_conn :: awoke_tcp_connect

definition get_host_address :: "http_env \<Rightarrow> string \<Rightarrow> err_type \<times> u32 option" where
  "get_host_address env hostname = (case env_gethostbyname env hostname of
      None \<Rightarrow> (et_fail, None)
    | Some a \<Rightarrow> (et_ok, Some a))"

text \<open>One \<open>%u\<close> of \<open>sscanf\<close>: the rest of the input when digits are read.\<close>

definition scan_u :: "string \<Rightarrow> string option" where
  "scan_u s =
     (let t = dropWhile is_space s;
          u = (if t \<noteq> [] \<and> (hd t = CHR ''-'' \<or> hd t = CHR ''+'') then tl t else t)
      in if takeWhile is_digit_char u = [] then None else Some (dropWhile is_digit_char u))"

definition scan_dot :: "string \<Rightarrow> string option" where
  "scan_dot s = (case s of [] \<Rightarrow> None | c # r \<Rightarrow> if c = CHR ''.'' then Some r else None)"

text \<open>\<open>sscanf(host, "%u.%u.%u.%u", ...) = 4\<close>\<close>

definition dotted_quad :: "string \<Rightarrow> bool" where
  "dotted_quad s \<longleftrightarrow> do {
     a \<leftarrow> scan_u s; a \<leftarrow> scan_dot a; b \<leftarrow> scan_u a; b \<leftarrow> scan_dot b;
     c \<leftarrow> scan_u b; c \<leftarrow> scan_dot c; scan_u c } \<noteq> None"

definition span_text :: "string \<Rightarrow> span \<Rightarrow> string option" where
  "span_text s sp = map_option (\<lambda>(p, n). take n (drop p s)) sp"

text \<open>The host name has room for 31 characters and a NUL, the numeric address for 15.\<close>

definition http_connect_create ::
  "http_env \<Rightarrow> http_connect option \<Rightarrow> string \<Rightarrow> (err_type \<times> http_connect option) option" where
  "http_connect_create env co uri = (case co of
      None \<Rightarrow> Some (et_param, None)
    | Some c \<Rightarrow> do {
        r \<leftarrow> uri_parse uri;
        (case r of
           Inl e \<Rightarrow> Some (e, Some c)
         | Inr u \<Rightarrow> do {
             let path = (if view uri (rpath u) = [] then Some ''/'' else span_text uri (rpath u));
             let c1 = c\<lparr>hc_uri := uri, hc_host := span_text uri (rhost u), hc_path := path,
                        hc_user := span_text uri (ruser_info u), hc_query := span_text uri (rquery u),
                        hc_scheme := span_text uri (rscheme u)\<rparr>;
             let port = (if rport u = 0 then 80 else rport u);
             (hp, hl) \<leftarrow> rhost u;
             let h = take hl (drop hp uri);
             (e, addr, c2) \<leftarrow>
               (if \<not> dotted_quad (drop hp uri) then
                  (if 32 \<le> length h then None
                   else (case get_host_address env h of
                       (e, None) \<Rightarrow> Some (e, [], c1\<lparr>hc_hostname := h\<rparr>)
                     | (e, Some ip) \<Rightarrow> Some (e, env_inet_ntoa env ip,
                         c1\<lparr>hc_hostname := h, hc_flag := mask_push (hc_flag c1) HTTP_CONN_F_HOSTNAME\<rparr>)))
                else if 16 \<le> length h then None
                else Some (et_ok, h, c1));
             if e \<noteq> et_ok then Some (e, Some c2)
             else (case awoke_tcp_connect_create (env_socket env) (env_inet_addr env) (Some (hc_conn c2)) (Some addr) (ucast port) of
                 (e, Some t) \<Rightarrow> Some (e, Some (c2\<lparr>hc_conn := t\<rparr>))
               | (e, None) \<Rightarrow> Some (e, Some c2)) }) })"

definition http_connect_release :: "http_connect \<Rightarrow> int list \<Rightarrow> http_connect \<times> int list" where
  "http_connect_release c closed = (case awoke_tcp_connect_release (hc_conn c) closed of
      (e, t, cl) \<Rightarrow> (c\<lparr>hc_conn := t\<rparr>, cl))"

definition http_do_connect :: "http_env \<Rightarrow> http_connect \<Rightarrow> err_type \<times> http_connect" where
  "http_do_connect env c = (case awoke_tcp_do_connect (env_connect env) (hc_conn c) of (e, t) \<Rightarrow> (e, c\<lparr>hc_conn := t\<rparr>))"

definition http_connect_keep_alive :: "http_connect \<Rightarrow> bool" where
  "http_connect_keep_alive c = mask_exst (hc_flag c) HTTP_CONN_F_KEEP_ALIVE"

definition http_connect_set_keep_alive :: "http_connect \<Rightarrow> http_connect" where
  "http_connect_set_keep_alive c = c\<lparr>hc_flag := mask_push (hc_flag c) HTTP_CONN_F_KEEP_ALIVE\<rparr>"

text \<open>\<open>mem_free(&p->buffchunk)\<close> releases an address inside the request, which no allocation returned.\<close>

definition http_request_clean :: "http_request_struct \<Rightarrow> http_connect \<Rightarrow> int list \<Rightarrow> (http_connect \<times> int list) option" where
  "http_request_clean req c closed =
     (let r = (if \<not> http_connect_keep_alive c then http_connect_release c closed else (c, closed))
      in if http_buffchunk_dynamic (rq_buffchunk req) then None else Some r)"

definition open_connection ::
  "http_env \<Rightarrow> string \<Rightarrow> http_connect option \<Rightarrow> http_connect \<Rightarrow> (err_type \<times> http_connect) option" where
  "open_connection env uri alive conn0 =
     (case alive of
        Some a \<Rightarrow> if tc_status (hc_conn a) = tcp_connected then Some (et_ok, a)
          else do {
            (e, c) \<leftarrow> http_connect_create env (Some (http_connect_set_keep_alive conn0)) uri;
            c' \<leftarrow> c;
            if e \<noteq> et_ok then Some (e, c') else Some (http_do_connect env c') }
      | None \<Rightarrow> do {
          (e, c) \<leftarrow> http_connect_create env (Some conn0) uri;
          c' \<leftarrow> c;
          if e \<noteq> et_ok then Some (e, c') else Some (http_do_connect env c') })"

text \<open>Filling in the request. A resize for a long body moves the buffer under \<open>bp\<close>: undefined.\<close>

definition prepare_request ::
  "http_env \<Rightarrow> string \<Rightarrow> string \<Rightarrow> string option \<Rightarrow> mem_text header_table option \<Rightarrow> http_connect \<Rightarrow> http_request_struct \<Rightarrow> http_request_struct option" where
  "prepare_request env meth protocol body headers c req = do {
     let req1 = req\<lparr>rq_extend_headers := headers, rq_method := meth, rq_protocol := protocol\<rparr>;
     hs \<leftarrow> (if strncmp_eq ''HTTP/1.1'' protocol
            then request_set_header (rq_headers req1) (request_headers_id HTTP_HEADER_CONNECTION) (Some (Text ''keep-alive''))
            else Some (rq_headers req1));
     let req2 = req1\<lparr>rq_headers := hs, rq_host := map_option Text (hc_host c), rq_path := map_option Text (hc_path c)\<rparr>;
     if strncmp_eq ''POST'' meth then do {
       let req3 = req2\<lparr>rq_body := body\<rparr>;
       (_, ch) \<leftarrow> http_buffchunk_resize (env_alloc env) (env_junk env) (rq_buffchunk req3) (int (body_len req3));
       if hb_size ch \<noteq> hb_size (rq_buffchunk req3) then None else Some (req3\<lparr>rq_buffchunk := ch\<rparr>) }
     else Some req2 }"

text \<open>The exchange after the connection is open. \<open>http_response_recv\<close> frees the response it is given on
  an error; here it is a variable of the caller, so that is undefined.\<close>

definition exchange ::
  "http_env \<Rightarrow> http_request_struct \<Rightarrow> http_connect \<Rightarrow> (err_type \<times> http_response option) option" where
  "exchange env req c = do {
     (e, req1) \<leftarrow> http_request_package req;
     if e \<noteq> et_ok then Some (e, None)
     else do {
       (e, wire) \<leftarrow> http_request_send (env_send env) (hc_conn c) req1;
       if e \<noteq> et_ok then Some (e, None)
       else do {
         (e, p) \<leftarrow> http_response_recv (env_alloc env) (env_junk env) (env_peer env) (http_response_init (env_alloc env));
         (case p of
            Live rsp \<Rightarrow> Some (e, Some rsp)
          | _ \<Rightarrow> None) } } }"

text \<open>The last step releases the buffer of the local response when the caller wants none; before the
  response was initialised its pointer is indeterminate.\<close>

definition drop_response :: "http_response option \<Rightarrow> http_response option \<Rightarrow> unit option" where
  "drop_response rsp r = (case rsp of
      Some _ \<Rightarrow> Some ()
    | None \<Rightarrow> do {
        src \<leftarrow> r;
        b \<leftarrow> http_response_clean src (case hb_buff (rsp_buffchunk src) of None \<Rightarrow> Null | Some b \<Rightarrow> Live b);
        Some () })"

definition http_request ::
  "http_env \<Rightarrow> string option \<Rightarrow> string option \<Rightarrow> string option \<Rightarrow> string option \<Rightarrow> mem_text header_table option \<Rightarrow>
   http_connect option \<Rightarrow> http_response option \<Rightarrow> http_connect \<Rightarrow> (err_type \<times> http_connect option \<times> http_response option) option" where
  "http_request env uri meth protocol body headers alive rsp conn0 = (case (uri, meth, protocol) of
      (Some u, Some m, Some v) \<Rightarrow> do {
        req \<leftarrow> http_request_init (env_alloc env);
        (e, c) \<leftarrow> open_connection env u alive conn0;
        if e \<noteq> et_ok then do {
          (_, _) \<leftarrow> http_request_clean req c [];
          _ \<leftarrow> drop_response rsp None;
          Some (e, alive, rsp) }
        else do {
          req1 \<leftarrow> prepare_request env m v body headers c req;
          (e, r) \<leftarrow> exchange env req1 c;
          let rsp' = (case (r, rsp) of (Some src, Some dst) \<Rightarrow> Some (response_copy dst src) | _ \<Rightarrow> rsp);
          let alive' = (if r \<noteq> None \<and> alive \<noteq> None then Some c else alive);
          (_, _) \<leftarrow> http_request_clean req1 c [];
          _ \<leftarrow> drop_response rsp r;
          Some (e, alive', rsp') } }
    | _ \<Rightarrow> Some (et_param, alive, rsp))"

section \<open>Opening a connection\<close>

lemma span_view: "sp \<noteq> None \<Longrightarrow> span_text s sp = Some (view s sp)"
  by (auto simp: span_text_def view_def)

lemma connect_create_parts:
  assumes "uri_parse s = Some (Inr u)" "rhost u = Some (hp, hl)" "h = take hl (drop hp s)" "length h < 16" "0 \<le> env_socket env"
    and "env_gethostbyname env h = Some ip"
  shows "\<exists>c'. http_connect_create env (Some c) s = Some (et_ok, Some c') \<and> hc_uri c' = s \<and> hc_host c' = Some h \<and>
    hc_path c' = (if view s (rpath u) = [] then Some ''/'' else span_text s (rpath u)) \<and>
    tc_status (hc_conn c') = tcp_init \<and> tc_sock (hc_conn c') = env_socket env \<and>
    tc_addr (hc_conn c') = \<lparr>sin_family = PF_INET, sin_port = htons (ucast (if rport u = 0 then 80 else rport u)),
      sin_addr = (if dotted_quad (drop hp s) then env_inet_addr env h else env_inet_addr env (env_inet_ntoa env ip))\<rparr>"
proof (cases "dotted_quad (drop hp s)")
  case True
  then show ?thesis using assms
    by (auto simp: http_connect_create_def Let_def span_text_def awoke_tcp_connect_create_def tcp_connect_status_set_def)
next
  case False
  then show ?thesis using assms
    by (auto simp: http_connect_create_def Let_def span_text_def get_host_address_def awoke_tcp_connect_create_def tcp_connect_status_set_def)
qed

section \<open>Properties\<close>

text \<open>Opening a connection for a well-formed address with a short host name gives an initialised connection:
  its host and path are those of the address, with \<open>/\<close> for an empty path, the port is the one given or 80,
  and the address is the numeric one or the resolved one.\<close>

theorem http_connect_create_correct:
  assumes "uri_wf u" "host u \<noteq> []" "length (host u) < 16" "0 \<le> env_socket env" "env_gethostbyname env (host u) = Some ip"
  shows "\<exists>c' q. http_connect_create env (Some c) (uri_print u) = Some (et_ok, Some c') \<and> hc_host c' = Some (host u) \<and>
    hc_path c' = Some (if path u = [] then ''/'' else path u) \<and> tc_status (hc_conn c') = tcp_init \<and>
    tc_sock (hc_conn c') = env_socket env \<and>
    tc_addr (hc_conn c') = \<lparr>sin_family = PF_INET,
      sin_port = (let p = (case port u of None \<Rightarrow> 0 | Some d \<Rightarrow> of_nat (port_value d)) :: u32 in htons (ucast (if p = 0 then 80 else p))),
      sin_addr = (if dotted_quad (host u @ q) then env_inet_addr env (host u) else env_inet_addr env (env_inet_ntoa env ip))\<rparr>"
proof -
  let ?s = "uri_print u"
  obtain r where r: "uri_parse ?s = Some (Inr r)" "uri_denotes ?s r u"
    using uri_parse_scheme[OF assms(1)] uri_parse_no_scheme[OF assms(1)] by (cases "scheme u") auto
  have vh: "view ?s (rhost r) = host u" and vp: "view ?s (rpath r) = path u"
    and pt: "rport r = (case port u of None \<Rightarrow> 0 | Some d \<Rightarrow> of_nat (port_value d))" using r(2) by (auto simp: uri_denotes_def)
  obtain hp hl where h: "rhost r = Some (hp, hl)" using vh assms(2) by (cases "rhost r") auto
  have t: "host u = take hl (drop hp ?s)" using vh h by (simp add: view_def)
  obtain q where d: "drop hp ?s = host u @ q" using t append_take_drop_id[of hl "drop hp ?s"] by metis
  have pe: "(if path u = [] then Some ''/'' else span_text ?s (rpath r)) = Some (if path u = [] then ''/'' else path u)"
  proof (cases "path u = []")
    case False
    then have "rpath r \<noteq> None" using vp by (cases "rpath r") auto
    then show ?thesis using span_view[of "rpath r" ?s] vp False by simp
  qed simp
  show ?thesis using connect_create_parts[OF r(1) h t assms(3,4,5), of c]
    unfolding d vp pt pe Let_def by blast
qed

text \<open>Whatever the network does, a request with an address, a method and a protocol does not return
  normally: its last step frees an address inside the request.\<close>

theorem http_request_frees_local:
  "http_request env (Some u) (Some m) (Some v) body headers alive rsp conn0 = None"
proof -
  have "http_request_clean req c cl = None" for req c cl by (simp add: http_request_clean_def http_buffchunk_dynamic_def Let_def)
  then show ?thesis unfolding not_Some_eq[symmetric]
    by (auto simp: http_request_def bind_eq_Some_conv Let_def split: if_splits prod.splits)
qed

definition env_example :: http_env where
  "env_example = \<lparr>env_alloc = (\<lambda>n. True), env_junk = (\<lambda>n. NUL), env_gethostbyname = (\<lambda>h. Some 7),
     env_inet_ntoa = (\<lambda>a. ''0.0.0.7''), env_inet_addr = (\<lambda>s. 7), env_socket = 3, env_connect = (\<lambda>s a. 0),
     env_send = (\<lambda>i d. int (length d)), env_peer = (\<lambda>i n. Inr [])\<rparr>"

definition conn_example :: http_connect where
  "conn_example = \<lparr>hc_uri = [], hc_hostname = [], hc_host = None, hc_user = None, hc_path = None, hc_query = None,
     hc_scheme = None, hc_fragment = None, hc_flag = 0, hc_conn = tcp_blank\<rparr>"

theorem http_connect_create_correct_witness:
  "\<exists>c'. http_connect_create env_example (Some conn_example) (uri_print uri_example) = Some (et_ok, Some c') \<and>
     hc_path c' = Some ''/a/b'' \<and> sin_port (tc_addr (hc_conn c')) = 0x901f"
proof -
  have "uri_wf uri_example" by (simp add: uri_wf_def uri_example_def avoids_def is_digit_def)
  moreover have "port_value ''8080'' = 8080" by (simp add: port_value_def)
  ultimately show ?thesis
    using http_connect_create_correct[of uri_example env_example 7 conn_example]
    by (auto simp: uri_example_def env_example_def htons_def)
qed

end
