(* ===== verification/Awoke_Event.thy ===== *)
theory Awoke_Event
  imports Prelude
begin

text \<open>
  The event loop of \<open>lib/libevent/src/awoke_event.c\<close>. Events are objects of the caller: a store maps
  their addresses to their contents, and the loop keeps references in the array \<open>events\<close>, indexed by
  descriptor. A descriptor set is the array of its \<open>FD_SETSIZE\<close> bits; \<open>FD_SET\<close>, \<open>FD_CLR\<close> and
  \<open>FD_ISSET\<close> outside of it are undefined. \<open>select\<close> and \<open>ioctl(FIONREAD)\<close> are parameters. The error set
  \<open>efds\<close> is never filled and left out, and so are the fields of an event that the loop does not touch. Of an
  entry of \<open>fired\<close> the loop sets the descriptor, the mask and the reference.
\<close>

section \<open>Model\<close>

definition FD_SETSIZE :: int where "FD_SETSIZE = 1024"

definition EVENT_READ :: u32 where "EVENT_READ = 0x0001"
definition EVENT_WRITE :: u32 where "EVENT_WRITE = 0x0004"
definition EVENT_EMPTY :: u32 where "EVENT_EMPTY = 0x0000"
definition EVENT_NOTIFICATION :: int where "EVENT_NOTIFICATION = 0"
definition EVENT_NONE :: u8 where "EVENT_NONE = 1"
definition EVENT_REGISTERED :: u8 where "EVENT_REGISTERED = 2"

record awoke_event =
  ev_fd :: int
  ev_type :: int
  ev_mask :: u32
  ev_status :: u8

type_synonym ev_addr = nat
type_synonym ev_store = "ev_addr \<Rightarrow> awoke_event"
type_synonym fd_set = "bool list"

record fired_event =
  fired_fd :: int
  fired_mask :: u32
  fired_data :: ev_addr

record awoke_event_ctx =
  max_fd :: int
  rfds :: fd_set
  wfds :: fd_set
  wk_rfds :: fd_set
  wk_wfds :: fd_set
  queue_size :: int
  events :: "ev_addr option list"
  fired :: "fired_event list"

record awoke_event_loop =
  lp_size :: int
  lp_n_events :: int
  lp_ctx :: awoke_event_ctx

definition AWOKE_EVENT_NEW :: "awoke_event \<Rightarrow> awoke_event" where
  "AWOKE_EVENT_NEW e = e\<lparr>ev_mask := EVENT_EMPTY, ev_status := EVENT_NONE\<rparr>"

text \<open>\<open>for (i = max_fd - 1; i > 0; i--)\<close>: down to an entry whose event has a mask.\<close>

function lookup_max :: "ev_store \<Rightarrow> ev_addr option list \<Rightarrow> int \<Rightarrow> int option" where
  "lookup_max st evs i =
     (if i > 0 then do {
        x \<leftarrow> arr_get evs i;
        (case x of
           None \<Rightarrow> lookup_max st evs (i - 1)
         | Some e \<Rightarrow> if ev_mask (st e) \<noteq> EVENT_EMPTY then Some i else lookup_max st evs (i - 1)) }
      else Some i)"
  by pat_completeness auto
termination by (relation "measure (\<lambda>(st, evs, i). nat i)") auto

declare lookup_max.simps [simp del]

definition awoke_event_del :: "ev_store \<Rightarrow> awoke_event_loop \<Rightarrow> ev_addr \<Rightarrow> (ev_store \<times> awoke_event_loop) option" where
  "awoke_event_del st loop e =
     (let ctx = lp_ctx loop; ev = st e in
      if ev_status ev AND EVENT_REGISTERED = 0 then Some (st, loop)
      else do {
        rf \<leftarrow> (if ev_mask ev AND EVENT_READ \<noteq> 0 then arr_set (rfds ctx) (ev_fd ev) False else Some (rfds ctx));
        wf \<leftarrow> (if ev_mask ev AND EVENT_WRITE \<noteq> 0 then arr_set (wfds ctx) (ev_fd ev) False else Some (wfds ctx));
        m \<leftarrow> (if ev_fd ev = max_fd ctx then lookup_max st (events ctx) (max_fd ctx - 1) else Some (max_fd ctx));
        evs \<leftarrow> arr_set (events ctx) (ev_fd ev) None;
        Some (st(e := AWOKE_EVENT_NEW ev), loop\<lparr>lp_ctx := ctx\<lparr>rfds := rf, wfds := wf, max_fd := m, events := evs\<rparr>\<rparr>) })"

definition awoke_event_add ::
  "ev_store \<Rightarrow> awoke_event_loop option \<Rightarrow> int \<Rightarrow> int \<Rightarrow> u32 \<Rightarrow> ev_addr option \<Rightarrow>
   (err_type \<times> ev_store \<times> awoke_event_loop option) option" where
  "awoke_event_add st lo fd ty m data = (case (lo, data) of
      (Some loop, Some e) \<Rightarrow>
        (if fd > FD_SETSIZE then Some (et_param, st, lo)
         else do {
           let ctx = lp_ctx loop;
           rf \<leftarrow> (if m AND EVENT_READ \<noteq> 0 then arr_set (rfds ctx) fd True else Some (rfds ctx));
           wf \<leftarrow> (if m AND EVENT_WRITE \<noteq> 0 then arr_set (wfds ctx) fd True else Some (wfds ctx));
           let ev = (st e)\<lparr>ev_fd := fd, ev_type := ty, ev_mask := m, ev_status := EVENT_REGISTERED\<rparr>;
           evs \<leftarrow> arr_set (events ctx) fd (Some e);
           Some (et_ok, st(e := ev), Some (loop\<lparr>lp_ctx := ctx\<lparr>rfds := rf, wfds := wf, events := evs,
             max_fd := (if fd > max_fd ctx then fd else max_fd ctx)\<rparr>\<rparr>)) })
    | _ \<Rightarrow> Some (et_param, st, lo))"

text \<open>The timeout that \<open>select\<close> gets: seconds and microseconds.\<close>

definition wait_timeval :: "u32 \<Rightarrow> int \<times> int" where
  "wait_timeval tm = (uint tm div 1000, uint tm mod 1000)"

text \<open>\<open>select\<close> gets the bound, the two sets and the timeout and returns its result and the ready sets.\<close>

type_synonym select_call = "int \<Rightarrow> fd_set \<Rightarrow> fd_set \<Rightarrow> int \<times> int \<Rightarrow> int \<times> fd_set \<times> fd_set"

text \<open>The scan over the descriptors; \<open>f\<close> entries of \<open>fired\<close> are filled in so far.\<close>

function collect_fired ::
  "ev_addr option list \<Rightarrow> fd_set \<Rightarrow> fd_set \<Rightarrow> int \<Rightarrow> int \<Rightarrow> fired_event list \<Rightarrow> int \<Rightarrow> (fired_event list \<times> int) option" where
  "collect_fired evs rs ws mx i fr f =
     (if i \<le> mx then do {
        x \<leftarrow> arr_get evs i;
        (case x of
           None \<Rightarrow> collect_fired evs rs ws mx (i + 1) fr f
         | Some e \<Rightarrow> do {
             r \<leftarrow> arr_get rs i;
             w \<leftarrow> arr_get ws i;
             let m = (if r then EVENT_READ else 0) OR (if w then EVENT_WRITE else 0);
             if m \<noteq> 0 then do {
               fr' \<leftarrow> arr_set fr f \<lparr>fired_fd = i, fired_mask = m, fired_data = e\<rparr>;
               collect_fired evs rs ws mx (i + 1) fr' (f + 1) }
             else collect_fired evs rs ws mx (i + 1) fr f }) }
      else Some (fr, f))"
  by pat_completeness auto
termination by (relation "measure (\<lambda>(evs, rs, ws, mx, i, fr, f). nat (mx + 1 - i))") auto

declare collect_fired.simps [simp del]

definition awoke_event_wait :: "select_call \<Rightarrow> awoke_event_loop \<Rightarrow> u32 \<Rightarrow> (int \<times> awoke_event_loop) option" where
  "awoke_event_wait select loop tm = do {
     let ctx = lp_ctx loop;
     (case select (max_fd ctx + 1) (rfds ctx) (wfds ctx) (wait_timeval tm) of (n, rs, ws) \<Rightarrow> do {
        let ctx1 = ctx\<lparr>wk_rfds := rs, wk_wfds := ws\<rparr>;
        let loop1 = loop\<lparr>lp_ctx := ctx1, lp_n_events := n\<rparr>;
        if n \<le> 0 then Some (n, loop1)
        else do {
          (fr, f) \<leftarrow> collect_fired (events ctx1) rs ws (max_fd ctx1) 0 (fired ctx1) 0;
          Some (f, loop1\<lparr>lp_ctx := ctx1\<lparr>fired := fr\<rparr>, lp_n_events := f\<rparr>) } }) }"

definition awoke_event_ready ::
  "(int \<Rightarrow> bool) \<Rightarrow> ev_store \<Rightarrow> awoke_event_loop \<Rightarrow> ev_addr \<Rightarrow> (bool \<times> ev_store \<times> awoke_event_loop) option" where
  "awoke_event_ready read_ready st loop e =
     (let ev = st e in
      if ev_mask ev AND EVENT_WRITE \<noteq> 0 then Some (True, st, loop)
      else if ev_mask ev AND EVENT_READ \<noteq> 0 then do {
        r \<leftarrow> arr_get (wk_rfds (lp_ctx loop)) (ev_fd ev);
        if r then
          (if read_ready (ev_fd ev) then Some (True, st, loop)
           else do { (st', loop') \<leftarrow> awoke_event_del st loop e; Some (False, st', loop') })
        else Some (False, st, loop) }
      else Some (False, st, loop))"

definition awoke_event_read_ready :: "awoke_event \<Rightarrow> bool" where
  "awoke_event_read_ready e \<longleftrightarrow> ev_mask e AND EVENT_READ \<noteq> 0"

definition awoke_event_write_ready :: "awoke_event \<Rightarrow> bool" where
  "awoke_event_write_ready e \<longleftrightarrow> ev_mask e AND EVENT_WRITE \<noteq> 0"

text \<open>The parameter of \<open>alloc\<close> numbers the allocations of the creation.\<close>

definition awoke_event_loop_ctx_create :: "(nat \<Rightarrow> bool) \<Rightarrow> int \<Rightarrow> awoke_event_ctx option" where
  "awoke_event_loop_ctx_create alloc sz =
     (if \<not> alloc 0 \<or> \<not> alloc 1 \<or> \<not> alloc 2 then None
      else Some \<lparr>max_fd = 0, rfds = replicate (nat FD_SETSIZE) False, wfds = replicate (nat FD_SETSIZE) False,
        wk_rfds = replicate (nat FD_SETSIZE) False, wk_wfds = replicate (nat FD_SETSIZE) False,
        queue_size = FD_SETSIZE, events = replicate (nat FD_SETSIZE) None,
        fired = replicate (nat FD_SETSIZE) \<lparr>fired_fd = 0, fired_mask = 0, fired_data = 0\<rparr>\<rparr>)"

text \<open>\<open>mem_free(&pctx->events)\<close> releases the address of a field: undefined.\<close>

definition awoke_event_loop_ctx_clean :: "awoke_event_ctx option \<Rightarrow> unit option" where
  "awoke_event_loop_ctx_clean ctx = (case ctx of None \<Rightarrow> Some () | Some _ \<Rightarrow> None)"

definition awoke_event_loop_clean :: "awoke_event_loop option \<Rightarrow> unit option" where
  "awoke_event_loop_clean loop = (case loop of None \<Rightarrow> Some () | Some l \<Rightarrow> awoke_event_loop_ctx_clean (Some (lp_ctx l)))"

definition awoke_event_loop_create :: "(nat \<Rightarrow> bool) \<Rightarrow> int \<Rightarrow> awoke_event_loop option option" where
  "awoke_event_loop_create alloc sz = (case awoke_event_loop_ctx_create alloc sz of
      None \<Rightarrow> Some None
    | Some ctx \<Rightarrow>
        (if \<not> alloc 3 \<or> \<not> alloc 4 then do { _ \<leftarrow> awoke_event_loop_ctx_clean (Some ctx); Some None }
         else Some (Some \<lparr>lp_size = sz, lp_n_events = 0, lp_ctx = ctx\<rparr>)))"

text \<open>\<open>pipe\<close> returns two descriptors or fails; the descriptors closed are returned.\<close>

definition awoke_event_channel_create ::
  "(int \<times> int) option \<Rightarrow> ev_store \<Rightarrow> awoke_event_loop option \<Rightarrow> ev_addr \<Rightarrow>
   (err_type \<times> (int \<times> int) option \<times> ev_store \<times> awoke_event_loop option \<times> int list) option" where
  "awoke_event_channel_create pipe st lo e = (case pipe of
      None \<Rightarrow> Some (et_pipe, None, st, lo, [])
    | Some (r, w) \<Rightarrow> do {
        let st1 = st(e := (st e)\<lparr>ev_fd := r, ev_type := EVENT_NOTIFICATION, ev_mask := EVENT_EMPTY\<rparr>);
        (ret, st2, lo2) \<leftarrow> awoke_event_add st1 lo r EVENT_NOTIFICATION EVENT_READ (Some e);
        if ret \<noteq> et_ok then Some (ret, None, st2, lo2, [r, w])
        else Some (et_ok, Some (r, w), st2(e := (st2 e)\<lparr>ev_mask := EVENT_READ\<rparr>), lo2, []) })"

definition awoke_event_pipech_create ::
  "(int \<times> int) option \<Rightarrow> ev_store \<Rightarrow> awoke_event_loop option \<Rightarrow> ev_addr \<Rightarrow>
   (err_type \<times> (int \<times> int) option \<times> ev_store \<times> awoke_event_loop option \<times> int list) option" where
  "awoke_event_pipech_create pipe st lo e = awoke_event_channel_create pipe st lo e"

definition awoke_event_pipech_clean ::
  "ev_store \<Rightarrow> awoke_event_loop \<Rightarrow> ev_addr \<Rightarrow> int \<Rightarrow> int \<Rightarrow> (ev_store \<times> awoke_event_loop \<times> int list) option" where
  "awoke_event_pipech_clean st loop e ch_r ch_w = do {
     (st', loop') \<leftarrow> awoke_event_del st loop e;
     Some (st', loop', [ch_r, ch_w]) }"

text \<open>Releasing an event closes its descriptor unless that is 0; the result is what was closed.\<close>

definition awoke_event_clean :: "awoke_event option \<Rightarrow> int list" where
  "awoke_event_clean event = (case event of None \<Rightarrow> [] | Some ev \<Rightarrow> if ev_fd ev \<noteq> 0 then [ev_fd ev] else [])"

text \<open>The iteration macro: the events its body sees. It fetches the next entry before it tests the bound, so
  it also reads the entry behind the last one.\<close>

function foreach_from :: "fired_event list \<Rightarrow> int \<Rightarrow> int \<Rightarrow> ev_addr \<Rightarrow> ev_addr list option" where
  "foreach_from fr n i event =
     (if i < n then do {
        x \<leftarrow> arr_get fr (i + 1);
        rest \<leftarrow> foreach_from fr n (i + 1) (fired_data x);
        Some (event # rest) }
      else Some [])"
  by pat_completeness auto
termination by (relation "measure (\<lambda>(fr, n, i, event). nat (n - i))") auto

declare foreach_from.simps [simp del]

definition awoke_event_foreach :: "awoke_event_loop \<Rightarrow> ev_addr list option" where
  "awoke_event_foreach evl =
     (if lp_n_events evl > 0 then do {
        x \<leftarrow> arr_get (fired (lp_ctx evl)) 0;
        foreach_from (fired (lp_ctx evl)) (lp_n_events evl) 0 (fired_data x) }
      else Some [])"

section \<open>The registry\<close>

text \<open>The loop and the store agree: a registered event knows its descriptor, and the sets hold exactly the
  descriptors whose event asks for them, none of them above \<open>max_fd\<close>.\<close>

definition slot_ok :: "ev_store \<Rightarrow> awoke_event_ctx \<Rightarrow> nat \<Rightarrow> bool" where
  "slot_ok st ctx fd \<longleftrightarrow> (case events ctx ! fd of
      None \<Rightarrow> \<not> rfds ctx ! fd \<and> \<not> wfds ctx ! fd
    | Some e \<Rightarrow> ev_fd (st e) = int fd \<and> ev_status (st e) = EVENT_REGISTERED \<and>
        (rfds ctx ! fd \<longleftrightarrow> ev_mask (st e) AND EVENT_READ \<noteq> 0) \<and>
        (wfds ctx ! fd \<longleftrightarrow> ev_mask (st e) AND EVENT_WRITE \<noteq> 0) \<and>
        (ev_mask (st e) \<noteq> 0 \<longrightarrow> int fd \<le> max_fd ctx))"

definition ctx_ok :: "ev_store \<Rightarrow> awoke_event_ctx \<Rightarrow> bool" where
  "ctx_ok st ctx \<longleftrightarrow> length (rfds ctx) = 1024 \<and> length (wfds ctx) = 1024 \<and> length (events ctx) = 1024 \<and>
     length (fired ctx) = 1024 \<and> -1 \<le> max_fd ctx \<and> max_fd ctx < 1024 \<and> (\<forall>fd < 1024. slot_ok st ctx fd)"

lemma ctx_create_ok: "awoke_event_loop_ctx_create alloc sz = Some ctx \<Longrightarrow> ctx_ok st ctx"
  by (auto simp: awoke_event_loop_ctx_create_def ctx_ok_def slot_ok_def FD_SETSIZE_def split: if_splits)

text \<open>Different slots hold different events.\<close>

lemma ctx_ok_inj: "ctx_ok st ctx \<Longrightarrow> i < 1024 \<Longrightarrow> j < 1024 \<Longrightarrow> events ctx ! i = Some e \<Longrightarrow> events ctx ! j = Some e \<Longrightarrow> i = j"
proof -
  assume "ctx_ok st ctx" and i: "i < 1024" "j < 1024" "events ctx ! i = Some e" "events ctx ! j = Some e"
  then have "slot_ok st ctx i" "slot_ok st ctx j" by (simp_all add: ctx_ok_def)
  then show ?thesis using i(3,4) by (simp add: slot_ok_def)
qed

lemma ctx_ok_cong:
  assumes "events c' = events c" "rfds c' = rfds c" "wfds c' = wfds c" "max_fd c' = max_fd c" "length (fired c') = length (fired c)"
  shows "ctx_ok st c' = ctx_ok st c"
  unfolding ctx_ok_def slot_ok_def assms ..

lemma lookup_max_ok:
  assumes "length evs = 1024" "i < 1024"
  shows "\<exists>m. lookup_max st evs i = Some m \<and> m \<le> i \<and> (-1 \<le> i \<longrightarrow> -1 \<le> m) \<and>
    (\<forall>j e. m < int j \<and> int j \<le> i \<and> evs ! j = Some e \<longrightarrow> ev_mask (st e) = 0)"
  using assms
proof (induction st evs i rule: lookup_max.induct)
  case (1 st evs i)
  show ?case
  proof (cases "i > 0 \<and> (\<forall>e. evs ! nat i = Some e \<longrightarrow> ev_mask (st e) = 0)")
    case True
    have g: "arr_get evs i = Some (evs ! nat i)" using True 1 by (simp add: arr_get_def)
    have eq: "lookup_max st evs i = lookup_max st evs (i - 1)"
      using True g by (subst lookup_max.simps) (auto simp: EVENT_EMPTY_def split: option.split)
    obtain m where m: "lookup_max st evs (i - 1) = Some m" "m \<le> i - 1" "-1 \<le> m"
      "\<forall>j e. m < int j \<and> int j \<le> i - 1 \<and> evs ! j = Some e \<longrightarrow> ev_mask (st e) = 0"
    proof (cases "evs ! nat i")
      case None
      then show ?thesis using 1(1)[of "evs ! nat i"] True g 1(3,4) that by auto
    next
      case (Some e)
      then show ?thesis using 1(2)[of "evs ! nat i" e] True g 1(3,4) that by (auto simp: EVENT_EMPTY_def)
    qed
    have "ev_mask (st e) = 0" if "m < int j" "int j \<le> i" "evs ! j = Some e" for j e
    proof (cases "int j = i")
      case True
      then show ?thesis using that \<open>i > 0 \<and> _\<close> by auto
    next
      case False
      then have "int j \<le> i - 1" using that(2) by linarith
      then show ?thesis using that m(4) by blast
    qed
    then show ?thesis using eq m by auto
  next
    case False
    have "lookup_max st evs i = Some i"
      using False 1(3,4) by (subst lookup_max.simps) (auto simp: arr_get_def EVENT_EMPTY_def split: option.split)
    then show ?thesis by auto
  qed
qed

lemma add_ok:
  assumes ok: "ctx_ok st (lp_ctx loop)" and fd: "fd < 1024" and free: "events (lp_ctx loop) ! fd = None"
    and new: "\<forall>j < 1024. events (lp_ctx loop) ! j \<noteq> Some e"
  shows "\<exists>st' loop'. awoke_event_add st (Some loop) (int fd) ty m (Some e) = Some (et_ok, st', Some loop') \<and> ctx_ok st' (lp_ctx loop') \<and>
    events (lp_ctx loop') = (events (lp_ctx loop))[fd := Some e] \<and> ev_mask (st' e) = m \<and> (\<forall>x. x \<noteq> e \<longrightarrow> st' x = st x)"
proof -
  let ?c = "lp_ctx loop"
  have l: "length (rfds ?c) = 1024" "length (wfds ?c) = 1024" "length (events ?c) = 1024" using ok by (simp_all add: ctx_ok_def)
  define st' where "st' = st(e := (st e)\<lparr>ev_fd := int fd, ev_type := ty, ev_mask := m, ev_status := EVENT_REGISTERED\<rparr>)"
  define c' where "c' = ?c\<lparr>rfds := (if m AND EVENT_READ \<noteq> 0 then (rfds ?c)[fd := True] else rfds ?c),
     wfds := (if m AND EVENT_WRITE \<noteq> 0 then (wfds ?c)[fd := True] else wfds ?c), events := (events ?c)[fd := Some e],
     max_fd := (if int fd > max_fd ?c then int fd else max_fd ?c)\<rparr>"
  have a: "awoke_event_add st (Some loop) (int fd) ty m (Some e) = Some (et_ok, st', Some (loop\<lparr>lp_ctx := c'\<rparr>))"
    using fd l by (simp add: awoke_event_add_def FD_SETSIZE_def arr_set_def Let_def st'_def c'_def)
  have "slot_ok st' c' j" if j: "j < 1024" for j
  proof (cases "j = fd")
    case True
    have "slot_ok st ?c fd" using ok fd by (simp add: ctx_ok_def)
    then have "\<not> rfds ?c ! fd" "\<not> wfds ?c ! fd" using free by (simp_all add: slot_ok_def)
    then show ?thesis using True fd l by (simp add: slot_ok_def c'_def st'_def)
  next
    case False
    have s: "slot_ok st ?c j" using ok j by (simp add: ctx_ok_def)
    have "events ?c ! j \<noteq> Some e" using new j by simp
    then show ?thesis using s False by (auto simp: slot_ok_def c'_def st'_def split: option.splits)
  qed
  then have "ctx_ok st' c'" using ok fd by (auto simp: ctx_ok_def c'_def)
  then show ?thesis using a by (auto simp: c'_def st'_def)
qed

lemma del_ok:
  assumes ok: "ctx_ok st (lp_ctx loop)" and fd: "fd < 1024" and e: "events (lp_ctx loop) ! fd = Some e"
  shows "\<exists>st' loop'. awoke_event_del st loop e = Some (st', loop') \<and> ctx_ok st' (lp_ctx loop') \<and>
    events (lp_ctx loop') = (events (lp_ctx loop))[fd := None] \<and> (\<forall>x. x \<noteq> e \<longrightarrow> st' x = st x)"
proof -
  let ?c = "lp_ctx loop"
  have l: "length (rfds ?c) = 1024" "length (wfds ?c) = 1024" "length (events ?c) = 1024" "-1 \<le> max_fd ?c" "max_fd ?c < 1024"
    using ok by (simp_all add: ctx_ok_def)
  have s: "ev_fd (st e) = int fd" "ev_status (st e) = EVENT_REGISTERED"
    "rfds ?c ! fd \<longleftrightarrow> ev_mask (st e) AND EVENT_READ \<noteq> 0" "wfds ?c ! fd \<longleftrightarrow> ev_mask (st e) AND EVENT_WRITE \<noteq> 0"
    using ok fd e by (auto simp: ctx_ok_def slot_ok_def split: option.splits)
  obtain m where m: "(if ev_fd (st e) = max_fd ?c then lookup_max st (events ?c) (max_fd ?c - 1) else Some (max_fd ?c)) = Some m"
    "m \<le> max_fd ?c" "-1 \<le> m"
    "\<forall>j x. j \<noteq> fd \<and> m < int j \<and> int j \<le> max_fd ?c \<and> events ?c ! j = Some x \<longrightarrow> ev_mask (st x) = 0"
  proof (cases "int fd = max_fd ?c")
    case True
    obtain k where k: "lookup_max st (events ?c) (max_fd ?c - 1) = Some k" "k \<le> max_fd ?c - 1" "-1 \<le> max_fd ?c - 1 \<longrightarrow> -1 \<le> k"
      "\<forall>j e. k < int j \<and> int j \<le> max_fd ?c - 1 \<and> events ?c ! j = Some e \<longrightarrow> ev_mask (st e) = 0"
      using lookup_max_ok[of "events ?c" "max_fd ?c - 1" st] l by auto
    have "-1 \<le> max_fd ?c - 1" using True by linarith
    moreover have "ev_mask (st x) = 0" if "j \<noteq> fd" "k < int j" "int j \<le> max_fd ?c" "events ?c ! j = Some x" for j x
    proof -
      have "int j \<le> max_fd ?c - 1" using that True by linarith
      then show ?thesis using k(4) that by blast
    qed
    ultimately show ?thesis using that[of k] k True s(1) by auto
  next
    case False
    show ?thesis
    proof (rule that[of "max_fd ?c"])
      show "\<forall>j x. j \<noteq> fd \<and> max_fd ?c < int j \<and> int j \<le> max_fd ?c \<and> events ?c ! j = Some x \<longrightarrow> ev_mask (st x) = 0"
        by (intro allI impI, elim conjE) linarith
    qed (use l(4) s(1) False in auto)
  qed
  define st' where "st' = st(e := AWOKE_EVENT_NEW (st e))"
  define c' where "c' = ?c\<lparr>rfds := (if ev_mask (st e) AND EVENT_READ \<noteq> 0 then (rfds ?c)[fd := False] else rfds ?c),
     wfds := (if ev_mask (st e) AND EVENT_WRITE \<noteq> 0 then (wfds ?c)[fd := False] else wfds ?c), max_fd := m,
     events := (events ?c)[fd := None]\<rparr>"
  have reg: "ev_status (st e) AND EVENT_REGISTERED \<noteq> 0" by (simp add: s(2) EVENT_REGISTERED_def)
  have d: "awoke_event_del st loop e = Some (st', loop\<lparr>lp_ctx := c'\<rparr>)"
    using reg l fd m(1) unfolding awoke_event_del_def Let_def s(1)
    by (simp add: arr_set_def st'_def c'_def)
  have "slot_ok st' c' j" if j: "j < 1024" for j
  proof (cases "j = fd")
    case True
    then show ?thesis using fd l s(3,4) by (simp add: slot_ok_def c'_def)
  next
    case False
    have sj: "slot_ok st ?c j" using ok j by (simp add: ctx_ok_def)
    show ?thesis
    proof (cases "events ?c ! j")
      case None
      then show ?thesis using sj False by (simp add: slot_ok_def c'_def)
    next
      case (Some x)
      then have x: "x \<noteq> e" using ctx_ok_inj[OF ok fd j e] False by blast
      have "int j \<le> m" if "ev_mask (st x) \<noteq> 0"
      proof (rule ccontr)
        assume "\<not> int j \<le> m"
        moreover have "int j \<le> max_fd ?c" using sj Some that by (simp add: slot_ok_def)
        ultimately show False using m(4) False Some that by force
      qed
      then show ?thesis using sj False Some x by (simp add: slot_ok_def c'_def st'_def)
    qed
  qed
  then have "ctx_ok st' c'" using ok m(2,3) by (auto simp: ctx_ok_def c'_def)
  then show ?thesis using d by (auto simp: c'_def st'_def)
qed


section \<open>Waiting\<close>

definition fd_ready :: "fd_set \<Rightarrow> fd_set \<Rightarrow> nat \<Rightarrow> bool" where
  "fd_ready rs ws fd \<longleftrightarrow> rs ! fd \<or> ws ! fd"

definition fired_of :: "ev_addr option list \<Rightarrow> fd_set \<Rightarrow> fd_set \<Rightarrow> nat \<Rightarrow> fired_event" where
  "fired_of evs rs ws fd = \<lparr>fired_fd = int fd,
     fired_mask = (if rs ! fd then EVENT_READ else 0) OR (if ws ! fd then EVENT_WRITE else 0), fired_data = the (evs ! fd)\<rparr>"

definition ready_list :: "ev_addr option list \<Rightarrow> fd_set \<Rightarrow> fd_set \<Rightarrow> nat list \<Rightarrow> nat list" where
  "ready_list evs rs ws fds = filter (\<lambda>fd. evs ! fd \<noteq> None \<and> fd_ready rs ws fd) fds"

lemma mask_nonzero: "(if r then EVENT_READ else 0) OR (if w then EVENT_WRITE else 0) \<noteq> 0 \<longleftrightarrow> r \<or> w"
  by (auto simp: EVENT_READ_def EVENT_WRITE_def)

lemma collect_fired_ok:
  assumes "length evs = 1024" "length rs = 1024" "length ws = 1024" "length fr = 1024" "mx < 1024" "int i \<le> mx + 1"
    and "f + nat (mx + 1 - int i) \<le> 1024" "take f fr = xs" "f \<le> 1024"
  shows "\<exists>fr'. collect_fired evs rs ws mx (int i) fr (int f) =
      Some (fr', int (f + length (ready_list evs rs ws [i..<nat (mx + 1)]))) \<and> length fr' = 1024 \<and>
    take (f + length (ready_list evs rs ws [i..<nat (mx + 1)])) fr' = xs @ map (fired_of evs rs ws) (ready_list evs rs ws [i..<nat (mx + 1)])"
  using assms
proof (induction "nat (mx + 1 - int i)" arbitrary: i f fr xs)
  case 0
  then have "\<not> int i \<le> mx" "nat (mx + 1) \<le> i" by linarith+
  then show ?case using 0 by (subst collect_fired.simps) (simp add: ready_list_def)
next
  case (Suc n)
  have le: "int i \<le> mx" "i < 1024" "i < nat (mx + 1)" using Suc.hyps(2) Suc.prems(5) by linarith+
  have up: "[i..<nat (mx + 1)] = i # [Suc i..<nat (mx + 1)]" using le(3) by (simp add: upt_conv_Cons)
  have n: "n = nat (mx + 1 - int (Suc i))" using Suc.hyps(2) by linarith
  let ?m = "(if rs ! i then EVENT_READ else 0) OR (if ws ! i then EVENT_WRITE else 0)"
  have g: "arr_get evs (int i) = Some (evs ! i)" "arr_get rs (int i) = Some (rs ! i)" "arr_get ws (int i) = Some (ws ! i)"
    using Suc.prems le by (simp_all add: arr_get_def)
  show ?case
  proof (cases "evs ! i \<noteq> None \<and> fd_ready rs ws i")
    case True
    then obtain e where e: "evs ! i = Some e" by blast
    have m: "?m \<noteq> 0" using True by (simp only: mask_nonzero fd_ready_def)
    have f: "f < 1024" using Suc.prems(7) Suc.hyps(2) by linarith
    let ?x = "fired_of evs rs ws i" and ?fr = "fr[f := fired_of evs rs ws i]"
    have st: "arr_set fr (int f) ?x = Some ?fr" using f Suc.prems(4) by (simp add: arr_set_def)
    have eq: "collect_fired evs rs ws mx (int i) fr (int f) = collect_fired evs rs ws mx (int (Suc i)) ?fr (int (Suc f))"
      using le(1) g e m st by (subst collect_fired.simps) (simp add: fired_of_def Let_def add.commute)
    have tk: "take (Suc f) ?fr = xs @ [?x]" using f Suc.prems(4,8) by (simp add: take_Suc_conv_app_nth)
    have "f + nat (mx + 1 - int i) \<le> 1024" by (rule Suc.prems(7))
    then have b: "Suc f + nat (mx + 1 - int (Suc i)) \<le> 1024" using Suc.hyps(2) n by linarith
    obtain fr' where fr': "collect_fired evs rs ws mx (int (Suc i)) ?fr (int (Suc f)) =
        Some (fr', int (Suc f + length (ready_list evs rs ws [Suc i..<nat (mx + 1)])))" "length fr' = 1024"
      "take (Suc f + length (ready_list evs rs ws [Suc i..<nat (mx + 1)])) fr' =
        (xs @ [?x]) @ map (fired_of evs rs ws) (ready_list evs rs ws [Suc i..<nat (mx + 1)])"
      using Suc.hyps(1)[OF n Suc.prems(1-3) _ Suc.prems(5) _ b tk] Suc.prems(4) le f by auto
    then show ?thesis using eq True up by (simp add: ready_list_def)
  next
    case False
    have eq: "collect_fired evs rs ws mx (int i) fr (int f) = collect_fired evs rs ws mx (int (Suc i)) fr (int f)"
    proof (cases "evs ! i")
      case None
      then show ?thesis using le(1) g by (subst collect_fired.simps) (simp add: add.commute)
    next
      case (Some e)
      then have "\<not> ?m \<noteq> 0" using False by (simp only: mask_nonzero fd_ready_def) simp
      then show ?thesis using le(1) g Some by (subst collect_fired.simps) (simp add: add.commute Let_def)
    qed
    have b: "f + nat (mx + 1 - int (Suc i)) \<le> 1024" using Suc.prems(7) Suc.hyps(2) n by linarith
    have rl: "ready_list evs rs ws [i..<nat (mx + 1)] = ready_list evs rs ws [Suc i..<nat (mx + 1)]"
      using False up by (simp add: ready_list_def)
    show ?thesis unfolding eq rl
      using Suc.hyps(1)[OF n Suc.prems(1-5) _ b Suc.prems(8,9)] le by simp
  qed
qed

text \<open>The contract of \<open>select\<close>: what it reports is among what it was asked for, below its bound.\<close>

definition select_ok :: "select_call \<Rightarrow> bool" where
  "select_ok select \<longleftrightarrow> (\<forall>n rs ws tv r rs' ws'. select n rs ws tv = (r, rs', ws') \<longrightarrow>
     length rs' = length rs \<and> length ws' = length ws \<and>
     (\<forall>fd < length rs. rs' ! fd \<longrightarrow> rs ! fd) \<and> (\<forall>fd < length ws. ws' ! fd \<longrightarrow> ws ! fd))"

lemma wait_ok:
  assumes "ctx_ok st (lp_ctx loop)" "select_ok select"
    and "select (max_fd (lp_ctx loop) + 1) (rfds (lp_ctx loop)) (wfds (lp_ctx loop)) (wait_timeval tm) = (n, rs, ws)" "0 < n"
  shows "\<exists>loop'. awoke_event_wait select loop tm = Some (int (length (filter (fd_ready rs ws) [0..<1024])), loop') \<and>
    lp_n_events loop' = int (length (filter (fd_ready rs ws) [0..<1024])) \<and>
    take (length (filter (fd_ready rs ws) [0..<1024])) (fired (lp_ctx loop')) =
      map (fired_of (events (lp_ctx loop)) rs ws) (filter (fd_ready rs ws) [0..<1024]) \<and>
    (\<forall>fd \<in> set (filter (fd_ready rs ws) [0..<1024]). events (lp_ctx loop) ! fd \<noteq> None) \<and> ctx_ok st (lp_ctx loop')"
proof -
  let ?c = "lp_ctx loop"
  have l: "length (rfds ?c) = 1024" "length (wfds ?c) = 1024" "length (events ?c) = 1024" "length (fired ?c) = 1024"
    "-1 \<le> max_fd ?c" "max_fd ?c < 1024" "\<forall>fd < 1024. slot_ok st ?c fd" using assms(1) by (simp_all add: ctx_ok_def)
  have "length rs = length (rfds ?c) \<and> length ws = length (wfds ?c) \<and>
     (\<forall>fd < length (rfds ?c). rs ! fd \<longrightarrow> rfds ?c ! fd) \<and> (\<forall>fd < length (wfds ?c). ws ! fd \<longrightarrow> wfds ?c ! fd)"
    using assms(2,3) unfolding select_ok_def by blast
  then have s: "length rs = 1024" "length ws = 1024" "\<forall>fd < 1024. rs ! fd \<longrightarrow> rfds ?c ! fd" "\<forall>fd < 1024. ws ! fd \<longrightarrow> wfds ?c ! fd"
    unfolding l(1,2) by blast+
  have reg: "events ?c ! fd \<noteq> None \<and> int fd \<le> max_fd ?c" if "fd < 1024" "fd_ready rs ws fd" for fd
  proof -
    have "slot_ok st ?c fd" "rfds ?c ! fd \<or> wfds ?c ! fd" using that l(7) s(3,4) by (auto simp: fd_ready_def)
    then show ?thesis by (auto simp: slot_ok_def split: option.splits)
  qed
  have rl: "ready_list (events ?c) rs ws [0..<nat (max_fd ?c + 1)] = filter (fd_ready rs ws) [0..<1024]"
  proof -
    have "[0..<1024] = [0..<nat (max_fd ?c + 1)] @ [nat (max_fd ?c + 1)..<1024]"
      using upt_add_eq_append[of 0 "nat (max_fd ?c + 1)" "1024 - nat (max_fd ?c + 1)"] l(6) by simp
    moreover have "filter (fd_ready rs ws) [nat (max_fd ?c + 1)..<1024] = []"
      using reg l(5) by (force simp: filter_empty_conv)
    moreover have "ready_list (events ?c) rs ws [0..<nat (max_fd ?c + 1)] = filter (fd_ready rs ws) [0..<nat (max_fd ?c + 1)]"
      unfolding ready_list_def using reg l(6) by (intro filter_cong) auto
    ultimately show ?thesis by simp
  qed
  obtain fr' where fr: "collect_fired (events ?c) rs ws (max_fd ?c) (int 0) (fired ?c) (int 0) =
      Some (fr', int (0 + length (filter (fd_ready rs ws) [0..<1024])))" "length fr' = 1024"
    "take (0 + length (filter (fd_ready rs ws) [0..<1024])) fr' = [] @ map (fired_of (events ?c) rs ws) (filter (fd_ready rs ws) [0..<1024])"
  proof -
    have "nat (max_fd ?c + 1) \<le> 1024" using l(6) by linarith
    then show ?thesis using that collect_fired_ok[of "events ?c" rs ws "fired ?c" "max_fd ?c" 0 0 "[]"] l(3-6) s(1,2) rl by auto
  qed
  define c1 where "c1 = ?c\<lparr>wk_rfds := rs, wk_wfds := ws\<rparr>"
  let ?loop' = "loop\<lparr>lp_ctx := c1\<lparr>fired := fr'\<rparr>, lp_n_events := int (length (filter (fd_ready rs ws) [0..<1024]))\<rparr>"
  have w: "awoke_event_wait select loop tm = Some (int (length (filter (fd_ready rs ws) [0..<1024])), ?loop')"
    using fr(1) assms(3,4) by (simp add: awoke_event_wait_def Let_def c1_def)
  have "ctx_ok st (c1\<lparr>fired := fr'\<rparr>)" using assms(1) fr(2) l(4) ctx_ok_cong[of "c1\<lparr>fired := fr'\<rparr>" ?c st] by (simp add: c1_def)
  then show ?thesis using w fr(3) reg by (intro exI[of _ ?loop']) auto
qed


lemma wait_keeps:
  assumes "ctx_ok st (lp_ctx loop)" "select_ok select" "awoke_event_wait select loop tm = Some (n, loop')"
  shows "ctx_ok st (lp_ctx loop') \<and> events (lp_ctx loop') = events (lp_ctx loop)"
proof -
  obtain r rs ws where s: "select (max_fd (lp_ctx loop) + 1) (rfds (lp_ctx loop)) (wfds (lp_ctx loop)) (wait_timeval tm) = (r, rs, ws)"
    by (metis surj_pair)
  show ?thesis
  proof (cases "0 < r")
    case True
    obtain l' where "awoke_event_wait select loop tm = Some (int (length (filter (fd_ready rs ws) [0..<1024])), l')" "ctx_ok st (lp_ctx l')"
      using wait_ok[where select = select, OF assms(1,2) s True] by blast
    then have "ctx_ok st (lp_ctx loop')" using assms(3) by simp
    moreover have "events (lp_ctx loop') = events (lp_ctx loop)"
      using assms(3) s True by (auto simp: awoke_event_wait_def Let_def bind_eq_Some_conv)
    ultimately show ?thesis by blast
  next
    case False
    then have "loop' = loop\<lparr>lp_ctx := (lp_ctx loop)\<lparr>wk_rfds := rs, wk_wfds := ws\<rparr>, lp_n_events := r\<rparr>"
      using assms(3) s by (auto simp: awoke_event_wait_def Let_def)
    then show ?thesis using assms(1) ctx_ok_cong[of "lp_ctx loop'" "lp_ctx loop" st] by simp
  qed
qed

text \<open>A client of one loop: it creates the loop, registers an event that is not registered yet on a free
  descriptor, removes a registered event, waits. The map is what it has registered.\<close>

inductive ev_run :: "ev_store \<Rightarrow> awoke_event_loop \<Rightarrow> (nat \<rightharpoonup> ev_addr) \<Rightarrow> bool" where
  ev_create: "awoke_event_loop_create alloc sz = Some (Some loop) \<Longrightarrow> ev_run st loop Map.empty"
| ev_add: "ev_run st loop r \<Longrightarrow> fd < 1024 \<Longrightarrow> r fd = None \<Longrightarrow> e \<notin> ran r \<Longrightarrow>
    awoke_event_add st (Some loop) (int fd) ty m (Some e) = Some (ret, st', Some loop') \<Longrightarrow> ev_run st' loop' (r(fd \<mapsto> e))"
| ev_del: "ev_run st loop r \<Longrightarrow> r fd = Some e \<Longrightarrow> awoke_event_del st loop e = Some (st', loop') \<Longrightarrow> ev_run st' loop' (r(fd := None))"
| ev_wait: "ev_run st loop r \<Longrightarrow> select_ok select \<Longrightarrow> awoke_event_wait select loop tm = Some (n, loop') \<Longrightarrow> ev_run st loop' r"

definition tracks :: "ev_store \<Rightarrow> awoke_event_loop \<Rightarrow> (nat \<rightharpoonup> ev_addr) \<Rightarrow> bool" where
  "tracks st loop r \<longleftrightarrow> ctx_ok st (lp_ctx loop) \<and> (\<forall>fd < 1024. events (lp_ctx loop) ! fd = r fd) \<and> (\<forall>fd. r fd \<noteq> None \<longrightarrow> fd < 1024)"

lemma tracks_add:
  assumes t: "tracks st loop r" and fd: "fd < 1024" "r fd = None" "e \<notin> ran r"
  shows "\<exists>st' loop'. awoke_event_add st (Some loop) (int fd) ty m (Some e) = Some (et_ok, st', Some loop') \<and> tracks st' loop' (r(fd \<mapsto> e))"
proof -
  have ok: "ctx_ok st (lp_ctx loop)" and ev: "\<forall>fd < 1024. events (lp_ctx loop) ! fd = r fd" using t by (simp_all add: tracks_def)
  have l: "length (events (lp_ctx loop)) = 1024" using ok by (simp add: ctx_ok_def)
  have free: "events (lp_ctx loop) ! fd = None" "\<forall>j < 1024. events (lp_ctx loop) ! j \<noteq> Some e"
    using ev fd by (auto simp: ran_def)
  obtain st' loop' where "awoke_event_add st (Some loop) (int fd) ty m (Some e) = Some (et_ok, st', Some loop')" "ctx_ok st' (lp_ctx loop')"
    "events (lp_ctx loop') = (events (lp_ctx loop))[fd := Some e]" using add_ok[OF ok fd(1) free] by blast
  moreover have "\<forall>j < 1024. (events (lp_ctx loop))[fd := Some e] ! j = (r(fd \<mapsto> e)) j" using ev l by (simp add: nth_list_update)
  ultimately show ?thesis using t fd(1) by (auto simp: tracks_def)
qed

lemma tracks_del:
  assumes t: "tracks st loop r" and e: "r fd = Some e"
  shows "\<exists>st' loop'. awoke_event_del st loop e = Some (st', loop') \<and> tracks st' loop' (r(fd := None))"
proof -
  have ok: "ctx_ok st (lp_ctx loop)" and ev: "\<forall>fd < 1024. events (lp_ctx loop) ! fd = r fd" and fd: "fd < 1024"
    using t e by (auto simp: tracks_def)
  have l: "length (events (lp_ctx loop)) = 1024" using ok by (simp add: ctx_ok_def)
  have s: "events (lp_ctx loop) ! fd = Some e" using ev fd e by simp
  obtain st' loop' where "awoke_event_del st loop e = Some (st', loop')" "ctx_ok st' (lp_ctx loop')"
    "events (lp_ctx loop') = (events (lp_ctx loop))[fd := None]" using del_ok[OF ok fd s] by blast
  moreover have "\<forall>j < 1024. (events (lp_ctx loop))[fd := None] ! j = (r(fd := None)) j" using ev l by (simp add: nth_list_update)
  ultimately show ?thesis using t by (auto simp: tracks_def)
qed

lemma ev_run_tracks: "ev_run st loop r \<Longrightarrow> tracks st loop r"
proof (induction rule: ev_run.induct)
  case (ev_create alloc sz loop st)
  then have "awoke_event_loop_ctx_create alloc sz = Some (lp_ctx loop)"
    by (auto simp: awoke_event_loop_create_def awoke_event_loop_ctx_clean_def split: option.splits if_splits)
  then have "ctx_ok st (lp_ctx loop)" "map_option events (awoke_event_loop_ctx_create alloc sz) = Some (events (lp_ctx loop))"
    using ctx_create_ok by simp_all
  moreover from this(2) have "events (lp_ctx loop) = replicate 1024 None"
    by (simp add: awoke_event_loop_ctx_create_def FD_SETSIZE_def split: if_splits)
  ultimately show ?case by (simp add: tracks_def)
next
  case (ev_add st loop r fd e ty m ret st' loop')
  obtain st2 loop2 where "awoke_event_add st (Some loop) (int fd) ty m (Some e) = Some (et_ok, st2, Some loop2)"
    "tracks st2 loop2 (r(fd \<mapsto> e))" using tracks_add[OF ev_add.IH ev_add.hyps(2,3,4), of ty m] by blast
  then have "tracks st' loop' (r(fd \<mapsto> e))" using ev_add.hyps(5) by simp
  then show ?case .
next
  case (ev_del st loop r fd e st' loop')
  obtain st2 loop2 where "awoke_event_del st loop e = Some (st2, loop2)" "tracks st2 loop2 (r(fd := None))"
    using tracks_del[OF ev_del.IH ev_del.hyps(2)] by blast
  then have "tracks st' loop' (r(fd := None))" using ev_del.hyps(3) by simp
  then show ?case .
next
  case (ev_wait st loop r select tm n loop')
  then show ?case using wait_keeps[of st loop select tm n loop'] by (auto simp: tracks_def)
qed

lemma foreach_from_ok:
  assumes "int (length fr) > n" "0 \<le> i" "i \<le> n"
  shows "foreach_from fr n i (fired_data (fr ! nat i)) = Some (map fired_data (drop (nat i) (take (nat n) fr)))"
  using assms
proof (induction fr n i "fired_data (fr ! nat i)" rule: foreach_from.induct)
  case (1 fr n i)
  show ?case
  proof (cases "i < n")
    case True
    have g: "arr_get fr (i + 1) = Some (fr ! nat (i + 1))" using 1 True by (simp add: arr_get_def)
    have "drop (nat i) (take (nat n) fr) = fr ! nat i # drop (nat (i + 1)) (take (nat n) fr)"
      using 1(2,3) True Cons_nth_drop_Suc[of "nat i" "take (nat n) fr"] by (simp add: nat_add_distrib)
    moreover have "foreach_from fr n (i + 1) (fired_data (fr ! nat (i + 1))) =
        Some (map fired_data (drop (nat (i + 1)) (take (nat n) fr)))"
      using 1(1)[OF True, of "fr ! nat (i + 1)"] 1(2,3) True g by simp
    ultimately show ?thesis using True g by (subst foreach_from.simps) simp
  next
    case False
    then show ?thesis using 1(2-4) by (subst foreach_from.simps) simp
  qed
qed

lemma foreach_ok:
  assumes "0 < lp_n_events loop" "lp_n_events loop < int (length (fired (lp_ctx loop)))"
  shows "awoke_event_foreach loop = Some (map fired_data (take (nat (lp_n_events loop)) (fired (lp_ctx loop))))"
  using foreach_from_ok[of "lp_n_events loop" "fired (lp_ctx loop)" 0] assms
  by (force simp: awoke_event_foreach_def arr_get_def)

section \<open>Properties\<close>

text \<open>C21: in every run of a client the loop holds exactly the events the client has registered: every slot
  refers to the event of its descriptor, that event knows its descriptor and is marked registered, the
  descriptor sets ask for what its mask asks for, and nothing lies above \<open>max_fd\<close>. Registering on a free
  descriptor and removing a registered event succeed in every such state.\<close>

theorem awoke_event_registry:
  assumes "ev_run st loop r"
  shows "ctx_ok st (lp_ctx loop) \<and> (\<forall>fd < 1024. events (lp_ctx loop) ! fd = r fd) \<and>
    (\<forall>fd e ty m. fd < 1024 \<and> r fd = None \<and> e \<notin> ran r \<longrightarrow>
       (\<exists>st' loop'. awoke_event_add st (Some loop) (int fd) ty m (Some e) = Some (et_ok, st', Some loop') \<and>
          ctx_ok st' (lp_ctx loop') \<and> events (lp_ctx loop') ! fd = Some e)) \<and>
    (\<forall>fd e. r fd = Some e \<longrightarrow>
       (\<exists>st' loop'. awoke_event_del st loop e = Some (st', loop') \<and> ctx_ok st' (lp_ctx loop') \<and> events (lp_ctx loop') ! fd = None))"
proof (intro conjI)
  have t: "tracks st loop r" by (rule ev_run_tracks[OF assms])
  then show "ctx_ok st (lp_ctx loop)" "\<forall>fd < 1024. events (lp_ctx loop) ! fd = r fd" by (simp_all add: tracks_def)
  show "\<forall>fd e ty m. fd < 1024 \<and> r fd = None \<and> e \<notin> ran r \<longrightarrow>
       (\<exists>st' loop'. awoke_event_add st (Some loop) (int fd) ty m (Some e) = Some (et_ok, st', Some loop') \<and>
          ctx_ok st' (lp_ctx loop') \<and> events (lp_ctx loop') ! fd = Some e)"
    using tracks_add[OF t] unfolding tracks_def by (metis fun_upd_same)
  show "\<forall>fd e. r fd = Some e \<longrightarrow>
       (\<exists>st' loop'. awoke_event_del st loop e = Some (st', loop') \<and> ctx_ok st' (lp_ctx loop') \<and> events (lp_ctx loop') ! fd = None)"
  proof (intro allI impI)
    fix fd e assume e: "r fd = Some e"
    then have "fd < 1024" using t by (auto simp: tracks_def)
    then show "\<exists>st' loop'. awoke_event_del st loop e = Some (st', loop') \<and> ctx_ok st' (lp_ctx loop') \<and> events (lp_ctx loop') ! fd = None"
      using tracks_del[OF t e] unfolding tracks_def by auto
  qed
qed

definition idle_event :: awoke_event where
  "idle_event = \<lparr>ev_fd = 0, ev_type = 0, ev_mask = 0, ev_status = EVENT_NONE\<rparr>"

theorem awoke_event_registry_witness:
  "\<exists>st loop. ev_run st loop [5 \<mapsto> 9] \<and> events (lp_ctx loop) ! 5 = Some 9 \<and> ev_mask (st 9) = EVENT_READ"
proof -
  obtain l0 where l0: "awoke_event_loop_create (\<lambda>n. True) 10 = Some (Some l0)"
    by (auto simp: awoke_event_loop_create_def awoke_event_loop_ctx_create_def)
  have r0: "ev_run (\<lambda>x. idle_event) l0 Map.empty" by (rule ev_create[OF l0])
  obtain st l1 where a: "awoke_event_add (\<lambda>x. idle_event) (Some l0) (int 5) 3 EVENT_READ (Some 9) = Some (et_ok, st, Some l1)"
    using awoke_event_registry[OF r0, THEN conjunct2, THEN conjunct2, THEN conjunct1, rule_format, of 5 9 3 EVENT_READ] by auto
  have r1: "ev_run st l1 [5 \<mapsto> 9]" by (rule ev_add[OF r0 _ _ _ a]) simp_all
  have "ev_mask (st 9) = EVENT_READ" using a by (auto simp: awoke_event_add_def Let_def bind_eq_Some_conv split: if_splits)
  moreover have "events (lp_ctx l1) ! 5 = Some 9"
    using awoke_event_registry[OF r1, THEN conjunct2, THEN conjunct1, rule_format, of 5] by simp
  ultimately show ?thesis using r1 by blast
qed

text \<open>Waiting reports exactly the ready descriptors: the fired entries are those of the descriptors that
  \<open>select\<close> found ready, each once and in ascending order, with the event registered for the descriptor and
  the readiness as mask; their number is returned, and the array of fired events is never exceeded. Unless
  every descriptor fires, the iteration over the loop then visits exactly the events of these descriptors.\<close>

theorem awoke_event_wait_correct:
  assumes "ctx_ok st (lp_ctx loop)" "select_ok select"
    and "select (max_fd (lp_ctx loop) + 1) (rfds (lp_ctx loop)) (wfds (lp_ctx loop)) (wait_timeval tm) = (n, rs, ws)" "0 < n"
  shows "\<exists>loop'. awoke_event_wait select loop tm = Some (int (length (filter (fd_ready rs ws) [0..<1024])), loop') \<and>
    lp_n_events loop' = int (length (filter (fd_ready rs ws) [0..<1024])) \<and>
    take (length (filter (fd_ready rs ws) [0..<1024])) (fired (lp_ctx loop')) =
      map (fired_of (events (lp_ctx loop)) rs ws) (filter (fd_ready rs ws) [0..<1024]) \<and>
    (\<forall>fd \<in> set (filter (fd_ready rs ws) [0..<1024]). events (lp_ctx loop) ! fd \<noteq> None) \<and> ctx_ok st (lp_ctx loop') \<and>
    (filter (fd_ready rs ws) [0..<1024] \<noteq> [] \<and> length (filter (fd_ready rs ws) [0..<1024]) < 1024 \<longrightarrow>
       awoke_event_foreach loop' = Some (map (\<lambda>fd. the (events (lp_ctx loop) ! fd)) (filter (fd_ready rs ws) [0..<1024])))"
proof -
  let ?fds = "filter (fd_ready rs ws) [0..<1024]"
  obtain loop' where w: "awoke_event_wait select loop tm = Some (int (length ?fds), loop')" "lp_n_events loop' = int (length ?fds)"
    "take (length ?fds) (fired (lp_ctx loop')) = map (fired_of (events (lp_ctx loop)) rs ws) ?fds"
    "\<forall>fd \<in> set ?fds. events (lp_ctx loop) ! fd \<noteq> None" "ctx_ok st (lp_ctx loop')"
    using wait_ok[where select = select, OF assms] by blast
  have "awoke_event_foreach loop' = Some (map (\<lambda>fd. the (events (lp_ctx loop) ! fd)) ?fds)" if ne: "?fds \<noteq> [] \<and> length ?fds < 1024"
  proof -
    have "0 < lp_n_events loop'" using ne unfolding w(2) by (cases ?fds) simp_all
    moreover have "length (fired (lp_ctx loop')) = 1024" using w(5) by (simp add: ctx_ok_def)
    ultimately have "awoke_event_foreach loop' = Some (map fired_data (take (length ?fds) (fired (lp_ctx loop'))))"
      using foreach_ok[of loop'] ne unfolding w(2) by simp
    then show ?thesis unfolding w(3) by (simp add: fired_of_def comp_def)
  qed
  then show ?thesis using w by blast
qed

definition select_all :: select_call where
  "select_all n rs ws tv = (1, rs, ws)"

lemma select_all_ok: "select_ok select_all"
  by (simp add: select_ok_def select_all_def)

theorem awoke_event_wait_correct_witness:
  "\<exists>st loop loop' n. ev_run st loop [5 \<mapsto> 9] \<and> 0 < n \<and> awoke_event_wait select_all loop 1500 = Some (n, loop') \<and> ctx_ok st (lp_ctx loop')"
proof -
  obtain l0 where l0: "awoke_event_loop_create (\<lambda>n. True) 10 = Some (Some l0)"
    by (auto simp: awoke_event_loop_create_def awoke_event_loop_ctx_create_def)
  have r0: "ev_run (\<lambda>x. idle_event) l0 Map.empty" by (rule ev_create[OF l0])
  obtain st l1 where a: "awoke_event_add (\<lambda>x. idle_event) (Some l0) (int 5) 3 EVENT_READ (Some 9) = Some (et_ok, st, Some l1)"
    using tracks_add[OF ev_run_tracks[OF r0], of 5 9 3 EVENT_READ] by auto
  have r1: "ev_run st l1 [5 \<mapsto> 9]" by (rule ev_add[OF r0 _ _ _ a]) simp_all
  have ok: "ctx_ok st (lp_ctx l1)" "\<forall>fd < 1024. events (lp_ctx l1) ! fd = [5 \<mapsto> 9] fd"
    using ev_run_tracks[OF r1] by (simp_all add: tracks_def)
  have "ev_mask (st 9) = EVENT_READ" using a by (auto simp: awoke_event_add_def Let_def bind_eq_Some_conv split: if_splits)
  moreover have "slot_ok st (lp_ctx l1) 5" using ok(1) by (simp add: ctx_ok_def)
  ultimately have "rfds (lp_ctx l1) ! 5" using ok(2) by (simp add: slot_ok_def EVENT_READ_def)
  then have "5 \<in> set (filter (fd_ready (rfds (lp_ctx l1)) (wfds (lp_ctx l1))) [0..<1024])" by (simp add: fd_ready_def)
  then have pos: "0 < length (filter (fd_ready (rfds (lp_ctx l1)) (wfds (lp_ctx l1))) [0..<1024])" by (rule length_pos_if_in_set)
  obtain l2 where l2: "awoke_event_wait select_all l1 1500 =
      Some (int (length (filter (fd_ready (rfds (lp_ctx l1)) (wfds (lp_ctx l1))) [0..<1024])), l2)" "ctx_ok st (lp_ctx l2)"
    using awoke_event_wait_correct[where select = select_all and tm = 1500 and n = 1, OF ok(1) select_all_ok] by (auto simp: select_all_def)
  show ?thesis
    by (rule exI[of _ st], rule exI[of _ l1], rule exI[of _ l2],
        rule exI[of _ "int (length (filter (fd_ready (rfds (lp_ctx l1)) (wfds (lp_ctx l1))) [0..<1024]))"])
      (use r1 pos l2 in simp)
qed

text \<open>Two slips of the code, kept as they are: the bound test lets the first descriptor outside of the sets
  through, and the milliseconds of the timeout below a second are passed on as microseconds.\<close>

lemma awoke_event_add_accepts_setsize:
  "ctx_ok st (lp_ctx loop) \<Longrightarrow> awoke_event_add st (Some loop) FD_SETSIZE ty m (Some e) = None"
  by (simp add: awoke_event_add_def FD_SETSIZE_def ctx_ok_def arr_set_def)

lemma wait_timeval_below_millisecond: "snd (wait_timeval tm) < 1000"
  by (simp add: wait_timeval_def)

end
