(* ===== verification/Awoke_Worker.thy ===== *)
theory Awoke_Worker
  imports Awoke_Event
begin

text \<open>
  Workers and timer workers, \<open>lib/libutil/src/awoke_worker.c\<close>. The life of a worker is a state machine:
  its thread runs the loop of \<open>worker_run\<close> step by step (\<open>worker_step\<close>), and other threads call
  \<open>awoke_worker_start\<close>, \<open>stop\<close>, \<open>suspend\<close> and \<open>resume\<close> between its steps (\<open>sys_step\<close>). The mutex is held by
  the worker exactly at \<open>W_check\<close>, and a critical section of another thread is one step that needs the
  mutex. Waiting on the condition may wake up without a signal. The test of \<open>_running\<close> before the
  critical section of \<open>suspend\<close> and \<open>resume\<close> is not protected, so its outcome is arbitrary. Handlers are
  taken to return; what they do to the rest of the program is left out, and \<open>runs\<close> counts their calls. A
  worker created with \<open>WORKER_FEAT_CUSTOM_DEFINE\<close> does not run this loop: its thread starts in the handler of
  the caller, which is not part of the library.
\<close>

section \<open>Model\<close>

definition WORKER_FEAT_PERIODICITY :: u16 where "WORKER_FEAT_PERIODICITY = 0x0001"
definition WORKER_FEAT_SUSPEND :: u16 where "WORKER_FEAT_SUSPEND = 0x0002"
definition WORKER_FEAT_PIPE_CHANNEL :: u16 where "WORKER_FEAT_PIPE_CHANNEL = 0x0004"
definition WORKER_FEAT_REFERENCE :: u16 where "WORKER_FEAT_REFERENCE = 0x0080"
definition WORKER_FEAT_CUSTOM_DEFINE :: u16 where "WORKER_FEAT_CUSTOM_DEFINE = 0x0100"

text \<open>Functions and data that a worker is given are pointers: the handler of a timer worker is
  \<open>timer_scheduler\<close>, every other handler is the address of a function of the caller.\<close>

datatype wk_handler = H_timer_scheduler | H_user nat

record awoke_worker =
  handler :: wk_handler
  data :: nat
  tick :: u32
  features :: u16
  running :: bool
  force_stop :: bool
  reference :: u32
  evl :: "awoke_event_loop option"
  pipe_channel :: "int \<times> int"

definition worker_reference :: "awoke_worker \<Rightarrow> awoke_worker" where
  "worker_reference wk =
     (if mask_exst (features wk) WORKER_FEAT_REFERENCE then
        (let r = reference wk + 1 in wk\<lparr>reference := (if r \<ge> 0xfffffffe then 0 else r)\<rparr>)
      else wk)"

definition worker_should_stop :: "awoke_worker \<Rightarrow> bool" where
  "worker_should_stop wk = force_stop wk"

definition awoke_worker_should_stop :: "awoke_worker \<Rightarrow> bool" where
  "awoke_worker_should_stop wk = worker_should_stop wk"

subsection \<open>The thread\<close>

datatype wk_pc = W_first | W_top | W_check | W_wait | W_wake | W_run | W_test | W_done

record wk_sys =
  wk :: awoke_worker
  pc :: wk_pc
  runs :: nat

text \<open>\<open>worker_run\<close>, with \<open>worker_should_suspend\<close> unfolded into its steps; \<open>None\<close> is a thread that has to wait or has ended.\<close>

definition worker_step :: "wk_sys \<Rightarrow> wk_sys option" where
  "worker_step s = (case pc s of
      W_first \<Rightarrow> Some (if \<not> mask_exst (features (wk s)) WORKER_FEAT_PERIODICITY
                       then s\<lparr>pc := W_top, runs := Suc (runs s)\<rparr> else s\<lparr>pc := W_top\<rparr>)
    | W_top \<Rightarrow> Some (s\<lparr>pc := (if mask_exst (features (wk s)) WORKER_FEAT_SUSPEND then W_check else W_run)\<rparr>)
    | W_check \<Rightarrow> Some (s\<lparr>pc := (if running (wk s) then W_run else W_wait)\<rparr>)
    | W_wait \<Rightarrow> None
    | W_wake \<Rightarrow> Some (s\<lparr>pc := W_check\<rparr>)
    | W_run \<Rightarrow> Some (s\<lparr>pc := W_test, runs := Suc (runs s), wk := worker_reference (wk s)\<rparr>)
    | W_test \<Rightarrow> Some (s\<lparr>pc := (if worker_should_stop (wk s) then W_done else W_top)\<rparr>)
    | W_done \<Rightarrow> None)"

text \<open>\<open>pthread_cond_signal\<close> wakes the worker if it waits.\<close>

definition worker_condition_notify :: "wk_sys \<Rightarrow> wk_sys" where
  "worker_condition_notify s = s\<lparr>pc := (if pc s = W_wait then W_wake else pc s)\<rparr>"

definition set_running :: "bool \<Rightarrow> wk_sys \<Rightarrow> wk_sys" where
  "set_running b s = worker_condition_notify (s\<lparr>wk := (wk s)\<lparr>running := b\<rparr>\<rparr>)"

definition awoke_worker_start :: "wk_sys \<Rightarrow> wk_sys" where
  "awoke_worker_start s = set_running True s"

definition awoke_worker_stop :: "wk_sys \<Rightarrow> wk_sys" where
  "awoke_worker_stop s = s\<lparr>wk := (wk s)\<lparr>force_stop := True\<rparr>\<rparr>"

definition awoke_worker_suspend :: "bool \<Rightarrow> wk_sys \<Rightarrow> wk_sys" where
  "awoke_worker_suspend seen_running s = (if seen_running then set_running False s else s)"

definition awoke_worker_resume :: "bool \<Rightarrow> wk_sys \<Rightarrow> wk_sys" where
  "awoke_worker_resume seen_running s = (if \<not> seen_running then set_running True s else s)"

inductive sys_step :: "wk_sys \<Rightarrow> wk_sys \<Rightarrow> bool" where
  by_worker: "worker_step s = Some s' \<Longrightarrow> sys_step s s'"
| by_start: "pc s \<noteq> W_check \<Longrightarrow> sys_step s (awoke_worker_start s)"
| by_stop: "pc s \<noteq> W_check \<Longrightarrow> sys_step s (awoke_worker_stop s)"
| by_suspend: "pc s \<noteq> W_check \<Longrightarrow> sys_step s (awoke_worker_suspend b s)"
| by_resume: "pc s \<noteq> W_check \<Longrightarrow> sys_step s (awoke_worker_resume b s)"
| spurious: "pc s = W_wait \<Longrightarrow> sys_step s (s\<lparr>pc := W_wake\<rparr>)"

subsection \<open>Creation and release\<close>

text \<open>Releasing a worker with a pipe channel removes the channel from the loop and releases the loop.\<close>

definition worker_clean :: "ev_store \<Rightarrow> ev_addr \<Rightarrow> awoke_worker option \<Rightarrow> int list option" where
  "worker_clean st e w = (case w of
      None \<Rightarrow> Some []
    | Some p \<Rightarrow>
        (if mask_exst (features p) WORKER_FEAT_PIPE_CHANNEL then do {
           loop \<leftarrow> evl p;
           (st', loop', closed) \<leftarrow> awoke_event_pipech_clean st loop e (fst (pipe_channel p)) (snd (pipe_channel p));
           _ \<leftarrow> awoke_event_loop_clean (Some loop');
           Some closed }
         else Some []))"

text \<open>Destroying a worker waits for its thread; \<open>None\<close> also when that has not ended.\<close>

definition awoke_worker_destroy :: "ev_store \<Rightarrow> ev_addr \<Rightarrow> wk_sys \<Rightarrow> int list option" where
  "awoke_worker_destroy st e s = (if pc s = W_done then worker_clean st e (Some (wk s)) else None)"

text \<open>The outcomes of the system calls: the allocations of the worker, its context and its name, of the
  event loop, the pipe, and the results of the thread library. \<open>e\<close> is the address of the event of the
  channel.\<close>

record worker_env =
  alloc_wk :: "nat \<Rightarrow> bool"
  alloc_evl :: "nat \<Rightarrow> bool"
  pipe_fds :: "(int \<times> int) option"
  mutex_rc :: int
  cond_rc :: int
  thread_rc :: int

definition worker_mutex_init :: "worker_env \<Rightarrow> err_type" where
  "worker_mutex_init env = (if mutex_rc env < 0 then et_worker_mutex else et_ok)"

definition worker_condition_init :: "worker_env \<Rightarrow> err_type" where
  "worker_condition_init env = (if cond_rc env < 0 then et_worker_condition else et_ok)"

text \<open>The function a thread is started in.\<close>

datatype wk_entry = E_worker_run | E_handler wk_handler

definition worker_entry :: "awoke_worker \<Rightarrow> wk_entry" where
  "worker_entry w = (if mask_exst (features w) WORKER_FEAT_CUSTOM_DEFINE then E_handler (handler w) else E_worker_run)"

definition create_failed :: "ev_store \<Rightarrow> ev_addr \<Rightarrow> awoke_worker \<Rightarrow> (awoke_worker \<times> wk_entry) option option" where
  "create_failed st e w = do { _ \<leftarrow> worker_clean st e (Some w); Some None }"

definition awoke_worker_create ::
  "worker_env \<Rightarrow> ev_store \<Rightarrow> ev_addr \<Rightarrow> u32 \<Rightarrow> u16 \<Rightarrow> wk_handler \<Rightarrow> nat \<Rightarrow> (awoke_worker \<times> wk_entry) option option" where
  "awoke_worker_create env st e tk feats hdl dat =
     (let blank = \<lparr>handler = H_user 0, data = 0, tick = 0, features = 0, running = False, force_stop = False, reference = 0, evl = None, pipe_channel = (0, 0)\<rparr>;
          w = blank\<lparr>tick := tk, features := feats, handler := hdl, data := dat\<rparr>;
          st0 = st(e := \<lparr>ev_fd = 0, ev_type = 0, ev_mask = 0, ev_status = 0\<rparr>) in
      if \<not> alloc_wk env 0 then Some None
      else if \<not> alloc_wk env 1 \<or> \<not> alloc_wk env 2 then create_failed st0 e blank
      else do {
        r \<leftarrow> (if mask_exst feats WORKER_FEAT_PIPE_CHANNEL then do {
                l \<leftarrow> awoke_event_loop_create (alloc_evl env) 8;
                (case l of
                   None \<Rightarrow> Some (st0, w, et_fail)
                 | Some loop \<Rightarrow> do {
                     (ret, ch, st', lo, closed) \<leftarrow> awoke_event_pipech_create (pipe_fds env) st0 (Some loop) e;
                     Some (st', w\<lparr>evl := lo, pipe_channel := (case ch of Some p \<Rightarrow> p | None \<Rightarrow> (0, 0))\<rparr>, ret) }) }
              else Some (st0, w, et_ok));
        (case r of (st1, w1, ret) \<Rightarrow>
           if ret \<noteq> et_ok \<or> worker_mutex_init env \<noteq> et_ok \<or> worker_condition_init env \<noteq> et_ok \<or> thread_rc env < 0
           then create_failed st1 e w1
           else Some (Some (w1, worker_entry w1))) })"

section \<open>Timers\<close>

text \<open>The callbacks of a task act on the state of the program, of any type. They are given the task and the
  timer worker too; the model covers callbacks that leave these alone.\<close>

record 'w awoke_tmtsk =
  tid :: u32
  tsk_tick :: u32
  clock :: u32
  periodic :: bool
  can_sched :: "('w \<Rightarrow> bool) option"
  handle :: "'w \<Rightarrow> err_type \<times> 'w"
  err_proc :: "('w \<Rightarrow> 'w) option"

record 'w awoke_tmwkr =
  task_nr :: int
  task_queue :: "'w awoke_tmtsk list"
  sched_end :: "('w \<Rightarrow> 'w) option"

definition awoke_tmwkr_task_register ::
  "bool \<Rightarrow> u32 \<Rightarrow> bool \<Rightarrow> ('w \<Rightarrow> bool) option \<Rightarrow> ('w \<Rightarrow> err_type \<times> 'w) \<Rightarrow> 'w awoke_tmwkr \<Rightarrow> err_type \<times> 'w awoke_tmwkr" where
  "awoke_tmwkr_task_register alloc clk per can hdl twk =
     (if \<not> alloc then (et_nomem, twk)
      else (et_ok, twk\<lparr>task_nr := task_nr twk + 1, task_queue := task_queue twk @
        [\<lparr>tid = word_of_int (task_nr twk), tsk_tick = clk, clock = clk, periodic = per, can_sched = can, handle = hdl, err_proc = None\<rparr>]\<rparr>))"

text \<open>One task in a pass of the scheduler. A task that is not periodic is released and then written to:
  undefined.\<close>

definition run_handle :: "'w awoke_tmtsk \<Rightarrow> 'w \<Rightarrow> 'w" where
  "run_handle task w = (case handle task w of (ret, w') \<Rightarrow>
     (case err_proc task of Some f \<Rightarrow> (if ret \<noteq> et_ok then f w' else w') | None \<Rightarrow> w'))"

definition sched_task :: "'w awoke_tmtsk \<Rightarrow> 'w \<Rightarrow> ('w awoke_tmtsk \<times> 'w) option" where
  "sched_task task w =
     (let task1 = task\<lparr>tsk_tick := tsk_tick task - 1\<rparr>;
          can = (if tsk_tick task1 = 0 then (case can_sched task1 of Some f \<Rightarrow> f w | None \<Rightarrow> True) else False) in
      if can then
        (let w' = run_handle task1 w in
         if \<not> periodic task1 then None
         else Some (task1\<lparr>tsk_tick := clock task1\<rparr>, w'))
      else Some (task1, w))"

fun sched_tasks :: "'w awoke_tmtsk list \<Rightarrow> 'w \<Rightarrow> ('w awoke_tmtsk list \<times> 'w) option" where
  "sched_tasks [] w = Some ([], w)"
| "sched_tasks (t # ts) w = do {
     (t', w1) \<leftarrow> sched_task t w;
     (ts', w2) \<leftarrow> sched_tasks ts w1;
     Some (t' # ts', w2) }"

text \<open>The scheduler is declared with the worker as its argument and finds the timer worker behind the \<open>data\<close>
  of that. A handler is called with the worker before the loop of \<open>worker_run\<close>, when the worker is not periodic,
  and with the context in the loop, a block that holds nothing but the pointer to the worker: reading
  \<open>data\<close> there is outside of the block.\<close>

datatype handler_arg = Arg_worker awoke_worker | Arg_context

definition timer_pass :: "'w awoke_tmwkr \<Rightarrow> 'w \<Rightarrow> (err_type \<times> 'w awoke_tmwkr \<times> 'w) option" where
  "timer_pass twk w =
     (if task_queue twk = [] then Some (et_ok, twk, w)
      else do {
        (ts, w1) \<leftarrow> sched_tasks (task_queue twk) w;
        let w2 = (case sched_end twk of Some f \<Rightarrow> f w1 | None \<Rightarrow> w1);
        Some (et_ok, twk\<lparr>task_queue := ts\<rparr>, w2) })"

definition timer_scheduler ::
  "(nat \<rightharpoonup> 'w awoke_tmwkr) \<Rightarrow> handler_arg \<Rightarrow> 'w \<Rightarrow> (err_type \<times> (nat \<rightharpoonup> 'w awoke_tmwkr) \<times> 'w) option" where
  "timer_scheduler mem arg w = (case arg of
      Arg_context \<Rightarrow> None
    | Arg_worker p \<Rightarrow> do {
        twk \<leftarrow> mem (data p);
        (ret, twk', w') \<leftarrow> timer_pass twk w;
        Some (ret, mem(data p \<mapsto> twk'), w') })"

definition run_once :: "(nat \<Rightarrow> handler_arg \<Rightarrow> 'w \<Rightarrow> (err_type \<times> 'w) option) \<Rightarrow> (nat \<rightharpoonup> 'w awoke_tmwkr) \<Rightarrow> awoke_worker \<Rightarrow> 'w \<Rightarrow>
    (err_type \<times> (nat \<rightharpoonup> 'w awoke_tmwkr) \<times> 'w) option" where
  "run_once user mem p w = (case handler p of
      H_timer_scheduler \<Rightarrow> timer_scheduler mem Arg_context w
    | H_user f \<Rightarrow> map_option (\<lambda>(ret, w'). (ret, mem, w')) (user f Arg_context w))"

definition tmwkr_features :: "u16 \<Rightarrow> u16" where
  "tmwkr_features feats =
     (let f1 = (if \<not> mask_exst feats WORKER_FEAT_PERIODICITY then mask_push feats WORKER_FEAT_PERIODICITY else feats) in
      if \<not> mask_exst f1 WORKER_FEAT_SUSPEND then mask_push f1 WORKER_FEAT_SUSPEND else f1)"

definition awoke_tmwkr_create ::
  "nat option \<Rightarrow> worker_env \<Rightarrow> ev_store \<Rightarrow> ev_addr \<Rightarrow> u32 \<Rightarrow> u16 \<Rightarrow> wk_handler \<Rightarrow> ('w \<Rightarrow> 'w) option \<Rightarrow>
   ('w awoke_tmwkr \<times> awoke_worker \<times> wk_entry) option option" where
  "awoke_tmwkr_create alloc env st e clk feats hdl send = (case alloc of
      None \<Rightarrow> Some None
    | Some a \<Rightarrow> do {
        let f = tmwkr_features feats;
        w \<leftarrow> awoke_worker_create env st e clk f
               (if mask_exst f WORKER_FEAT_CUSTOM_DEFINE then hdl else H_timer_scheduler) a;
        (case w of
           None \<Rightarrow> Some None
         | Some sched \<Rightarrow> Some (Some (\<lparr>task_nr = 0, task_queue = [], sched_end = send\<rparr>, sched))) })"

definition awoke_tmwkr_clean :: "ev_store \<Rightarrow> ev_addr \<Rightarrow> wk_sys option \<Rightarrow> int list option" where
  "awoke_tmwkr_clean st e sched = (case sched of None \<Rightarrow> Some [] | Some s \<Rightarrow> awoke_worker_destroy st e s)"

definition awoke_tmwkr_start :: "wk_sys \<Rightarrow> wk_sys" where
  "awoke_tmwkr_start s = awoke_worker_start s"

definition awoke_tmwkr_stop :: "wk_sys \<Rightarrow> wk_sys" where
  "awoke_tmwkr_stop s = awoke_worker_stop s"

section \<open>Progress of the thread\<close>

definition wk_initial :: "awoke_worker \<Rightarrow> wk_sys" where
  "wk_initial w = \<lparr>wk = w, pc = W_first, runs = 0\<rparr>"

text \<open>The runs of a created worker whose thread is started in \<open>worker_run\<close>.\<close>

inductive wk_reachable :: "wk_sys \<Rightarrow> bool" where
  init: "awoke_worker_create env st e tk feats hdl dat = Some (Some (w, E_worker_run)) \<Longrightarrow> wk_reachable (wk_initial w)"
| step: "wk_reachable s \<Longrightarrow> sys_step s s' \<Longrightarrow> wk_reachable s'"

inductive_cases sys_stepE: "sys_step s s'"

lemmas control_defs = awoke_worker_start_def awoke_worker_stop_def awoke_worker_suspend_def awoke_worker_resume_def
  set_running_def worker_condition_notify_def

text \<open>A running worker never waits: no wake-up is lost.\<close>

definition awake :: "wk_sys \<Rightarrow> bool" where
  "awake s \<longleftrightarrow> (running (wk s) \<longrightarrow> pc s \<noteq> W_wait)"

lemma worker_step_awake: "awake s \<Longrightarrow> worker_step s = Some s' \<Longrightarrow> awake s'"
  by (cases "pc s") (auto simp: worker_step_def awake_def split: if_splits)

lemma sys_step_awake:
  assumes "sys_step s s'" "awake s"
  shows "awake s'"
  using assms
proof (cases rule: sys_step.cases)
  case by_worker
  then show ?thesis using worker_step_awake assms(2) by blast
qed (auto simp: control_defs awake_def)

lemma reachable_awake: "wk_reachable s \<Longrightarrow> awake s"
proof (induction rule: wk_reachable.induct)
  case (init env st e tk feats hdl dat w)
  then show ?case by (simp add: awake_def wk_initial_def)
next
  case (step s s')
  then show ?case using sys_step_awake by blast
qed

primrec worker_steps :: "nat \<Rightarrow> wk_sys \<Rightarrow> wk_sys option" where
  "worker_steps 0 s = Some s"
| "worker_steps (Suc n) s = do { s' \<leftarrow> worker_step s; worker_steps n s' }"

lemma worker_reference_keeps [simp]:
  "running (worker_reference w) = running w" "force_stop (worker_reference w) = force_stop w"
  "features (worker_reference w) = features w"
  by (simp_all add: worker_reference_def Let_def)

text \<open>The steps of its own that a running worker needs to get to the handler.\<close>

fun to_run :: "wk_pc \<Rightarrow> nat" where
  "to_run W_first = 3" | "to_run W_top = 2" | "to_run W_check = 1" | "to_run W_wait = 0"
| "to_run W_wake = 2" | "to_run W_run = 0" | "to_run W_test = 3" | "to_run W_done = 0"

lemma step_closer:
  assumes "running (wk s)" "pc s \<notin> {W_wait, W_done, W_run}" "pc s = W_test \<longrightarrow> \<not> force_stop (wk s)"
  obtains s' where "worker_step s = Some s'" "wk s' = wk s" "to_run (pc s') < to_run (pc s)" "pc s' \<notin> {W_wait, W_done, W_test}" "runs s \<le> runs s'"
  using assms by (cases "pc s") (auto simp: worker_step_def worker_should_stop_def)

lemma to_handler:
  assumes "running (wk s)" "pc s \<notin> {W_wait, W_done}" "pc s = W_test \<longrightarrow> \<not> force_stop (wk s)"
  shows "\<exists>n s'. n \<le> Suc (to_run (pc s)) \<and> worker_steps n s = Some s' \<and> runs s < runs s' \<and> pc s' = W_test \<and> force_stop (wk s') = force_stop (wk s)"
  using assms
proof (induction "to_run (pc s)" arbitrary: s rule: less_induct)
  case less
  show ?case
  proof (cases "pc s = W_run")
    case True
    then show ?thesis by (intro exI[of _ 1]) (simp add: worker_step_def)
  next
    case False
    then obtain s1 where s1: "worker_step s = Some s1" "wk s1 = wk s" "to_run (pc s1) < to_run (pc s)" "pc s1 \<notin> {W_wait, W_done, W_test}" "runs s \<le> runs s1"
      using step_closer[of s] less.prems by auto
    obtain n s' where n: "n \<le> Suc (to_run (pc s1))" "worker_steps n s1 = Some s'" "runs s1 < runs s'" "pc s' = W_test" "force_stop (wk s') = force_stop (wk s1)"
      using less.hyps[OF s1(3)] s1(2,4) less.prems(1) by auto
    then show ?thesis using s1 by (intro exI[of _ "Suc n"] exI[of _ s']) auto
  qed
qed

lemma worker_steps_snoc: "worker_steps n s = Some s1 \<Longrightarrow> worker_step s1 = Some s2 \<Longrightarrow> worker_steps (Suc n) s = Some s2"
proof (induction n arbitrary: s)
  case (Suc n)
  from Suc.prems(1) obtain s0 where "worker_step s = Some s0" "worker_steps n s0 = Some s1" by (auto simp: bind_eq_Some_conv)
  then show ?case using Suc.IH[of s0] Suc.prems(2) by simp
qed simp

lemma to_run_bound: "to_run p \<le> 3"
  by (cases p) simp_all

section \<open>Properties\<close>

text \<open>C35: for a created worker without \<open>WORKER_FEAT_CUSTOM_DEFINE\<close>, whose thread runs \<open>worker_run\<close>, no wake-up is
  lost in any interleaving of the thread with calls of start, stop, suspend and resume: a worker that is set
  running and has not ended is not asleep, and within four steps of its own, while the others pause, it
  has called its handler again; if it was also told to stop it has ended within five. Handlers are taken to return.\<close>

theorem worker_progress:
  assumes "wk_reachable s" "running (wk s)" "pc s \<noteq> W_done"
  shows "pc s \<noteq> W_wait \<and>
    (\<not> force_stop (wk s) \<longrightarrow> (\<exists>n s'. n \<le> 4 \<and> worker_steps n s = Some s' \<and> runs s < runs s')) \<and>
    (force_stop (wk s) \<longrightarrow> (\<exists>n s'. n \<le> 5 \<and> worker_steps n s = Some s' \<and> pc s' = W_done))"
proof (intro conjI impI)
  show w: "pc s \<noteq> W_wait" using reachable_awake[OF assms(1)] assms(2) by (simp add: awake_def)
  show "\<exists>n s'. n \<le> 4 \<and> worker_steps n s = Some s' \<and> runs s < runs s'" if nf: "\<not> force_stop (wk s)"
  proof -
    obtain n s' where "n \<le> Suc (to_run (pc s))" "worker_steps n s = Some s'" "runs s < runs s'"
      using to_handler[of s] assms(2,3) w nf by auto
    then show ?thesis using to_run_bound[of "pc s"] by (intro exI[of _ n] exI[of _ s']) simp
  qed
  show "\<exists>n s'. n \<le> 5 \<and> worker_steps n s = Some s' \<and> pc s' = W_done" if f: "force_stop (wk s)"
  proof (cases "pc s = W_test")
    case True
    then show ?thesis using f by (intro exI[of _ 1]) (simp add: worker_step_def worker_should_stop_def)
  next
    case False
    then obtain n s1 where n: "n \<le> Suc (to_run (pc s))" "worker_steps n s = Some s1" "pc s1 = W_test" "force_stop (wk s1)"
      using to_handler[of s] assms(2,3) w f by auto
    have "worker_step s1 = Some (s1\<lparr>pc := W_done\<rparr>)" using n(3,4) by (simp add: worker_step_def worker_should_stop_def)
    from worker_steps_snoc[OF n(2) this] show ?thesis
      using n(1) to_run_bound[of "pc s"] by (intro exI[of _ "Suc n"] exI[of _ "s1\<lparr>pc := W_done\<rparr>"]) simp
  qed
qed

definition sample_worker :: awoke_worker where
  "sample_worker = \<lparr>handler = H_user 5, data = 9, tick = 1, features = WORKER_FEAT_PERIODICITY OR WORKER_FEAT_SUSPEND, running = False, force_stop = False,
     reference = 0, evl = None, pipe_channel = (0, 0)\<rparr>"

definition sample_env :: worker_env where
  "sample_env = \<lparr>alloc_wk = (\<lambda>n. True), alloc_evl = (\<lambda>n. True), pipe_fds = None, mutex_rc = 0, cond_rc = 0, thread_rc = 0\<rparr>"

lemma sample_worker_created:
  "awoke_worker_create sample_env st e 1 (WORKER_FEAT_PERIODICITY OR WORKER_FEAT_SUSPEND) (H_user 5) 9 =
   Some (Some (sample_worker, E_worker_run))"
  by (simp add: awoke_worker_create_def sample_env_def sample_worker_def worker_entry_def worker_mutex_init_def
      worker_condition_init_def mask_exst_def WORKER_FEAT_PERIODICITY_def WORKER_FEAT_SUSPEND_def
      WORKER_FEAT_PIPE_CHANNEL_def WORKER_FEAT_CUSTOM_DEFINE_def)

theorem worker_progress_witness:
  "\<exists>s n s'. wk_reachable s \<and> running (wk s) \<and> n \<le> 4 \<and> worker_steps n s = Some s' \<and> runs s < runs s'"
proof -
  define s where "s = awoke_worker_start (wk_initial sample_worker)"
  have "sys_step (wk_initial sample_worker) s" unfolding s_def by (rule by_start) (simp add: wk_initial_def)
  then have r: "wk_reachable s" by (rule wk_reachable.step[OF wk_reachable.init[OF sample_worker_created]])
  have "running (wk s)" "pc s \<noteq> W_done" "\<not> force_stop (wk s)" by (simp_all add: s_def control_defs wk_initial_def sample_worker_def)
  then show ?thesis using worker_progress[OF r] r by blast
qed

text \<open>Which function a created worker runs: with \<open>WORKER_FEAT_CUSTOM_DEFINE\<close> its handler, else the loop.\<close>

lemma awoke_worker_create_entry:
  assumes "awoke_worker_create env st e tk feats hdl dat = Some (Some (w, entry))"
  shows "entry = (if mask_exst feats WORKER_FEAT_CUSTOM_DEFINE then E_handler hdl else E_worker_run) \<and>
    handler w = hdl \<and> data w = dat \<and> features w = feats \<and> tick w = tk \<and> \<not> running w \<and> \<not> force_stop w"
  using assms
  by (auto simp: awoke_worker_create_def create_failed_def worker_entry_def Let_def bind_eq_Some_conv
      split: if_splits option.splits)

text \<open>The steps in which nobody sets the worker running again.\<close>

inductive idle_step :: "wk_sys \<Rightarrow> wk_sys \<Rightarrow> bool" where
  "worker_step s = Some s' \<Longrightarrow> idle_step s s'"
| "pc s \<noteq> W_check \<Longrightarrow> idle_step s (awoke_worker_stop s)"
| "pc s \<noteq> W_check \<Longrightarrow> idle_step s (awoke_worker_suspend b s)"
| "pc s = W_wait \<Longrightarrow> idle_step s (s\<lparr>pc := W_wake\<rparr>)"

definition suspended :: "wk_sys \<Rightarrow> bool" where
  "suspended s \<longleftrightarrow> \<not> running (wk s) \<and> pc s \<in> {W_check, W_wait, W_wake}"

lemma idle_step_suspended: "idle_step s s' \<Longrightarrow> suspended s \<Longrightarrow> suspended s' \<and> runs s' = runs s"
  by (erule idle_step.cases) (auto simp: suspended_def control_defs worker_step_def)

text \<open>Stopping does not end a suspended worker: as long as nobody starts or resumes it, it stays suspended
  whatever else happens, does not call its handler, and destroying it never returns.\<close>

theorem worker_stop_suspended:
  assumes "idle_step\<^sup>*\<^sup>* (awoke_worker_stop s) s'" "suspended s"
  shows "suspended s' \<and> runs s' = runs s \<and> awoke_worker_destroy st e s' = None"
proof -
  have "suspended s' \<and> runs s' = runs s"
    using assms(1)
  proof (induction rule: rtranclp_induct)
    case base
    then show ?case using assms(2) by (simp add: suspended_def awoke_worker_stop_def)
  next
    case (step y z)
    then show ?case using idle_step_suspended by fastforce
  qed
  then show ?thesis by (auto simp: awoke_worker_destroy_def suspended_def)
qed

theorem worker_stop_suspended_witness:
  "awoke_worker_destroy (\<lambda>x. idle_event) 0 (awoke_worker_stop ((wk_initial sample_worker)\<lparr>pc := W_wait\<rparr>)) = None"
proof -
  have "suspended ((wk_initial sample_worker)\<lparr>pc := W_wait\<rparr>)" by (simp add: suspended_def wk_initial_def sample_worker_def)
  then show ?thesis using worker_stop_suspended[OF rtranclp.rtrancl_refl] by blast
qed

section \<open>Timers\<close>

text \<open>A task as it stands after \<open>k\<close> passes of the scheduler since its registration.\<close>

definition at_pass :: "nat \<Rightarrow> 'w awoke_tmtsk \<Rightarrow> 'w awoke_tmtsk" where
  "at_pass k t = t\<lparr>tsk_tick := clock t - of_nat (k mod unat (clock t))\<rparr>"

definition plain_task :: "'w awoke_tmtsk \<Rightarrow> bool" where
  "plain_task t \<longleftrightarrow> periodic t \<and> can_sched t = None \<and> clock t \<noteq> 0"

lemma run_handle_tick [simp]: "run_handle (t\<lparr>tsk_tick := x\<rparr>) w = run_handle t w"
  by (simp add: run_handle_def)

lemma sched_task_pass:
  assumes "plain_task t"
  shows "sched_task (at_pass k t) w =
    Some (at_pass (Suc k) t, if unat (clock t) dvd Suc k then run_handle t w else w)"
proof -
  let ?c = "unat (clock t)"
  have c: "0 < ?c" using assms by (simp add: plain_task_def unat_gt_0)
  have lt: "k mod ?c < ?c" using c by simp
  have "?c < 2 ^ 32" using unat_u32_less[of "clock t"] by simp
  then have u: "unat (of_nat (k mod ?c) :: u32) = k mod ?c" using lt by (subst unat_of_nat) simp
  have t1: "unat (clock t - of_nat (k mod ?c)) = ?c - k mod ?c" using u lt by (subst unat_sub) (simp_all add: word_le_nat_alt)
  define x where "x = clock t - of_nat (k mod ?c) - 1"
  have "(1::u32) \<le> clock t - of_nat (k mod ?c)" using t1 lt by (simp add: word_le_nat_alt)
  then have ux: "unat x = ?c - k mod ?c - 1" unfolding x_def using t1 by (subst unat_sub) simp_all
  have zero: "x = 0 \<longleftrightarrow> ?c dvd Suc k"
  proof -
    have "x = 0 \<longleftrightarrow> unat x = 0" by (simp add: unat_eq_0)
    also have "\<dots> \<longleftrightarrow> Suc (k mod ?c) = ?c" using ux lt by linarith
    also have "\<dots> \<longleftrightarrow> Suc k mod ?c = 0" using mod_Suc[of k ?c] by simp
    finally show ?thesis by (simp add: dvd_eq_mod_eq_0)
  qed
  have nxt: "(if ?c dvd Suc k then clock t else x) = clock t - of_nat (Suc k mod ?c)"
  proof (cases "?c dvd Suc k")
    case False
    then have "Suc k mod ?c = Suc (k mod ?c)" using mod_Suc[of k ?c] by (auto simp: dvd_eq_mod_eq_0 split: if_splits)
    then show ?thesis using False by (simp add: x_def)
  qed (simp add: dvd_eq_mod_eq_0)
  have "sched_task (at_pass k t) w = (if x = 0 then Some (t\<lparr>tsk_tick := clock t\<rparr>, run_handle t w) else Some (t\<lparr>tsk_tick := x\<rparr>, w))"
    using assms by (simp add: sched_task_def at_pass_def plain_task_def Let_def x_def)
  then show ?thesis using zero nxt by (auto simp: at_pass_def)
qed

text \<open>What one pass does to the program: the tasks that are due, in the order of their registration.\<close>

definition pass_effect :: "'w awoke_tmtsk list \<Rightarrow> nat \<Rightarrow> 'w \<Rightarrow> 'w" where
  "pass_effect ts k w = fold run_handle (filter (\<lambda>t. unat (clock t) dvd k) ts) w"

lemma sched_tasks_pass:
  assumes "\<forall>t \<in> set ts. plain_task t"
  shows "sched_tasks (map (at_pass k) ts) w = Some (map (at_pass (Suc k)) ts, pass_effect ts (Suc k) w)"
  using assms by (induction ts arbitrary: w) (simp_all add: sched_task_pass pass_effect_def)

primrec tmwkr_passes :: "nat \<Rightarrow> 'w awoke_tmwkr \<Rightarrow> 'w \<Rightarrow> ('w awoke_tmwkr \<times> 'w) option" where
  "tmwkr_passes 0 twk w = Some (twk, w)"
| "tmwkr_passes (Suc n) twk w = do {
     (twk1, w1) \<leftarrow> tmwkr_passes n twk w;
     (ret, twk2, w2) \<leftarrow> timer_pass twk1 w1;
     Some (twk2, w2) }"

primrec passes_effect :: "('w \<Rightarrow> 'w) option \<Rightarrow> 'w awoke_tmtsk list \<Rightarrow> nat \<Rightarrow> 'w \<Rightarrow> 'w" where
  "passes_effect fin ts 0 w = w"
| "passes_effect fin ts (Suc n) w =
     (case fin of Some f \<Rightarrow> f | None \<Rightarrow> id) (pass_effect ts (Suc n) (passes_effect fin ts n w))"

text \<open>The passes keep time. When every registered task is periodic, without a condition and with a
  clock that is not 0, then in every number of passes of the scheduler the task with clock \<open>c\<close> runs in exactly the passes that
  \<open>c\<close> divides, in the order of registration within a pass, and the final callback after each pass.\<close>

theorem timer_scheduler_periods:
  assumes "\<forall>t \<in> set (task_queue twk). plain_task t \<and> tsk_tick t = clock t" "task_queue twk \<noteq> []"
  shows "tmwkr_passes n twk w = Some (twk\<lparr>task_queue := map (at_pass n) (task_queue twk)\<rparr>,
    passes_effect (sched_end twk) (task_queue twk) n w)"
proof (induction n)
  case 0
  have "map (at_pass 0) (task_queue twk) = task_queue twk" using assms(1) by (intro map_idI) (simp add: at_pass_def)
  then show ?case by simp
next
  case (Suc n)
  have "\<forall>t \<in> set (task_queue twk). plain_task t" using assms(1) by blast
  from sched_tasks_pass[OF this] show ?case using Suc assms(2)
    by (simp add: timer_pass_def Let_def split: option.split)
qed

definition log_task :: "u32 \<Rightarrow> char \<Rightarrow> string awoke_tmwkr \<Rightarrow> string awoke_tmwkr" where
  "log_task c x twk = snd (awoke_tmwkr_task_register True c True None (\<lambda>w. (et_ok, w @ [x])) twk)"

theorem timer_scheduler_periods_witness:
  "map_option snd (tmwkr_passes 6 (log_task 3 CHR ''b'' (log_task 2 CHR ''a'' \<lparr>task_nr = 0, task_queue = [], sched_end = None\<rparr>)) []) =
   Some ''abaab''"
proof -
  let ?twk = "log_task 3 CHR ''b'' (log_task 2 CHR ''a'' \<lparr>task_nr = 0, task_queue = [], sched_end = None\<rparr>)"
  have "\<forall>t \<in> set (task_queue ?twk). plain_task t \<and> tsk_tick t = clock t" "task_queue ?twk \<noteq> []"
    by (simp_all add: log_task_def awoke_tmwkr_task_register_def plain_task_def)
  from timer_scheduler_periods[OF this, of 6 "[]"]
  have "map_option snd (tmwkr_passes 6 ?twk []) = Some (passes_effect (sched_end ?twk) (task_queue ?twk) 6 [])" by simp
  also have "passes_effect (sched_end ?twk) (task_queue ?twk) 6 [] = ''abaab''" by code_simp
  finally show ?thesis .
qed

text \<open>A task that is refused when it is due starts to count down from the top of the range; one that is not
  periodic is written to after its release.\<close>

lemma sched_task_refused:
  assumes "can_sched t = Some (\<lambda>w. False)" "tsk_tick t = 1"
  shows "\<exists>t1 t2. sched_task t w = Some (t1, w) \<and> sched_task t1 w = Some (t2, w) \<and> tsk_tick t2 = 0xFFFFFFFF"
  using assms by (simp add: sched_task_def Let_def)

lemma sched_task_once:
  assumes "\<not> periodic t" "can_sched t = None" "tsk_tick t = 1"
  shows "sched_task t w = None"
  using assms by (simp add: sched_task_def Let_def)

text \<open>Called with a worker, as it is declared, the scheduler makes one pass over the tasks of the timer worker.
  But the loop of a timer worker calls it with the context: no pass of a created timer worker is defined.\<close>

lemma timer_scheduler_worker:
  "mem (data p) = Some twk \<Longrightarrow> timer_pass twk w = Some (ret, twk', w') \<Longrightarrow>
   timer_scheduler mem (Arg_worker p) w = Some (ret, mem(data p \<mapsto> twk'), w')"
  by (simp add: timer_scheduler_def)

lemma tmwkr_pass_undefined:
  assumes "awoke_tmwkr_create (Some a) env st e clk feats hdl send = Some (Some (twk, sched, E_worker_run))"
  shows "run_once user mem sched w = None"
proof -
  let ?f = "tmwkr_features feats"
  have c: "awoke_worker_create env st e clk ?f (if mask_exst ?f WORKER_FEAT_CUSTOM_DEFINE then hdl else H_timer_scheduler) a =
      Some (Some (sched, E_worker_run))"
    using assms by (auto simp: awoke_tmwkr_create_def Let_def bind_eq_Some_conv split: option.splits)
  have "handler sched = H_timer_scheduler" using awoke_worker_create_entry[OF c] by (simp split: if_splits)
  then show ?thesis by (simp add: run_once_def timer_scheduler_def)
qed

end
