(* ===== verification/Awoke_Lock.thy ===== *)
theory Awoke_Lock
  imports Prelude
begin

text \<open>
  Locks over a semaphore or a mutex, \<open>lib/libutil/src/awoke_lock.c\<close>. The object of the library has the
  documented behaviour of a semaphore: a count, 1 after its initialisation, that an
  acquisition decrements and waits for while it is 0; a mutex is one whose count is at most 1, and
  unlocking or destroying it in the wrong state is undefined. Storage whose initialisation failed is not an object, and
  using it is undefined. A wait for a semaphore can be interrupted by a signal, a wait for a mutex cannot:
  \<open>intr\<close> says that this happens to a call. \<open>None\<close> is a call that waits, or that is undefined. The interleaving
  of several threads, each between the steps of \<open>awoke_lock_acquire\<close> and \<open>awoke_lock_release\<close>, is the
  relation \<open>lock_step\<close>.
\<close>

section \<open>Model\<close>

definition AWOKE_LOCK_F_NOBLOCK :: u8 where "AWOKE_LOCK_F_NOBLOCK = 0x01"
definition AWOKE_LOCK_F_BLOCK :: u8 where "AWOKE_LOCK_F_BLOCK = 0x02"
definition AWOKE_LOCK_T_SEM :: u8 where "AWOKE_LOCK_T_SEM = 0x01"
definition AWOKE_LOCK_T_MUX :: u8 where "AWOKE_LOCK_T_MUX = 0x02"

datatype lk_obj = Uninit | Count nat

record awoke_lock =
  lk_type :: u8
  locked :: bool
  lk_object :: "lk_obj option"

text \<open>The absolute time of a timeout: seconds and nanoseconds after the time of day. \<open>ms*1000\<close> is
  computed as \<open>int\<close>.\<close>

definition set_abswaittime :: "int \<times> int \<Rightarrow> int \<Rightarrow> (int \<times> int) option" where
  "set_abswaittime tnow ms =
     (if - 2147483648 \<le> ms * 1000 \<and> ms * 1000 < 2147483648 then do {
        let usec = snd tnow + ms * 1000;
        s \<leftarrow> c_div usec 1000000;
        u \<leftarrow> c_rem usec 1000000;
        Some (fst tnow + s, u * 1000) }
      else None)"

text \<open>The operations of a row of the table. The outcomes of the allocation and of the initialisation are given.
  An initialisation reports success as 0; the code takes every result that is not negative for success.\<close>

record lock_env =
  obj_alloc :: bool
  init_rc :: int

definition init_object :: "lock_env \<Rightarrow> lk_obj" where
  "init_object env = (if init_rc env = 0 then Count 1 else Uninit)"

definition sem_create :: "lock_env \<Rightarrow> awoke_lock \<Rightarrow> err_type \<times> awoke_lock" where
  "sem_create env lock =
     (if \<not> obj_alloc env then (et_nomem, lock\<lparr>lk_object := None\<rparr>)
      else (if init_rc env < 0 then et_lock_init else et_ok, lock\<lparr>lk_object := Some (init_object env)\<rparr>))"

text \<open>The result of \<open>sem_wait\<close> is ignored: an interrupted wait returns without the semaphore.\<close>

definition sem_acquire :: "bool \<Rightarrow> awoke_lock \<Rightarrow> awoke_lock option" where
  "sem_acquire intr lock = (case lk_object lock of
      Some (Count n) \<Rightarrow> (if intr then Some lock else if n = 0 then None else Some (lock\<lparr>lk_object := Some (Count (n - 1))\<rparr>))
    | _ \<Rightarrow> None)"

text \<open>A timed acquisition gets the object while its count is not 0, and otherwise gives up at the given time;
  \<open>tnow\<close> is the time of day and the timeout is converted to \<open>int\<close>.\<close>

definition sem_acquire_timeout :: "int \<times> int \<Rightarrow> bool \<Rightarrow> awoke_lock \<Rightarrow> u32 \<Rightarrow> (err_type \<times> awoke_lock) option" where
  "sem_acquire_timeout tnow intr lock timeout = do {
     ts \<leftarrow> set_abswaittime tnow (sint timeout);
     (case lk_object lock of
        Some (Count n) \<Rightarrow> Some (if intr \<or> n = 0 then (et_lock_timeout, lock) else (et_ok, lock\<lparr>lk_object := Some (Count (n - 1))\<rparr>))
      | _ \<Rightarrow> None) }"

definition sem_release :: "awoke_lock \<Rightarrow> awoke_lock option" where
  "sem_release lock = (case lk_object lock of Some (Count n) \<Rightarrow> Some (lock\<lparr>lk_object := Some (Count (Suc n))\<rparr>) | _ \<Rightarrow> None)"

definition smt_destroy :: "awoke_lock \<Rightarrow> awoke_lock option" where
  "smt_destroy lock = (case lk_object lock of Some (Count n) \<Rightarrow> Some (lock\<lparr>lk_object := Some Uninit\<rparr>) | _ \<Rightarrow> None)"

definition mux_create :: "lock_env \<Rightarrow> awoke_lock \<Rightarrow> err_type \<times> awoke_lock" where
  "mux_create env lock =
     (if \<not> obj_alloc env then (et_nomem, lock\<lparr>lk_object := None\<rparr>)
      else (if init_rc env < 0 then et_lock_init else et_ok, lock\<lparr>lk_object := Some (init_object env)\<rparr>))"

definition mux_acquire :: "bool \<Rightarrow> awoke_lock \<Rightarrow> awoke_lock option" where
  "mux_acquire intr lock = (case lk_object lock of
      Some (Count n) \<Rightarrow> (if n = 0 then None else Some (lock\<lparr>lk_object := Some (Count 0)\<rparr>))
    | _ \<Rightarrow> None)"

definition mux_acquire_timeout :: "int \<times> int \<Rightarrow> bool \<Rightarrow> awoke_lock \<Rightarrow> u32 \<Rightarrow> (err_type \<times> awoke_lock) option" where
  "mux_acquire_timeout tnow intr lock timeout = do {
     ts \<leftarrow> set_abswaittime tnow (sint timeout);
     (case lk_object lock of
        Some (Count n) \<Rightarrow> Some (if n = 0 then (et_lock_timeout, lock) else (et_ok, lock\<lparr>lk_object := Some (Count 0)\<rparr>))
      | _ \<Rightarrow> None) }"

definition mux_release :: "awoke_lock \<Rightarrow> awoke_lock option" where
  "mux_release lock = (case lk_object lock of
      Some (Count n) \<Rightarrow> (if n = 0 then Some (lock\<lparr>lk_object := Some (Count 1)\<rparr>) else None)
    | _ \<Rightarrow> None)"

definition mux_destroy :: "awoke_lock \<Rightarrow> awoke_lock option" where
  "mux_destroy lock = (case lk_object lock of
      Some (Count n) \<Rightarrow> (if n = 0 then None else Some (lock\<lparr>lk_object := Some Uninit\<rparr>))
    | _ \<Rightarrow> None)"

record awoke_lock_map =
  row_type :: u8
  row_create :: "lock_env \<Rightarrow> awoke_lock \<Rightarrow> err_type \<times> awoke_lock"
  row_acquire :: "bool \<Rightarrow> awoke_lock \<Rightarrow> awoke_lock option"
  row_acquire_timeout :: "int \<times> int \<Rightarrow> bool \<Rightarrow> awoke_lock \<Rightarrow> u32 \<Rightarrow> (err_type \<times> awoke_lock) option"
  row_release :: "awoke_lock \<Rightarrow> awoke_lock option"
  row_destroy :: "awoke_lock \<Rightarrow> awoke_lock option"

definition lock_table :: "awoke_lock_map list" where
  "lock_table =
    [\<lparr>row_type = AWOKE_LOCK_T_SEM, row_create = sem_create, row_acquire = sem_acquire,
      row_acquire_timeout = sem_acquire_timeout, row_release = sem_release, row_destroy = smt_destroy\<rparr>,
     \<lparr>row_type = AWOKE_LOCK_T_MUX, row_create = mux_create, row_acquire = mux_acquire,
      row_acquire_timeout = mux_acquire_timeout, row_release = mux_release, row_destroy = mux_destroy\<rparr>]"

text \<open>The search for the row of a lock; without a row nothing happens.\<close>

definition lock_row :: "awoke_lock \<Rightarrow> awoke_lock_map option" where
  "lock_row lock = List.find (\<lambda>p. row_type p = lk_type lock) lock_table"

definition u_lock_acquire :: "bool \<Rightarrow> awoke_lock \<Rightarrow> awoke_lock option" where
  "u_lock_acquire intr lock = (case lock_row lock of Some p \<Rightarrow> row_acquire p intr lock | None \<Rightarrow> Some lock)"

definition awoke_lock_acquire :: "bool \<Rightarrow> awoke_lock \<Rightarrow> u8 \<Rightarrow> (err_type \<times> awoke_lock) option" where
  "awoke_lock_acquire intr lock flag =
     (if locked lock \<and> flag = AWOKE_LOCK_F_NOBLOCK then Some (et_locked, lock)
      else do { l \<leftarrow> u_lock_acquire intr lock; Some (et_ok, l\<lparr>locked := True\<rparr>) })"

definition u_lock_acquire_timeout :: "int \<times> int \<Rightarrow> bool \<Rightarrow> awoke_lock \<Rightarrow> u32 \<Rightarrow> (err_type \<times> awoke_lock) option" where
  "u_lock_acquire_timeout tnow intr lock timeout =
     (case lock_row lock of Some p \<Rightarrow> row_acquire_timeout p tnow intr lock timeout | None \<Rightarrow> Some (et_fail, lock))"

definition awoke_lock_acquire_timeout :: "int \<times> int \<Rightarrow> bool \<Rightarrow> awoke_lock \<Rightarrow> u32 \<Rightarrow> (err_type \<times> awoke_lock) option" where
  "awoke_lock_acquire_timeout tnow intr lock timeout = do {
     (ret, l) \<leftarrow> u_lock_acquire_timeout tnow intr lock timeout;
     Some (if ret \<noteq> et_ok then (ret, l) else (et_ok, l\<lparr>locked := True\<rparr>)) }"

definition u_lock_release :: "awoke_lock \<Rightarrow> awoke_lock option" where
  "u_lock_release lock = (case lock_row lock of Some p \<Rightarrow> row_release p lock | None \<Rightarrow> Some lock)"

definition awoke_lock_release :: "awoke_lock \<Rightarrow> awoke_lock option" where
  "awoke_lock_release lock = do { l \<leftarrow> u_lock_release lock; Some (l\<lparr>locked := False\<rparr>) }"

definition u_lock_destroy :: "awoke_lock \<Rightarrow> awoke_lock option" where
  "u_lock_destroy lock = (case lock_row lock of Some p \<Rightarrow> row_destroy p lock | None \<Rightarrow> Some lock)"

definition awoke_lock_destroy :: "awoke_lock \<Rightarrow> awoke_lock option" where
  "awoke_lock_destroy lock = u_lock_destroy lock"

text \<open>Giving the lock back if it is taken, destroying the object and releasing the storage.\<close>

definition awoke_lock_clean :: "awoke_lock option \<Rightarrow> unit option" where
  "awoke_lock_clean lock = (case lock of
      None \<Rightarrow> Some ()
    | Some p \<Rightarrow>
        (if lk_object p \<noteq> None then do {
           p1 \<leftarrow> (if locked p then u_lock_release p else Some p);
           _ \<leftarrow> u_lock_destroy p1;
           Some () }
         else Some ()))"

definition u_lock_create :: "lock_env \<Rightarrow> awoke_lock \<Rightarrow> err_type \<times> awoke_lock" where
  "u_lock_create env lock = (case lock_row lock of Some p \<Rightarrow> row_create p env lock | None \<Rightarrow> (et_fail, lock))"

definition awoke_lock_create :: "bool \<Rightarrow> lock_env \<Rightarrow> u8 \<Rightarrow> awoke_lock option option" where
  "awoke_lock_create alloc env ty =
     (if \<not> alloc then Some None
      else (case u_lock_create env \<lparr>lk_type = ty, locked = False, lk_object = None\<rparr> of
          (ret, lock) \<Rightarrow> if ret \<noteq> et_ok then do { _ \<leftarrow> awoke_lock_clean (Some lock); Some None } else Some (Some lock)))"

subsection \<open>Several threads\<close>

text \<open>Where a thread stands: outside; past the test of \<open>locked\<close>; with the object, before \<open>locked\<close> is set;
  inside; with the object given back, before \<open>locked\<close> is cleared.\<close>

datatype lk_pc = L_out | L_want | L_got | L_in | L_posted

record lk_sys =
  lock :: awoke_lock
  pcs :: "nat \<Rightarrow> lk_pc"

text \<open>\<open>signals\<close> says whether signals can arrive while a thread waits.\<close>

inductive lock_step :: "bool \<Rightarrow> lk_sys \<Rightarrow> lk_sys \<Rightarrow> bool" for signals where
  enter: "pcs s i = L_out \<Longrightarrow> \<not> (locked (lock s) \<and> flag = AWOKE_LOCK_F_NOBLOCK) \<Longrightarrow>
    lock_step signals s (s\<lparr>pcs := (pcs s)(i := L_want)\<rparr>)"
| take: "pcs s i = L_want \<Longrightarrow> u_lock_acquire intr (lock s) = Some l \<Longrightarrow> intr \<longrightarrow> signals \<Longrightarrow>
    lock_step signals s (s\<lparr>lock := l, pcs := (pcs s)(i := L_got)\<rparr>)"
| take_timed: "pcs s i = L_want \<Longrightarrow> u_lock_acquire_timeout tnow intr (lock s) timeout = Some (et_ok, l) \<Longrightarrow>
    lock_step signals s (s\<lparr>lock := l, pcs := (pcs s)(i := L_got)\<rparr>)"
| timed_out: "pcs s i = L_want \<Longrightarrow> u_lock_acquire_timeout tnow intr (lock s) timeout = Some (ret, l) \<Longrightarrow> ret \<noteq> et_ok \<Longrightarrow>
    lock_step signals s (s\<lparr>lock := l, pcs := (pcs s)(i := L_out)\<rparr>)"
| set_flag: "pcs s i = L_got \<Longrightarrow>
    lock_step signals s (s\<lparr>lock := (lock s)\<lparr>locked := True\<rparr>, pcs := (pcs s)(i := L_in)\<rparr>)"
| post: "pcs s i = L_in \<Longrightarrow> u_lock_release (lock s) = Some l \<Longrightarrow>
    lock_step signals s (s\<lparr>lock := l, pcs := (pcs s)(i := L_posted)\<rparr>)"
| clear_flag: "pcs s i = L_posted \<Longrightarrow>
    lock_step signals s (s\<lparr>lock := (lock s)\<lparr>locked := False\<rparr>, pcs := (pcs s)(i := L_out)\<rparr>)"

inductive lk_reachable :: "bool \<Rightarrow> lk_sys \<Rightarrow> bool" for signals where
  created: "awoke_lock_create True env ty = Some (Some l) \<Longrightarrow> lk_reachable signals \<lparr>lock = l, pcs = (\<lambda>i. L_out)\<rparr>"
| stepped: "lk_reachable signals s \<Longrightarrow> lock_step signals s s' \<Longrightarrow> lk_reachable signals s'"

section \<open>Mutual exclusion\<close>

lemmas lock_defs = lock_row_def lock_table_def AWOKE_LOCK_T_SEM_def AWOKE_LOCK_T_MUX_def

text \<open>A lock of one of the two types.\<close>

definition known_type :: "awoke_lock \<Rightarrow> bool" where
  "known_type l \<longleftrightarrow> lk_type l = AWOKE_LOCK_T_SEM \<or> lk_type l = AWOKE_LOCK_T_MUX"

text \<open>On an object that is free or taken, and without an interruption of a semaphore, the two types behave alike.\<close>

definition undisturbed :: "bool \<Rightarrow> awoke_lock \<Rightarrow> bool" where
  "undisturbed intr l \<longleftrightarrow> (intr \<longrightarrow> lk_type l = AWOKE_LOCK_T_MUX)"

lemma acquire_known:
  "known_type l \<Longrightarrow> undisturbed intr l \<Longrightarrow> lk_object l = Some (Count n) \<Longrightarrow> n \<le> 1 \<Longrightarrow>
   u_lock_acquire intr l = (if n = 1 then Some (l\<lparr>lk_object := Some (Count 0)\<rparr>) else None)"
  by (cases n) (auto simp: u_lock_acquire_def undisturbed_def known_type_def lock_defs sem_acquire_def mux_acquire_def)

lemma acquire_timeout_known:
  assumes "known_type l" "lk_object l = Some (Count n)" "n \<le> 1" "u_lock_acquire_timeout tnow intr l timeout = Some (ret, l')"
  shows "ret = et_ok \<and> n = 1 \<and> l' = l\<lparr>lk_object := Some (Count 0)\<rparr> \<or> ret = et_lock_timeout \<and> l' = l"
  using assms by (auto simp: u_lock_acquire_timeout_def known_type_def lock_defs sem_acquire_timeout_def mux_acquire_timeout_def
      bind_eq_Some_conv split: if_splits)

lemma release_known: "known_type l \<Longrightarrow> lk_object l = Some (Count 0) \<Longrightarrow> u_lock_release l = Some (l\<lparr>lk_object := Some (Count 1)\<rparr>)"
  by (auto simp: u_lock_release_def known_type_def lock_defs sem_release_def mux_release_def)

lemma uninit_unusable:
  assumes "known_type l" "lk_object l = Some Uninit"
  shows "u_lock_acquire intr l = None" "u_lock_acquire_timeout tnow intr l timeout = None" "u_lock_release l = None"
  using assms by (auto simp: u_lock_acquire_def u_lock_acquire_timeout_def u_lock_release_def known_type_def lock_defs
      sem_acquire_def mux_acquire_def sem_acquire_timeout_def mux_acquire_timeout_def sem_release_def mux_release_def
      split: bind_splits)

lemma create_known:
  "awoke_lock_create True env ty = Some (Some l) \<Longrightarrow>
   known_type l \<and> lk_type l = ty \<and> lk_object l = Some (init_object env) \<and> \<not> locked l"
  by (auto simp: awoke_lock_create_def u_lock_create_def lock_defs sem_create_def mux_create_def known_type_def
      bind_eq_Some_conv split: if_splits option.splits)

definition owns :: "lk_pc \<Rightarrow> bool" where
  "owns p \<longleftrightarrow> p = L_got \<or> p = L_in"

definition nobody :: "lk_sys \<Rightarrow> bool" where
  "nobody s \<longleftrightarrow> (\<forall>i. \<not> owns (pcs s i))"

definition lk_inv :: "lk_sys \<Rightarrow> bool" where
  "lk_inv s \<longleftrightarrow> known_type (lock s) \<and>
     (lk_object (lock s) = Some Uninit \<and> nobody s \<or> lk_object (lock s) = Some (Count 1) \<and> nobody s \<or>
      lk_object (lock s) = Some (Count 0) \<and> (\<exists>!i. owns (pcs s i)))"

lemma lk_inv_same:
  assumes "lk_inv s" "known_type l" "lk_object l = lk_object (lock s)" "\<And>j. owns (p j) = owns (pcs s j)"
  shows "lk_inv (s\<lparr>lock := l, pcs := p\<rparr>)" "lk_inv (s\<lparr>pcs := p\<rparr>)"
  using assms by (simp_all add: lk_inv_def nobody_def)

lemma lk_inv_take:
  assumes "lk_inv s" "pcs s i = L_want" "lk_object (lock s) = Some (Count 1)"
  shows "lk_inv (s\<lparr>lock := (lock s)\<lparr>lk_object := Some (Count 0)\<rparr>, pcs := (pcs s)(i := L_got)\<rparr>)"
  using assms by (auto simp: lk_inv_def known_type_def owns_def nobody_def)

lemma lk_inv_post:
  assumes "lk_inv s" "pcs s i = L_in" "lk_object (lock s) = Some (Count 0)"
  shows "lk_inv (s\<lparr>lock := (lock s)\<lparr>lk_object := Some (Count 1)\<rparr>, pcs := (pcs s)(i := L_posted)\<rparr>)"
  using assms by (auto simp: lk_inv_def known_type_def owns_def nobody_def)

lemma lk_inv_owned: "lk_inv s \<Longrightarrow> owns (pcs s i) \<Longrightarrow> lk_object (lock s) = Some (Count 0)"
  by (auto simp: lk_inv_def nobody_def)

lemma lk_inv_free: "lk_inv s \<Longrightarrow> lk_object (lock s) = Some Uninit \<or> (\<exists>n \<le> 1. lk_object (lock s) = Some (Count n))"
  by (auto simp: lk_inv_def)

lemma lk_inv_taken:
  assumes "lk_inv s" "undisturbed intr (lock s)" "u_lock_acquire intr (lock s) = Some l"
  shows "lk_object (lock s) = Some (Count 1) \<and> l = (lock s)\<lparr>lk_object := Some (Count 0)\<rparr>"
proof -
  have k: "known_type (lock s)" using assms(1) by (simp add: lk_inv_def)
  with lk_inv_free[OF assms(1)] assms(3) obtain n where n: "n \<le> 1" "lk_object (lock s) = Some (Count n)"
    using uninit_unusable(1)[of "lock s" intr] by auto
  then show ?thesis using acquire_known[OF k assms(2) n(2,1)] assms(3) by (simp split: if_splits)
qed

lemma lk_inv_timed:
  assumes "lk_inv s" "u_lock_acquire_timeout tnow intr (lock s) timeout = Some (ret, l)"
  shows "ret = et_ok \<and> lk_object (lock s) = Some (Count 1) \<and> l = (lock s)\<lparr>lk_object := Some (Count 0)\<rparr> \<or>
    ret = et_lock_timeout \<and> l = lock s"
proof -
  have k: "known_type (lock s)" using assms(1) by (simp add: lk_inv_def)
  with lk_inv_free[OF assms(1)] assms(2) obtain n where n: "n \<le> 1" "lk_object (lock s) = Some (Count n)"
    using uninit_unusable(2)[of "lock s" tnow intr timeout] by auto
  then show ?thesis using acquire_timeout_known[OF k n(2,1) assms(2)] by auto
qed

lemma lock_step_type: "lock_step signals s s' \<Longrightarrow> lk_type (lock s') = lk_type (lock s)"
  by (erule lock_step.cases)
    (auto simp: u_lock_acquire_def u_lock_acquire_timeout_def u_lock_release_def lock_defs sem_acquire_def mux_acquire_def
      sem_acquire_timeout_def mux_acquire_timeout_def sem_release_def mux_release_def bind_eq_Some_conv
      split: if_splits option.splits lk_obj.splits)

lemma lock_step_inv:
  assumes "lock_step signals s s'" "lk_inv s" "undisturbed signals (lock s)"
  shows "lk_inv s'"
proof -
  have k: "known_type (lock s)" using assms(2) by (simp add: lk_inv_def)
  from assms(1) show ?thesis
  proof (cases rule: lock_step.cases)
    case (take i intr l)
    then have "undisturbed intr (lock s)" using assms(3) by (auto simp: undisturbed_def)
    from lk_inv_taken[OF assms(2) this take(3)] show ?thesis using take lk_inv_take[OF assms(2)] by simp
  next
    case (take_timed i tnow intr timeout l)
    from lk_inv_timed[OF assms(2) take_timed(3)] show ?thesis using take_timed lk_inv_take[OF assms(2)] by auto
  next
    case (timed_out i tnow intr timeout ret l)
    then have "l = lock s" using lk_inv_timed[OF assms(2) timed_out(3)] by auto
    then show ?thesis using timed_out k lk_inv_same[OF assms(2), of l "(pcs s)(i := L_out)"] by (simp add: owns_def)
  next
    case (enter i flag)
    then show ?thesis using lk_inv_same(2)[OF assms(2) k, of "(pcs s)(i := L_want)"] by (simp add: owns_def)
  next
    case (set_flag i)
    then show ?thesis using k lk_inv_same[OF assms(2), of "(lock s)\<lparr>locked := True\<rparr>" "(pcs s)(i := L_in)"]
      by (simp add: owns_def known_type_def)
  next
    case (clear_flag i)
    then show ?thesis using k lk_inv_same[OF assms(2), of "(lock s)\<lparr>locked := False\<rparr>" "(pcs s)(i := L_out)"]
      by (simp add: owns_def known_type_def)
  next
    case (post i l)
    have z: "lk_object (lock s) = Some (Count 0)" using lk_inv_owned[OF assms(2), of i] post by (simp add: owns_def)
    then have "l = (lock s)\<lparr>lk_object := Some (Count 1)\<rparr>" using release_known[OF k] post by simp
    then show ?thesis using post lk_inv_post[OF assms(2) _ z] by simp
  qed
qed

lemma lk_reachable_inv: "lk_reachable signals s \<Longrightarrow> undisturbed signals (lock s) \<Longrightarrow> lk_inv s"
proof (induction rule: lk_reachable.induct)
  case (created env ty l)
  then show ?case using create_known[of env ty l] by (auto simp: lk_inv_def owns_def init_object_def nobody_def)
next
  case (stepped s s')
  have "lk_type (lock s') = lk_type (lock s)" using lock_step_type[OF stepped.hyps(2)] .
  then have "undisturbed signals (lock s)" using stepped.prems by (simp add: undisturbed_def)
  then show ?case using stepped lock_step_inv by blast
qed

section \<open>Properties\<close>

text \<open>C36: a lock excludes: in every interleaving of any number of threads that acquire, with and without
  waiting or a timeout, and release a created lock, at most one of them is between acquisition and release; the
  object counts 0 exactly then, so a release is always defined. For a mutex this holds whatever signals
  arrive; for a semaphore it is proved when no signal interrupts a thread that waits in \<open>sem_wait\<close>, since the
  code takes an interrupted wait for an acquisition.\<close>

theorem awoke_lock_mutual_exclusion:
  assumes "lk_reachable signals s" "signals \<longrightarrow> lk_type (lock s) = AWOKE_LOCK_T_MUX"
  shows "(\<forall>i j. owns (pcs s i) \<and> owns (pcs s j) \<longrightarrow> i = j) \<and>
    (lk_object (lock s) = Some (Count 0) \<longleftrightarrow> (\<exists>i. owns (pcs s i))) \<and>
    (\<forall>i. pcs s i = L_in \<longrightarrow> (\<exists>l. awoke_lock_release (lock s) = Some l \<and> lk_object l = Some (Count 1) \<and> \<not> locked l))"
proof -
  have inv: "lk_inv s" using lk_reachable_inv[OF assms(1)] assms(2) by (simp add: undisturbed_def)
  then have k: "known_type (lock s)" by (simp add: lk_inv_def)
  have zero: "lk_object (lock s) = Some (Count 0) \<longleftrightarrow> (\<exists>i. owns (pcs s i))"
    using inv lk_inv_owned[OF inv] by (auto simp: lk_inv_def)
  moreover have "\<exists>l. awoke_lock_release (lock s) = Some l \<and> lk_object l = Some (Count 1) \<and> \<not> locked l" if "pcs s i = L_in" for i
  proof -
    have "owns (pcs s i)" using that by (simp add: owns_def)
    then have "lk_object (lock s) = Some (Count 0)" using zero by blast
    then show ?thesis using release_known[OF k] by (simp add: awoke_lock_release_def)
  qed
  moreover have "i = j" if "owns (pcs s i)" "owns (pcs s j)" for i j
    using inv that lk_inv_owned[OF inv that(1)] by (auto simp: lk_inv_def)
  ultimately show ?thesis by blast
qed

definition mutex_env :: lock_env where "mutex_env = \<lparr>obj_alloc = True, init_rc = 0\<rparr>"

definition free_mutex :: awoke_lock where
  "free_mutex = \<lparr>lk_type = AWOKE_LOCK_T_MUX, locked = False, lk_object = Some (Count 1)\<rparr>"

lemma free_mutex_created: "awoke_lock_create True mutex_env AWOKE_LOCK_T_MUX = Some (Some free_mutex)"
  by (simp add: awoke_lock_create_def u_lock_create_def lock_defs mux_create_def init_object_def mutex_env_def free_mutex_def)

definition one_inside :: lk_sys where
  "one_inside = \<lparr>lock = free_mutex\<lparr>locked := True, lk_object := Some (Count 0)\<rparr>, pcs = (\<lambda>i. L_out)(7 := L_in)\<rparr>"

lemma one_inside_reachable: "lk_reachable True one_inside"
proof -
  define s0 where "s0 = \<lparr>lock = free_mutex, pcs = (\<lambda>i. L_out)\<rparr>"
  define s1 where "s1 = s0\<lparr>pcs := (pcs s0)(7 := L_want)\<rparr>"
  define s2 where "s2 = s1\<lparr>lock := free_mutex\<lparr>lk_object := Some (Count 0)\<rparr>, pcs := (pcs s1)(7 := L_got)\<rparr>"
  have k: "known_type free_mutex" "undisturbed True free_mutex" "lk_object free_mutex = Some (Count 1)" by (simp_all add: free_mutex_def known_type_def undisturbed_def)
  have "lk_reachable True s0" unfolding s0_def by (rule created[OF free_mutex_created])
  moreover have "lock_step True s0 s1" unfolding s1_def by (rule enter[of _ _ AWOKE_LOCK_F_BLOCK]) (simp_all add: s0_def AWOKE_LOCK_F_BLOCK_def AWOKE_LOCK_F_NOBLOCK_def)
  moreover have "lock_step True s1 s2" unfolding s2_def
    by (rule take[of _ _ True]) (use acquire_known[OF k] in \<open>simp_all add: s1_def s0_def\<close>)
  moreover have "lock_step True s2 one_inside"
  proof -
    have "one_inside = s2\<lparr>lock := (lock s2)\<lparr>locked := True\<rparr>, pcs := (pcs s2)(7 := L_in)\<rparr>"
      by (simp add: one_inside_def s2_def s1_def s0_def free_mutex_def)
    then show ?thesis using set_flag[of s2 7] by (simp add: s2_def)
  qed
  ultimately show ?thesis by (blast intro: stepped)
qed

theorem awoke_lock_mutual_exclusion_witness:
  "lk_reachable True one_inside \<and> {j. owns (pcs one_inside j)} = {7} \<and> lk_object (lock one_inside) = Some (Count 0)"
proof -
  have "owns (pcs one_inside 7)" by (simp add: one_inside_def owns_def)
  moreover have "lk_type (lock one_inside) = AWOKE_LOCK_T_MUX" by (simp add: one_inside_def free_mutex_def)
  ultimately show ?thesis using awoke_lock_mutual_exclusion[OF one_inside_reachable] one_inside_reachable by blast
qed

text \<open>One thread alone: an acquired lock refuses a second acquisition that does not wait, and a release makes
  it available again.\<close>

lemma awoke_lock_alone:
  assumes "awoke_lock_create True env ty = Some (Some l)" "init_rc env = 0" "ms < 2147483"
  shows "\<exists>l1 l2. awoke_lock_acquire False l flag = Some (et_ok, l1) \<and> awoke_lock_acquire intr l1 AWOKE_LOCK_F_NOBLOCK = Some (et_locked, l1) \<and>
    awoke_lock_acquire_timeout tnow intr l1 ms = Some (et_lock_timeout, l1) \<and> awoke_lock_release l1 = Some l2 \<and> l2 = l"
proof -
  have k: "known_type l" "lk_object l = Some (Count 1)" "\<not> locked l" using create_known[OF assms(1)] assms(2) by (simp_all add: init_object_def)
  define l1 where "l1 = l\<lparr>lk_object := Some (Count 0), locked := True\<rparr>"
  have k1: "known_type l1" "lk_object l1 = Some (Count 0)" using k by (simp_all add: l1_def known_type_def)
  have "uint ms < 2147483" using assms(3) by (simp add: word_less_def)
  moreover have "sint ms = uint ms" using \<open>uint ms < 2147483\<close> order.trans[OF _ uint_ge_0, of "- 2147483648" ms]
    by (simp add: sint_uint signed_take_bit_int_eq_self_iff)
  ultimately have ms: "0 \<le> sint ms" "sint ms < 2147483" by simp_all
  have "awoke_lock_acquire False l flag = Some (et_ok, l1)" using acquire_known[OF k(1) _ k(2)] k(3)
    by (simp add: awoke_lock_acquire_def l1_def undisturbed_def)
  moreover have "\<exists>ts. set_abswaittime tnow (sint ms) = Some ts" using ms by (simp add: set_abswaittime_def Let_def c_div_def c_rem_def)
  then have "awoke_lock_acquire_timeout tnow intr l1 ms = Some (et_lock_timeout, l1)"
    using k1 by (auto simp: awoke_lock_acquire_timeout_def u_lock_acquire_timeout_def known_type_def lock_defs
        sem_acquire_timeout_def mux_acquire_timeout_def)
  moreover have "awoke_lock_release l1 = Some l"
    using release_known[OF k1] k by (simp add: awoke_lock_release_def l1_def)
  ultimately show ?thesis by (auto simp: awoke_lock_acquire_def l1_def)
qed

text \<open>A signal breaks the exclusion of a semaphore: the interrupted thread goes on as if it had the lock.\<close>

lemma sem_interrupted_enters:
  assumes "lk_reachable True s" "lk_type (lock s) = AWOKE_LOCK_T_SEM" "lk_object (lock s) = Some (Count 0)"
    "pcs s i = L_in" "pcs s j = L_want"
  shows "\<exists>s'. lk_reachable True s' \<and> pcs s' i = L_in \<and> pcs s' j = L_got"
proof -
  have "u_lock_acquire True (lock s) = Some (lock s)"
    using assms(2,3) by (simp add: u_lock_acquire_def lock_defs sem_acquire_def)
  from take[OF assms(5) this, of True] have "lock_step True s (s\<lparr>lock := lock s, pcs := (pcs s)(j := L_got)\<rparr>)" by simp
  from stepped[OF assms(1) this] show ?thesis using assms(4,5) by (intro exI) auto
qed

text \<open>A mutex whose initialisation reports an error number, which is positive, counts as created and cannot be used.\<close>

lemma mux_create_positive:
  assumes "init_rc env > 0" "obj_alloc env"
  shows "\<exists>l. awoke_lock_create True env AWOKE_LOCK_T_MUX = Some (Some l) \<and> awoke_lock_acquire intr l flag = None"
  using assms by (auto simp: awoke_lock_create_def u_lock_create_def mux_create_def init_object_def lock_defs
      awoke_lock_acquire_def u_lock_acquire_def mux_acquire_def)

text \<open>The flag lags behind: a thread can be inside while the flag says the lock is free, because the thread
  before it clears the flag after giving the lock back. An acquisition that should not wait then waits.\<close>

lemma awoke_lock_flag_lags: "\<exists>s. lk_reachable True s \<and> pcs s 8 = L_in \<and> \<not> locked (lock s) \<and> awoke_lock_acquire False (lock s) AWOKE_LOCK_F_NOBLOCK = None"
proof -
  let ?free = "free_mutex\<lparr>locked := True\<rparr>" and ?taken = "free_mutex\<lparr>locked := True, lk_object := Some (Count 0)\<rparr>"
  have k: "known_type ?taken" "lk_object ?taken = Some (Count 0)" "known_type ?free" "undisturbed True ?free" "lk_object ?free = Some (Count 1)"
    by (simp_all add: free_mutex_def known_type_def undisturbed_def)
  define s1 where "s1 = one_inside\<lparr>lock := ?free, pcs := (pcs one_inside)(7 := L_posted)\<rparr>"
  define s2 where "s2 = s1\<lparr>pcs := (pcs s1)(8 := L_want)\<rparr>"
  define s3 where "s3 = s2\<lparr>lock := ?taken, pcs := (pcs s2)(8 := L_got)\<rparr>"
  define s4 where "s4 = s3\<lparr>lock := (lock s3)\<lparr>locked := True\<rparr>, pcs := (pcs s3)(8 := L_in)\<rparr>"
  define s5 where "s5 = s4\<lparr>lock := (lock s4)\<lparr>locked := False\<rparr>, pcs := (pcs s4)(7 := L_out)\<rparr>"
  have "lock_step True one_inside s1" unfolding s1_def
    by (rule post) (use release_known[OF k(1,2)] in \<open>simp_all add: one_inside_def free_mutex_def\<close>)
  then have r1: "lk_reachable True s1" by (rule stepped[OF one_inside_reachable])
  have "lock_step True s1 s2" unfolding s2_def
    by (rule enter[of _ _ AWOKE_LOCK_F_BLOCK]) (simp_all add: s1_def one_inside_def AWOKE_LOCK_F_BLOCK_def AWOKE_LOCK_F_NOBLOCK_def)
  then have r2: "lk_reachable True s2" by (rule stepped[OF r1])
  have "lock_step True s2 s3" unfolding s3_def
    by (rule take[of _ _ True]) (use acquire_known[OF k(3,4,5)] in \<open>simp_all add: s2_def s1_def free_mutex_def\<close>)
  then have r3: "lk_reachable True s3" by (rule stepped[OF r2])
  have "lock_step True s3 s4" unfolding s4_def by (rule set_flag) (simp add: s3_def)
  then have r4: "lk_reachable True s4" by (rule stepped[OF r3])
  have "lock_step True s4 s5" unfolding s5_def by (rule clear_flag) (simp add: s4_def s3_def s2_def s1_def)
  then have r: "lk_reachable True s5" by (rule stepped[OF r4])
  have l5: "lock s5 = ?taken\<lparr>locked := False\<rparr>" by (simp add: s5_def s4_def s3_def)
  have "known_type (lock s5)" "lk_object (lock s5) = Some (Count 0)" "\<not> locked (lock s5)" unfolding l5 by (simp_all add: free_mutex_def known_type_def)
  then have "awoke_lock_acquire False (lock s5) AWOKE_LOCK_F_NOBLOCK = None" using acquire_known[of "lock s5" False 0] by (simp add: awoke_lock_acquire_def undisturbed_def)
  then show ?thesis using r \<open>\<not> locked (lock s5)\<close> by (intro exI[of _ s5]) (simp add: s5_def s4_def)
qed

text \<open>The absolute time of a timeout that fits is the time of day plus the timeout, in normal form.\<close>

lemma set_abswaittime_ok:
  assumes "0 \<le> us" "us < 1000000" "0 \<le> ms" "ms < 2147483"
  shows "\<exists>s ns. set_abswaittime (sec, us) ms = Some (s, ns) \<and> 0 \<le> ns \<and> ns < 1000000000 \<and>
    s * 1000000000 + ns = sec * 1000000000 + us * 1000 + ms * 1000000"
proof -
  define u where "u = us + ms * 1000"
  have "0 \<le> u" using assms by (simp add: u_def)
  then have "set_abswaittime (sec, us) ms = Some (sec + u div 1000000, (u mod 1000000) * 1000)"
    using assms by (simp add: set_abswaittime_def Let_def c_div_nonneg c_rem_nonneg flip: u_def)
  moreover obtain q m where qm: "q = u div 1000000" "m = u mod 1000000" by blast
  ultimately have e: "set_abswaittime (sec, us) ms = Some (sec + q, m * 1000)" by simp
  have r: "q * 1000000 + m = us + ms * 1000" "0 \<le> m" "m < 1000000" unfolding qm u_def[symmetric] by simp_all
  have "1000 * (q * 1000000 + m) = 1000 * (us + ms * 1000)" unfolding r(1) ..
  then have "0 \<le> m * 1000 \<and> m * 1000 < 1000000000 \<and> (sec + q) * 1000000000 + m * 1000 = sec * 1000000000 + us * 1000 + ms * 1000000"
    using r(2,3) by (simp add: algebra_simps)
  then show ?thesis using e by blast
qed

end
