(* ===== verification/Awoke_Waitev.thy ===== *)
theory Awoke_Waitev
  imports Prelude
begin

text \<open>
  Waiting for an event, \<open>lib/libutil/src/awoke_waitev.c\<close>: a callback is repeated until it, or a second
  callback, says that the event has happened. The callbacks are parameters: \<open>run i\<close> is what the call
  \<open>i\<close> of \<open>run_once\<close> returns, \<open>stop i\<close> what \<open>stop_fn\<close> answers after it. Sleeping is left out. \<open>None\<close> is a loop
  that does not return.
\<close>

section \<open>Model\<close>

definition WAIT_EV_F_SLEEP :: u8 where "WAIT_EV_F_SLEEP = 0x01"
definition WAIT_EV_F_CUSTOM_STOP :: u8 where "WAIT_EV_F_CUSTOM_STOP = 0x02"
definition WAIT_EV_F_REFERENCE :: u8 where "WAIT_EV_F_REFERENCE = 0x03"

record awoke_wait_ev =
  ev_ret :: err_type
  ev_tick :: int
  ev_reference :: int
  ev_flag :: u8
  ev_run_once :: "nat \<Rightarrow> err_type"
  ev_stop_fn :: "(nat \<Rightarrow> bool) option"

definition ev_should_stop :: "awoke_wait_ev \<Rightarrow> nat \<Rightarrow> bool" where
  "ev_should_stop ev i = (case ev_stop_fn ev of
      Some stop \<Rightarrow> (if ev_flag ev AND WAIT_EV_F_CUSTOM_STOP \<noteq> 0 then stop i else False)
    | None \<Rightarrow> ev_ret ev = et_waitev_finish)"

partial_function (option) waitev_from :: "nat \<Rightarrow> awoke_wait_ev \<Rightarrow> (err_type \<times> awoke_wait_ev) option" where
  "waitev_from i ev =
     (let ret = ev_run_once ev i;
          ev1 = ev\<lparr>ev_ret := ret,
            ev_reference := (if ev_flag ev AND WAIT_EV_F_REFERENCE \<noteq> 0 then ev_reference ev + 1 else ev_reference ev)\<rparr> in
      if \<not> ev_should_stop ev1 i then waitev_from (Suc i) ev1 else Some (ret, ev1))"

definition awoke_waitev :: "awoke_wait_ev \<Rightarrow> (err_type \<times> awoke_wait_ev) option" where
  "awoke_waitev ev = waitev_from 0 ev"

definition awoke_waitev_create ::
  "bool \<Rightarrow> bool \<Rightarrow> int \<Rightarrow> u8 \<Rightarrow> (nat \<Rightarrow> err_type) option \<Rightarrow> (nat \<Rightarrow> bool) option \<Rightarrow> awoke_wait_ev option" where
  "awoke_waitev_create alloc name tk flags run_once stop_fn = (case run_once of
      None \<Rightarrow> None
    | Some run \<Rightarrow>
        (if \<not> name then None
         else if flags AND WAIT_EV_F_CUSTOM_STOP \<noteq> 0 \<and> stop_fn = None then None
         else if \<not> alloc then None
         else Some \<lparr>ev_ret = et_ok, ev_tick = tk, ev_reference = 0, ev_flag = flags, ev_run_once = run, ev_stop_fn = stop_fn\<rparr>))"

section \<open>When the loop ends\<close>

text \<open>The test after call \<open>i\<close>, in terms of the callbacks alone.\<close>

definition stops_at :: "awoke_wait_ev \<Rightarrow> nat \<Rightarrow> bool" where
  "stops_at ev i = (case ev_stop_fn ev of
      Some stop \<Rightarrow> ev_flag ev AND WAIT_EV_F_CUSTOM_STOP \<noteq> 0 \<and> stop i
    | None \<Rightarrow> ev_run_once ev i = et_waitev_finish)"

definition after_run :: "nat \<Rightarrow> awoke_wait_ev \<Rightarrow> awoke_wait_ev" where
  "after_run i ev = ev\<lparr>ev_ret := ev_run_once ev i,
     ev_reference := (if ev_flag ev AND WAIT_EV_F_REFERENCE \<noteq> 0 then ev_reference ev + 1 else ev_reference ev)\<rparr>"

lemma waitev_unfold:
  "waitev_from i ev = (if stops_at ev i then Some (ev_run_once ev i, after_run i ev) else waitev_from (Suc i) (after_run i ev))"
  by (subst waitev_from.simps) (auto simp: Let_def ev_should_stop_def stops_at_def after_run_def split: option.split)

lemma stops_at_after_run [simp]: "stops_at (after_run i ev) = stops_at ev"
  by (rule ext) (simp add: stops_at_def after_run_def split: option.split)

lemma run_once_after_run [simp]: "ev_run_once (after_run i ev) = ev_run_once ev"
  by (simp add: after_run_def)

lemma waitev_reaches:
  assumes "stops_at ev (i + k)" "\<forall>j < k. \<not> stops_at ev (i + j)"
  shows "\<exists>ev'. waitev_from i ev = Some (ev_run_once ev (i + k), ev')"
  using assms
proof (induction k arbitrary: i ev)
  case 0
  then show ?case by (subst waitev_unfold) simp
next
  case (Suc k)
  have "\<not> stops_at ev i" using Suc.prems(2) by (metis add.right_neutral zero_less_Suc)
  moreover have "\<exists>ev'. waitev_from (Suc i) (after_run i ev) = Some (ev_run_once ev (i + Suc k), ev')"
    using Suc.IH[of "after_run i ev" "Suc i"] Suc.prems by fastforce
  ultimately show ?case by (subst waitev_unfold) simp
qed

lemma waitev_never:
  assumes "\<forall>j \<ge> i. \<not> stops_at ev j"
  shows "waitev_from i ev = None"
proof -
  have "\<not> (\<forall>j \<ge> i. \<not> stops_at ev j)" if "waitev_from i ev = Some r" for i ev r
    using that
  proof (rule waitev_from.raw_induct[where P = "\<lambda>i ev r. \<not> (\<forall>j \<ge> i. \<not> stops_at ev j)", rotated], intro notI)
    fix f i ev r
    assume IH: "\<And>i ev r. f i ev = Some r \<Longrightarrow> \<not> (\<forall>j \<ge> i. \<not> stops_at ev j)" and n: "\<forall>j \<ge> i. \<not> stops_at ev j"
      and run: "(let ret = ev_run_once ev i; ev1 = ev\<lparr>ev_ret := ret,
            ev_reference := (if ev_flag ev AND WAIT_EV_F_REFERENCE \<noteq> 0 then ev_reference ev + 1 else ev_reference ev)\<rparr> in
        if \<not> ev_should_stop ev1 i then f (Suc i) ev1 else Some (ret, ev1)) = Some r"
    have "ev_should_stop (after_run i ev) i = stops_at ev i" by (auto simp: ev_should_stop_def stops_at_def after_run_def split: option.split)
    then have "f (Suc i) (after_run i ev) = Some r" using run n by (simp add: Let_def flip: after_run_def)
    from IH[OF this] show False using n by (metis Suc_leD stops_at_after_run)
  qed
  then show ?thesis using assms by (cases "waitev_from i ev") blast+
qed

section \<open>Properties\<close>

text \<open>The wait returns after the first call whose test says stop, with the code of that call, and not at
  all when no call does. With a stop callback that test is the callback, but only under the flag \<open>CUSTOM_STOP\<close>:
  without the flag the wait never ends. Without a callback it is the code \<open>et_waitev_finish\<close>.\<close>

theorem awoke_waitev_termination:
  assumes "awoke_waitev_create True True tk flags (Some run) stop_fn = Some ev"
  defines "test \<equiv> (case stop_fn of Some stop \<Rightarrow> (\<lambda>i. flags AND WAIT_EV_F_CUSTOM_STOP \<noteq> 0 \<and> stop i) | None \<Rightarrow> (\<lambda>i. run i = et_waitev_finish))"
  shows "(\<forall>k. test k \<and> (\<forall>j < k. \<not> test j) \<longrightarrow> (\<exists>ev'. awoke_waitev ev = Some (run k, ev'))) \<and>
    ((\<forall>k. \<not> test k) \<longrightarrow> awoke_waitev ev = None)"
proof -
  have ev: "ev = \<lparr>ev_ret = et_ok, ev_tick = tk, ev_reference = 0, ev_flag = flags, ev_run_once = run, ev_stop_fn = stop_fn\<rparr>"
    using assms(1) by (simp add: awoke_waitev_create_def split: if_splits)
  have t: "stops_at ev = test" by (rule ext) (simp add: stops_at_def test_def ev split: option.split)
  have r: "ev_run_once ev = run" by (simp add: ev)
  show ?thesis
    using waitev_reaches[of ev 0] waitev_never[of 0 ev] unfolding t r awoke_waitev_def by simp
qed

theorem awoke_waitev_termination_witness:
  "\<exists>ev ev'. awoke_waitev_create True True 1 0 (Some (\<lambda>i. if i = 3 then et_waitev_finish else et_ok)) None = Some ev \<and>
     awoke_waitev ev = Some (et_waitev_finish, ev')"
proof -
  let ?run = "\<lambda>i::nat. if i = 3 then et_waitev_finish else et_ok"
  obtain ev where ev: "awoke_waitev_create True True 1 0 (Some ?run) None = Some ev"
    by (simp add: awoke_waitev_create_def)
  show ?thesis using awoke_waitev_termination[OF ev] ev by auto
qed

end
