(* ===== verification/Condition_Action.thy ===== *)
theory Condition_Action
  imports Prelude
begin

text \<open>
  Conditions and their actions, \<open>lib/libpattern/src/condition_action.c\<close>: actions and conditions are
  registered, actions are attached to conditions, and a condition that is triggered runs its actions. The
  intrusive lists are lists of the registered objects in the order of registration (see \<open>Awoke_List\<close>). An
  action that is attached is a copy of the registered one. The callbacks act on the state of the program,
  of any type; logging is left out.
\<close>

section \<open>Model\<close>

record 'w action =
  actn_name :: string
  actn_type :: u16
  actn_fn :: "('w \<Rightarrow> err_type \<times> 'w) option"

record 'w condition =
  cond_name :: string
  cond_type :: u8
  action_list :: "'w action list"

record 'w condition_action =
  cond_list :: "'w condition list"
  actn_list :: "'w action list"

definition condition_init :: "'w condition_action" where
  "condition_init = \<lparr>cond_list = [], actn_list = []\<rparr>"

definition condition_clean :: "'w condition_action \<Rightarrow> 'w condition_action" where
  "condition_clean ca = ca\<lparr>cond_list := map (\<lambda>c. c\<lparr>action_list := []\<rparr>) (cond_list ca)\<rparr>"

definition condition_register :: "'w condition_action \<Rightarrow> 'w condition \<Rightarrow> err_type \<times> 'w condition_action" where
  "condition_register ca c = (et_ok, ca\<lparr>cond_list := cond_list ca @ [c\<lparr>action_list := []\<rparr>]\<rparr>)"

definition action_register :: "'w condition_action \<Rightarrow> 'w action \<Rightarrow> err_type \<times> 'w condition_action" where
  "action_register ca a = (et_ok, ca\<lparr>actn_list := actn_list ca @ [a]\<rparr>)"

text \<open>\<open>_cond_action_add\<close> on the first condition of the type.\<close>

fun u_cond_action_add :: "u8 \<Rightarrow> 'w action \<Rightarrow> 'w condition list \<Rightarrow> 'w condition list" where
  "u_cond_action_add ty a [] = []"
| "u_cond_action_add ty a (c # cs) =
     (if cond_type c = ty then c\<lparr>action_list := action_list c @ [a]\<rparr> # cs else c # u_cond_action_add ty a cs)"

definition find_condition :: "u8 \<Rightarrow> 'w condition_action \<Rightarrow> 'w condition option" where
  "find_condition ty ca = List.find (\<lambda>c. cond_type c = ty) (cond_list ca)"

definition find_action :: "'w condition_action \<Rightarrow> u16 \<Rightarrow> 'w action option" where
  "find_action ca ty = List.find (\<lambda>a. actn_type a = ty) (actn_list ca)"

definition condition_action_add ::
  "bool \<Rightarrow> 'w condition_action \<Rightarrow> u8 \<Rightarrow> u16 \<Rightarrow> err_type \<times> 'w condition_action" where
  "condition_action_add alloc ca ctype atype =
     (case find_action ca atype of
        Some a \<Rightarrow>
          (if \<not> alloc then (et_nomem, ca)
           else if find_condition ctype ca \<noteq> None
           then (et_ok, ca\<lparr>cond_list := u_cond_action_add ctype a (cond_list ca)\<rparr>)
           else (et_fail, ca))
      | None \<Rightarrow> (et_fail, ca))"

fun tigger_actions :: "'w action list \<Rightarrow> 'w \<Rightarrow> err_type \<times> 'w" where
  "tigger_actions [] w = (et_ok, w)"
| "tigger_actions (a # as) w = (case actn_fn a of
      None \<Rightarrow> tigger_actions as w
    | Some f \<Rightarrow> (case f w of (ret, w') \<Rightarrow> if ret \<noteq> et_ok then (ret, w') else tigger_actions as w'))"

definition tigger_action :: "'w condition \<Rightarrow> 'w \<Rightarrow> err_type \<times> 'w" where
  "tigger_action cond w = tigger_actions (action_list cond) w"

definition condition_tigger :: "'w condition_action \<Rightarrow> u8 \<Rightarrow> 'w \<Rightarrow> err_type \<times> 'w" where
  "condition_tigger ca ty w = (case find_condition ty ca of
      Some cond \<Rightarrow> tigger_action cond w
    | None \<Rightarrow> (et_fail, w))"

section \<open>The abstract table\<close>

text \<open>What a client sees: for every type of a registered condition the actions attached to it, in order.\<close>

definition attached :: "'w condition_action \<Rightarrow> u8 \<Rightarrow> 'w action list option" where
  "attached ca ty = map_option action_list (find_condition ty ca)"

lemma find_append: "List.find P (xs @ ys) = (case List.find P xs of Some x \<Rightarrow> Some x | None \<Rightarrow> List.find P ys)"
  by (induction xs) (auto split: option.split)

lemma attached_init: "attached condition_init = Map.empty"
  by (rule ext) (simp add: attached_def find_condition_def condition_init_def)

lemma attached_register:
  "attached (snd (condition_register ca c)) =
     (if attached ca (cond_type c) = None then (attached ca)(cond_type c \<mapsto> []) else attached ca)"
  by (rule ext) (auto simp: attached_def find_condition_def condition_register_def find_append split: option.split)

lemma attached_action_register: "attached (snd (action_register ca a)) = attached ca"
  by (rule ext) (simp add: attached_def find_condition_def action_register_def)

lemma attached_clean: "attached (condition_clean ca) = (\<lambda>ty. map_option (\<lambda>as. []) (attached ca ty))"
proof (rule ext)
  fix ty
  have "List.find (\<lambda>c. cond_type c = ty) (map (\<lambda>c. c\<lparr>action_list := []\<rparr>) cs) =
      map_option (\<lambda>c. c\<lparr>action_list := []\<rparr>) (List.find (\<lambda>c. cond_type c = ty) cs)" for cs :: "'a condition list"
    by (induction cs) auto
  then show "attached (condition_clean ca) ty = map_option (\<lambda>as. []) (attached ca ty)"
    by (simp add: attached_def find_condition_def condition_clean_def option.map_comp comp_def)
qed

lemma find_add:
  "List.find (\<lambda>c. cond_type c = t) (u_cond_action_add ty a cs) =
     map_option (\<lambda>c. if t = ty then c\<lparr>action_list := action_list c @ [a]\<rparr> else c) (List.find (\<lambda>c. cond_type c = t) cs)"
  by (induction cs) (auto simp: map_option_case split: option.split)

lemma attached_add:
  assumes "find_action ca at = Some a" "attached ca ct = Some as"
  shows "condition_action_add True ca ct at = (et_ok, ca\<lparr>cond_list := u_cond_action_add ct a (cond_list ca)\<rparr>)"
    and "attached (snd (condition_action_add True ca ct at)) = (attached ca)(ct \<mapsto> as @ [a])"
proof -
  obtain c where c: "find_condition ct ca = Some c" "action_list c = as" using assms(2) by (auto simp: attached_def)
  show eq: "condition_action_add True ca ct at = (et_ok, ca\<lparr>cond_list := u_cond_action_add ct a (cond_list ca)\<rparr>)"
    using assms(1) c by (simp add: condition_action_add_def)
  show "attached (snd (condition_action_add True ca ct at)) = (attached ca)(ct \<mapsto> as @ [a])"
    unfolding eq using c by (auto simp: attached_def find_condition_def find_add option.map_comp comp_def intro!: ext)
qed

lemma find_action_add [simp]: "find_action (snd (condition_action_add alloc ca ct at)) = find_action ca"
  by (rule ext) (simp add: condition_action_add_def find_action_def split: option.split)

text \<open>Attaching a whole sequence of actions.\<close>

fun add_all :: "'w condition_action \<Rightarrow> (u8 \<times> u16) list \<Rightarrow> 'w condition_action" where
  "add_all ca [] = ca"
| "add_all ca ((ct, at) # ps) = add_all (snd (condition_action_add True ca ct at)) ps"

lemma add_refused:
  "find_action ca at = None \<or> attached ca ct = None \<Longrightarrow> condition_action_add True ca ct at = (et_fail, ca)"
  by (auto simp: condition_action_add_def attached_def split: option.split)

text \<open>The actions a sequence of calls attaches to one type, given what is registered.\<close>

definition chosen :: "(u16 \<Rightarrow> 'w action option) \<Rightarrow> u8 \<Rightarrow> (u8 \<times> u16) list \<Rightarrow> 'w action list" where
  "chosen reg ty ps = List.map_filter (\<lambda>p. if fst p = ty then reg (snd p) else None) ps"

lemma chosen_simps [simp]:
  "chosen reg ty [] = []"
  "chosen reg ty ((ct, at) # ps) = (if ct = ty then (case reg at of Some a \<Rightarrow> a # chosen reg ty ps | None \<Rightarrow> chosen reg ty ps) else chosen reg ty ps)"
  by (simp_all add: chosen_def map_filter_simps split: option.split)

lemma attached_add_all:
  "attached (add_all ca ps) ty =
     map_option (\<lambda>as. as @ chosen (find_action ca) ty ps) (attached ca ty)"
proof (induction ps arbitrary: ca)
  case Nil
  then show ?case by (simp add: option.map_ident)
next
  case (Cons p ps)
  obtain ct at where p: "p = (ct, at)" by (cases p)
  show ?case
  proof (cases "\<exists>a as. find_action ca at = Some a \<and> attached ca ct = Some as")
    case True
    then obtain a as where a: "find_action ca at = Some a" "attached ca ct = Some as" by blast
    show ?thesis using attached_add(2)[OF a] Cons.IH[of "snd (condition_action_add True ca ct at)"] a
      by (simp add: p option.map_comp comp_def)
  next
    case False
    then have "condition_action_add True ca ct at = (et_fail, ca)" by (intro add_refused) auto
    then have "attached (add_all ca (p # ps)) ty = attached (add_all ca ps) ty" by (simp add: p)
    then show ?thesis using Cons.IH[of ca] False by (auto simp: p map_option_case split: option.split)
  qed
qed

section \<open>Properties\<close>

text \<open>Triggering a condition runs exactly the actions attached to it, in the order in which they were
  attached, each as often as it was attached and each the one registered first under its type, and stops
  at the first error, which it returns; the type of a condition that is not registered is an error and
  changes nothing.\<close>

theorem condition_tigger_runs_attached:
  assumes "\<forall>c \<in> set (cond_list ca). action_list c = []"
  shows "condition_tigger (add_all ca ps) ty w =
    (if \<exists>c \<in> set (cond_list ca). cond_type c = ty
     then tigger_actions (chosen (find_action ca) ty ps) w
     else (et_fail, w))"
proof -
  have e: "attached ca ty = (if \<exists>c \<in> set (cond_list ca). cond_type c = ty then Some [] else None)"
  proof (cases "find_condition ty ca")
    case None
    then show ?thesis by (simp add: attached_def find_condition_def find_None_iff)
  next
    case (Some c)
    then have "c \<in> set (cond_list ca)" "cond_type c = ty" by (auto simp: find_condition_def find_Some_iff)
    then show ?thesis using Some assms by (auto simp: attached_def)
  qed
  have "condition_tigger ca' ty w = (case attached ca' ty of Some as \<Rightarrow> tigger_actions as w | None \<Rightarrow> (et_fail, w))" for ca'
    by (simp add: condition_tigger_def attached_def tigger_action_def split: option.split)
  then show ?thesis using attached_add_all[of ca ps ty] e by simp
qed

definition log_action :: "u16 \<Rightarrow> char \<Rightarrow> err_type \<Rightarrow> string action" where
  "log_action ty x ret = \<lparr>actn_name = [x], actn_type = ty, actn_fn = Some (\<lambda>w. (ret, w @ [x]))\<rparr>"

definition sample_ca :: "string condition_action" where
  "sample_ca = \<lparr>cond_list = [\<lparr>cond_name = ''c'', cond_type = 1, action_list = []\<rparr>],
     actn_list = [log_action 1 CHR ''a'' et_ok, log_action 2 CHR ''b'' et_fail, log_action 3 CHR ''c'' et_ok]\<rparr>"

theorem condition_tigger_runs_attached_witness:
  "condition_tigger (add_all sample_ca [(1, 3), (1, 1), (2, 1), (1, 2), (1, 1)]) 1 [] = (et_fail, ''cab'')"
proof -
  have "\<forall>c \<in> set (cond_list sample_ca). action_list c = []" by (simp add: sample_ca_def)
  note run = condition_tigger_runs_attached[OF this, of "[(1, 3), (1, 1), (2, 1), (1, 2), (1, 1)]" 1 "[]"]
  show ?thesis unfolding run by (simp add: sample_ca_def find_action_def log_action_def)
qed

text \<open>What running a list of actions means: all of them without an error, or up to the first one.\<close>

lemma tigger_actions_append:
  "tigger_actions (as @ bs) w = (case tigger_actions as w of (ret, w') \<Rightarrow> if ret \<noteq> et_ok then (ret, w') else tigger_actions bs w')"
  by (induction as arbitrary: w) (auto split: option.split prod.split)

end
