(* ===== verification/Awoke_Tree.thy ===== *)
theory Awoke_Tree
  imports Prelude "HOL-Library.Tree"
begin

text \<open>
  The binary search tree of \<open>lib/libutil/src/awoke_tree.c\<close>. A node of the program and what hangs below it is a
  tree; a NULL pointer is a leaf. The comparison function is a parameter. A node is added as it is, with
  whatever its child pointers hold; the contract of the client is that they are NULL. The interface
  \<open>ordered_set\<close> says what such a structure promises; it is interpreted on the tree.
\<close>

section \<open>Model\<close>

record 'a awoke_btree =
  root :: "'a tree"
  compare :: "('a \<Rightarrow> 'a \<Rightarrow> int) option"

definition awoke_btree_init :: "('a \<Rightarrow> 'a \<Rightarrow> int) option \<Rightarrow> 'a awoke_btree" where
  "awoke_btree_init cmp = \<lparr>root = Leaf, compare = cmp\<rparr>"

fun btree_add :: "('a \<Rightarrow> 'a \<Rightarrow> int) \<Rightarrow> 'a tree \<Rightarrow> 'a tree \<Rightarrow> 'a tree" where
  "btree_add cmp (Node l x r) n =
     (let c = cmp (value n) x in
      if c < 0 then (if l = Leaf then Node n x r else Node (btree_add cmp l n) x r)
      else if c > 0 then (if r = Leaf then Node l x n else Node l x (btree_add cmp r n))
      else Node l x r)"
| "btree_add cmp Leaf n = Leaf"

text \<open>The node to add: NULL, or a node with its children.\<close>

definition awoke_btree_add :: "'a awoke_btree option \<Rightarrow> 'a tree option \<Rightarrow> err_type \<times> 'a awoke_btree option" where
  "awoke_btree_add t n = (case (t, n) of
      (Some b, Some node) \<Rightarrow>
        (case compare b of
           None \<Rightarrow> (et_param, t)
         | Some cmp \<Rightarrow> (et_ok, Some (b\<lparr>root := (if root b = Leaf then node else btree_add cmp (root b) node)\<rparr>)))
    | _ \<Rightarrow> (et_param, t))"

fun awoke_btree_inorder :: "'a tree \<Rightarrow> ('a \<Rightarrow> 'w \<Rightarrow> 'w) \<Rightarrow> 'w \<Rightarrow> 'w" where
  "awoke_btree_inorder Leaf pfn w = w"
| "awoke_btree_inorder (Node l x r) pfn w = awoke_btree_inorder r pfn (pfn x (awoke_btree_inorder l pfn w))"

definition awoke_btree_traverse :: "'a awoke_btree option \<Rightarrow> ('a \<Rightarrow> 'w \<Rightarrow> 'w) \<Rightarrow> 'w \<Rightarrow> 'w" where
  "awoke_btree_traverse t pfn w = (case t of None \<Rightarrow> w | Some b \<Rightarrow> awoke_btree_inorder (root b) pfn w)"

section \<open>The interface\<close>

text \<open>A set of elements with a key, kept in the order of the keys: an element whose key is present is ignored.\<close>

locale ordered_set =
  fixes key :: "'a \<Rightarrow> 'k::linorder"
    and empty :: 's
    and add :: "'s \<Rightarrow> 'a \<Rightarrow> 's"
    and elems :: "'s \<Rightarrow> 'a list"
    and ok :: "'s \<Rightarrow> bool"
  assumes ok_empty: "ok empty"
    and elems_empty: "elems empty = []"
    and ok_add: "ok s \<Longrightarrow> ok (add s x)"
    and elems_add: "ok s \<Longrightarrow> set (elems (add s x)) = (if key x \<in> key ` set (elems s) then set (elems s) else insert x (set (elems s)))"
    and ok_sorted: "ok s \<Longrightarrow> sorted_wrt (<) (map key (elems s))"
begin

lemma add_list_ok: "ok s \<Longrightarrow> ok (fold (\<lambda>x s. add s x) xs s)"
  by (induction xs arbitrary: s) (simp_all add: ok_add)

lemma add_list_keys: "ok s \<Longrightarrow> key ` set (elems (fold (\<lambda>x s. add s x) xs s)) = key ` set (elems s) \<union> key ` set xs"
proof (induction xs arbitrary: s)
  case (Cons x xs)
  have "key ` set (elems (add s x)) = insert (key x) (key ` set (elems s))" using elems_add[OF Cons.prems, of x] by auto
  then show ?case using Cons.IH[OF ok_add[OF Cons.prems]] by simp
qed simp

lemma add_list_from: "ok s \<Longrightarrow> set (elems (fold (\<lambda>x s. add s x) xs s)) \<subseteq> set (elems s) \<union> set xs"
proof (induction xs arbitrary: s)
  case (Cons x xs)
  have "set (elems (add s x)) \<subseteq> insert x (set (elems s))" using elems_add[OF Cons.prems, of x] by auto
  then show ?case using Cons.IH[OF ok_add[OF Cons.prems]] by auto
qed simp

lemma sorted_keys: "map key (elems (fold (\<lambda>x s. add s x) xs empty)) = sorted_list_of_set (key ` set xs)"
proof (rule sorted_distinct_set_unique)
  have s: "sorted_wrt (<) (map key (elems (fold (\<lambda>x s. add s x) xs empty)))" using ok_sorted[OF add_list_ok[OF ok_empty]] .
  then show "sorted (map key (elems (fold (\<lambda>x s. add s x) xs empty)))" "distinct (map key (elems (fold (\<lambda>x s. add s x) xs empty)))"
    by (simp_all add: strict_sorted_iff)
  show "set (map key (elems (fold (\<lambda>x s. add s x) xs empty))) = set (sorted_list_of_set (key ` set xs))"
    using add_list_keys[OF ok_empty, of xs] elems_empty by simp
qed simp_all

end

section \<open>The tree provides it\<close>

definition compares :: "('a \<Rightarrow> 'a \<Rightarrow> int) \<Rightarrow> ('a \<Rightarrow> 'k::linorder) \<Rightarrow> bool" where
  "compares cmp key \<longleftrightarrow> (\<forall>x y. (cmp x y < 0 \<longleftrightarrow> key x < key y) \<and> (cmp x y > 0 \<longleftrightarrow> key y < key x))"

text \<open>The search tree property, by key.\<close>

fun search_tree :: "('a \<Rightarrow> 'k::linorder) \<Rightarrow> 'a tree \<Rightarrow> bool" where
  "search_tree key Leaf = True"
| "search_tree key (Node l x r) \<longleftrightarrow> search_tree key l \<and> search_tree key r \<and>
     (\<forall>y \<in> set_tree l. key y < key x) \<and> (\<forall>y \<in> set_tree r. key x < key y)"

abbreviation leaf_node :: "'a \<Rightarrow> 'a tree" where
  "leaf_node x \<equiv> Node Leaf x Leaf"

lemma btree_add_set:
  assumes "compares cmp key" "search_tree key t" "t \<noteq> Leaf"
  shows "set_tree (btree_add cmp t (leaf_node x)) =
    (if key x \<in> key ` set_tree t then set_tree t else insert x (set_tree t))"
  using assms(2,3)
proof (induction t)
  case (Node l y r)
  consider "cmp x y < 0" "key x < key y" | "cmp x y > 0" "key y < key x" | "\<not> cmp x y < 0" "\<not> cmp x y > 0" "key x = key y"
    using assms(1) unfolding compares_def by (metis not_less_iff_gr_or_eq)
  then show ?case
  proof cases
    case 1
    then have "key x \<notin> key ` set_tree r" using Node.prems(1) by fastforce
    then show ?thesis using 1 Node by (auto simp: Let_def)
  next
    case 2
    then have "key x \<notin> key ` set_tree l" using Node.prems(1) by fastforce
    then show ?thesis using 2 Node by (auto simp: Let_def)
  next
    case 3
    then show ?thesis by (simp add: Let_def)
  qed
qed simp

lemma btree_add_subset: "set_tree (btree_add cmp t (leaf_node x)) \<subseteq> insert x (set_tree t)"
  by (induction t) (auto simp: Let_def)

lemma btree_add_search:
  assumes "compares cmp key" "search_tree key t" "t \<noteq> Leaf"
  shows "search_tree key (btree_add cmp t (leaf_node x))"
  using assms(2,3)
proof (induction t)
  case (Node l y r)
  have cmp: "cmp x y < 0 \<longleftrightarrow> key x < key y" "cmp x y > 0 \<longleftrightarrow> key y < key x" using assms(1) by (simp_all add: compares_def)
  have l: "\<forall>z \<in> set_tree (btree_add cmp l (leaf_node x)). key z < key y" if "key x < key y"
    using btree_add_subset[of cmp l x] Node.prems(1) that by auto
  have r: "\<forall>z \<in> set_tree (btree_add cmp r (leaf_node x)). key y < key z" if "key y < key x"
    using btree_add_subset[of cmp r x] Node.prems(1) that by auto
  consider "cmp x y < 0" | "cmp x y > 0" | "\<not> cmp x y < 0" "\<not> cmp x y > 0" by linarith
  then show ?case
  proof cases
    case 1
    then show ?thesis using Node.IH(1) Node.prems cmp l by (simp add: Let_def)
  next
    case 2
    then show ?thesis using Node.IH(2) Node.prems cmp r by (simp add: Let_def)
  next
    case 3
    then show ?thesis using Node.prems by (simp add: Let_def)
  qed
qed simp

lemma inorder_fold: "awoke_btree_inorder t pfn w = fold pfn (inorder t) w"
  by (induction t arbitrary: w) simp_all

lemma search_tree_sorted: "search_tree key t \<Longrightarrow> sorted_wrt (<) (map key (inorder t))"
proof (induction t)
  case (Node l x r)
  have "key y < key z" if "y \<in> set_tree l" "z \<in> set_tree r" for y z
    using Node.prems that by (auto intro: less_trans[of "key y" "key x" "key z"])
  then show ?case using Node by (auto simp: sorted_wrt_append)
qed simp

text \<open>A tree that was initialised with the comparison; adding an element adds a node without children.\<close>

definition btree_ok :: "('a \<Rightarrow> 'a \<Rightarrow> int) \<Rightarrow> ('a \<Rightarrow> 'k::linorder) \<Rightarrow> 'a awoke_btree \<Rightarrow> bool" where
  "btree_ok cmp key b \<longleftrightarrow> compare b = Some cmp \<and> search_tree key (root b)"

definition add_elem :: "'a awoke_btree \<Rightarrow> 'a \<Rightarrow> 'a awoke_btree" where
  "add_elem b x = the (snd (awoke_btree_add (Some b) (Some (leaf_node x))))"

definition visited :: "'a awoke_btree \<Rightarrow> 'a list" where
  "visited b = awoke_btree_traverse (Some b) (\<lambda>x w. w @ [x]) []"

lemma visited_inorder: "visited b = inorder (root b)"
proof -
  have "fold (\<lambda>x w. w @ [x]) xs w = w @ xs" for xs w :: "'a list" by (induction xs arbitrary: w) simp_all
  then show ?thesis by (simp add: visited_def awoke_btree_traverse_def inorder_fold)
qed

lemma add_elem_root:
  "compare b = Some cmp \<Longrightarrow> add_elem b x = b\<lparr>root := (if root b = Leaf then leaf_node x else btree_add cmp (root b) (leaf_node x))\<rparr>"
  by (simp add: add_elem_def awoke_btree_add_def)

definition int_compare :: "int \<Rightarrow> int \<Rightarrow> int" where
  "int_compare x y = x - y"

lemma int_compare_ok: "compares int_compare id"
  by (simp add: compares_def int_compare_def)

lemma btree_ordered_set:
  assumes c: "compares cmp key"
  shows "ordered_set key (awoke_btree_init (Some cmp)) add_elem visited (btree_ok cmp key)"
proof
  show "btree_ok cmp key (awoke_btree_init (Some cmp))" "visited (awoke_btree_init (Some cmp)) = []"
    by (simp_all add: btree_ok_def awoke_btree_init_def visited_inorder)
next
  fix b x
  assume b: "btree_ok cmp key b"
  show "btree_ok cmp key (add_elem b x)"
    using b btree_add_search[OF c, of "root b" x] by (auto simp: btree_ok_def add_elem_root)
  show "set (visited (add_elem b x)) = (if key x \<in> key ` set (visited b) then set (visited b) else insert x (set (visited b)))"
    using b btree_add_set[OF c, of "root b" x] by (auto simp: btree_ok_def add_elem_root visited_inorder)
  show "sorted_wrt (<) (map key (visited b))" using b search_tree_sorted[of key "root b"] by (simp add: btree_ok_def visited_inorder)
qed

interpretation int_tree: ordered_set id "awoke_btree_init (Some int_compare)" add_elem visited "btree_ok int_compare id"
  by (rule btree_ordered_set[OF int_compare_ok])

section \<open>Properties\<close>

text \<open>C37: with a comparison that agrees with an order of keys, adding any sequence of nodes to an empty tree
  succeeds every time and the traversal then visits, in ascending order, exactly one of the added elements for every key that
  was added; the trees are search trees throughout.\<close>

theorem awoke_btree_sorts:
  assumes "compares cmp key" and b_def: "b = fold (\<lambda>x b. add_elem b x) xs (awoke_btree_init (Some cmp))"
  shows "map key (visited b) = sorted_list_of_set (key ` set xs) \<and> set (visited b) \<subseteq> set xs \<and> search_tree key (root b) \<and>
    (\<forall>x. awoke_btree_add (Some b) (Some (leaf_node x)) = (et_ok, Some (add_elem b x)))"
proof -
  have os: "ordered_set key (awoke_btree_init (Some cmp)) add_elem visited (btree_ok cmp key)" by (rule btree_ordered_set[OF assms(1)])
  have ok: "btree_ok cmp key b" unfolding b_def by (rule ordered_set.add_list_ok[OF os ordered_set.ok_empty[OF os]])
  have "map key (visited b) = sorted_list_of_set (key ` set xs)" unfolding b_def by (rule ordered_set.sorted_keys[OF os])
  moreover have "set (visited b) \<subseteq> set xs" unfolding b_def
    using ordered_set.add_list_from[OF os ordered_set.ok_empty[OF os], of xs] ordered_set.elems_empty[OF os] by simp
  ultimately show ?thesis using ok by (auto simp: btree_ok_def add_elem_def awoke_btree_add_def)
qed

theorem awoke_btree_sorts_witness:
  "visited (fold (\<lambda>x b. add_elem b x) [3, 1, 2, 3] (awoke_btree_init (Some int_compare))) = [1, 2, 3]"
proof -
  have "sorted_list_of_set (id ` set [3, 1, 2, 3 :: int]) = [1, 2, 3]"
    using sorted_list_of_set_sort_remdups[of "[3, 1, 2, 3 :: int]"] by simp
  then show ?thesis using awoke_btree_sorts[OF int_compare_ok refl, of "[3, 1, 2, 3]"] by simp
qed

text \<open>The child pointers of an added node are taken over: what hangs below it becomes part of the tree.\<close>

lemma awoke_btree_add_keeps_children:
  "visited (the (snd (awoke_btree_add (Some (awoke_btree_init (Some cmp))) (Some n)))) = inorder n"
  by (simp add: awoke_btree_add_def awoke_btree_init_def visited_inorder)

end
