(* ===== verification/Sec_Padding.thy ===== *)
theory Sec_Padding
  imports Prelude
begin

text \<open>
  Padding of texts to a multiple of a block size, \<open>lib/libsecurity/src/sec_padding.c\<close>, with the macro
  \<open>_buf_push_safe\<close> of \<open>awoke_macros.h\<close> it writes with. A text is its bytes before the terminator.
\<close>

section \<open>Model\<close>

definition sec_align :: "int \<Rightarrow> int \<Rightarrow> int option" where
  "sec_align in_len align =
     (if in_len = align then Some align
      else do { q \<leftarrow> c_div in_len align; Some ((q + 1) * align) })"

text \<open>The macro compares the room that is left, as an unsigned 64-bit number, with the length; without any
  room left it copies all the same. \<open>bend\<close> and \<open>p\<close> are offsets into the block.\<close>

definition buf_push_safe :: "bytes \<Rightarrow> bytes \<Rightarrow> int \<Rightarrow> int \<Rightarrow> (bytes \<times> int) option" where
  "buf_push_safe block dat p bend =
     (let len = int (length dat); room = bend - p + 1 in
      if room mod 2 ^ 64 \<ge> len \<or> room = 0
      then do { block' \<leftarrow> mem_write block p dat; Some (block', p + len) }
      else Some (block, p + len))"

primrec push_times :: "nat \<Rightarrow> u8 \<Rightarrow> int \<Rightarrow> bytes \<times> int \<Rightarrow> (bytes \<times> int) option" where
  "push_times 0 c bend bp = Some bp"
| "push_times (Suc n) c bend bp = do {
     bp' \<leftarrow> buf_push_safe (fst bp) [c] (snd bp) bend;
     push_times n c bend bp' }"

text \<open>The result is NULL, or the new block and its length. The allocation is not checked.\<close>

definition sec_string_padding :: "allocator \<Rightarrow> bytes option \<Rightarrow> u8 \<Rightarrow> int \<Rightarrow> (bytes \<times> int) option option" where
  "sec_string_padding alloc s c align = (case s of
      None \<Rightarrow> Some None
    | Some t \<Rightarrow>
        (if align \<le> 0 then Some None
         else
           (let len = int (length t);
                align_len = (if len = align then align else (len div align + 1) * align) in
            if \<not> alloc (nat align_len) then None
            else do {
              bp1 \<leftarrow> buf_push_safe (zeros (nat align_len)) t 0 (align_len - 1);
              bp2 \<leftarrow> push_times (nat (align_len - len)) c (align_len - 1) bp1;
              Some (Some (fst bp2, align_len)) })))"

section \<open>Properties\<close>

lemma buf_push_fits:
  assumes "length dat \<le> length rest" "length (pre @ rest) < 2 ^ 64" "dat \<noteq> [] \<or> rest \<noteq> []"
  shows "buf_push_safe (pre @ rest) dat (int (length pre)) (int (length (pre @ rest)) - 1) =
    Some (pre @ dat @ drop (length dat) rest, int (length (pre @ dat)))"
proof -
  have room: "int (length (pre @ rest)) - 1 - int (length pre) + 1 = int (length rest)" by simp
  have "int (length rest) mod 2 ^ 64 = int (length rest)" using assms(2) by (intro mod_pos_pos_trivial) simp_all
  then show ?thesis using assms(1) unfolding buf_push_safe_def Let_def room by (simp add: mem_write_def)
qed

lemma push_times_fits:
  assumes "length (pre @ rest) < 2 ^ 64" "n = length rest"
  shows "push_times n c (int (length (pre @ rest)) - 1) (pre @ rest, int (length pre)) = Some (pre @ replicate n c, int (length (pre @ rest)))"
  using assms
proof (induction n arbitrary: pre rest)
  case (Suc n)
  then obtain r rs where r: "rest = r # rs" "length rs = n" by (metis length_Suc_conv)
  have l: "length (pre @ rest) = length ((pre @ [c]) @ rs)" using r by simp
  have "buf_push_safe (pre @ rest) [c] (int (length pre)) (int (length (pre @ rest)) - 1) = Some (pre @ [c] @ rs, int (length (pre @ [c])))"
    using buf_push_fits[OF _ Suc.prems(1), of "[c]"] unfolding r(1) by simp
  moreover have "push_times n c (int (length ((pre @ [c]) @ rs)) - 1) ((pre @ [c]) @ rs, int (length (pre @ [c]))) =
      Some ((pre @ [c]) @ replicate n c, int (length ((pre @ [c]) @ rs)))"
    using Suc.IH[OF Suc.prems(1)[unfolded l]] r(2) by simp
  ultimately show ?case unfolding l[symmetric] by simp
qed simp

text \<open>Padding returns the text followed by as many padding bytes as bring it to the length that
  \<open>sec_align\<close> computes, a multiple of the block size: the text alone when it is exactly one block long, and
  otherwise at least one byte of padding, so a text of several whole blocks grows by one block.\<close>

theorem sec_string_padding_correct:
  assumes "0 < align" "length t + nat align < 2 ^ 31" "\<And>n. alloc n"
  shows "\<exists>n. sec_align (int (length t)) align = Some (int n) \<and> align dvd int n \<and> length t \<le> n \<and>
    (length t \<noteq> nat align \<longrightarrow> length t < n \<and> n \<le> length t + nat align) \<and>
    sec_string_padding alloc (Some t) c align = Some (Some (t @ replicate (n - length t) c, int n))"
proof -
  define A where "A = (if int (length t) = align then align else (int (length t) div align + 1) * align)"
  define n where "n = nat A"
  have q: "int (length t) div align * align \<le> int (length t)" "int (length t) < (int (length t) div align + 1) * align"
    using div_mult_mod_eq[of "int (length t)" align] pos_mod_sign[OF assms(1), of "int (length t)"] pos_mod_bound[OF assms(1), of "int (length t)"]
    unfolding distrib_right by linarith+
  have A0: "0 \<le> int (length t) div align" using assms(1) by (simp add: pos_imp_zdiv_nonneg_iff)
  have A: "int n = A" "align dvd A" "int (length t) \<le> A" using q assms(1) A0 by (auto simp: A_def n_def)
  have up: "length t < n \<and> n \<le> length t + nat align" if "length t \<noteq> nat align"
  proof -
    have ne: "int (length t) \<noteq> align" using that assms(1) by auto
    then have "A = int (length t) div align * align + align" by (simp add: A_def algebra_simps)
    then show ?thesis using q A(1) ne assms(1) unfolding A_def by (auto simp: algebra_simps)
  qed
  have n31: "n < 2 ^ 64"
  proof (cases "length t = nat align")
    case True
    then have "n = nat align" using assms(1) by (simp add: n_def A_def)
    then show ?thesis using assms(2) by simp
  qed (use up assms(2) in auto)
  have p1: "buf_push_safe (zeros n) t 0 (int n - 1) = Some (t @ zeros (n - length t), int (length t))"
  proof (cases "n = 0")
    case True
    then show ?thesis using A by (simp add: buf_push_safe_def mem_write_def)
  next
    case False
    then show ?thesis using buf_push_fits[of t "zeros n" "[]"] A n31 by simp
  qed
  have l: "length (t @ zeros (n - length t)) = n" using A by simp
  have p2: "push_times (n - length t) c (int n - 1) (t @ zeros (n - length t), int (length t)) = Some (t @ replicate (n - length t) c, int n)"
    using push_times_fits[of t "zeros (n - length t)" "n - length t" c] n31 unfolding l by simp
  have "nat (A - int (length t)) = n - length t" using A by linarith
  then have "sec_string_padding alloc (Some t) c align = Some (Some (t @ replicate (n - length t) c, int n))"
    using assms(1,3) p1 p2 A(1) by (simp add: sec_string_padding_def Let_def flip: A_def n_def)
  moreover have "sec_align (int (length t)) align = Some (int n)"
    using A(1) assms(1) by (simp add: sec_align_def c_div_nonneg A_def)
  ultimately show ?thesis using A up by auto
qed

theorem sec_string_padding_correct_witness:
  "sec_string_padding (\<lambda>n. True) (Some [1, 2, 3, 4, 5, 6, 7, 8]) 0 4 = Some (Some ([1, 2, 3, 4, 5, 6, 7, 8, 0, 0, 0, 0], 12))"
proof -
  have "sec_align 8 4 = Some 12" by (simp add: sec_align_def c_div_def)
  then obtain n where n: "int n = 12"
    "sec_string_padding (\<lambda>n. True) (Some [1, 2, 3, 4, 5, 6, 7, 8]) 0 4 = Some (Some ([1, 2, 3, 4, 5, 6, 7, 8] @ replicate (n - 8) 0, int n))"
    using sec_string_padding_correct[of 4 "[1, 2, 3, 4, 5, 6, 7, 8]" "\<lambda>n. True" 0] by auto
  have "n - 8 = Suc (Suc (Suc (Suc 0)))" using n(1) by linarith
  then have "replicate (n - 8) 0 = [0, 0, 0, 0 :: u8]" by simp
  then show ?thesis using n by simp
qed

end
