(* ===== verification/Awoke_Rtmsg.thy ===== *)
theory Awoke_Rtmsg
  imports Prelude
begin

text \<open>
  The messages of the router, \<open>lib/librtmsg/src/awoke_rtmsg.c\<close>. A message in memory is a block: the 40
  bytes of the header structure on a little-endian 64-bit machine, then the data. On the wire it is the
  same bytes. The system calls are parameters: \<open>wr\<close> is the outcome of \<open>write\<close> on the bytes handed to it,
  \<open>rd i n\<close> the outcome of the \<open>i\<close>-th \<open>read\<close> of up to \<open>n\<close> bytes (an \<open>errno\<close>, or the bytes, none of them at
  the end of the stream), \<open>wait i\<close> the result of the \<open>select\<close> before that \<open>read\<close> and whether the descriptor
  is in its set. The kernel moves at most 0x7ffff000 bytes in a call, so the results fit \<open>int\<close>. \<open>None\<close> is a call that is undefined or does not return.
\<close>

section \<open>Model\<close>

definition app_none :: u32 where "app_none = 0"
definition app_message_router :: u32 where "app_message_router = 1"
definition app_test_server :: u32 where "app_test_server = 2"
definition app_test_client :: u32 where "app_test_client = 3"
definition app_max :: u32 where "app_max = 4"

definition rtmsg_associate :: u32 where "rtmsg_associate = 0x13000001"
definition rtmsg_disassociate :: u32 where "rtmsg_disassociate = 0x13000002"
definition rtmsg_client_online :: u32 where "rtmsg_client_online = 0x13000021"

record rtmsg_handle =
  h_fd :: int
  h_rid :: u32

record rtmsg_header =
  src :: u32
  dst :: u32
  msg_type :: u32
  f_event :: u16
  f_request :: u16
  f_response :: u16
  f_broadcast :: u16
  word :: u32
  data_len :: u32
  padding :: u32
  next_p :: u64

record rtmsg_app_info =
  ai_rid :: u32
  ai_name :: string
  ai_flags :: u32

definition RA_F_NULL :: u32 where "RA_F_NULL = 0"

definition app_info_array :: "rtmsg_app_info list" where
  "app_info_array =
    [\<lparr>ai_rid = app_none, ai_name = ''none'', ai_flags = RA_F_NULL\<rparr>,
     \<lparr>ai_rid = app_test_client, ai_name = ''test_client'', ai_flags = RA_F_NULL\<rparr>,
     \<lparr>ai_rid = app_test_server, ai_name = ''test_server'', ai_flags = RA_F_NULL\<rparr>]"

text \<open>The layout of the structure in memory.\<close>

definition header_size :: nat where "header_size = 40"

definition header_bytes :: "rtmsg_header \<Rightarrow> bytes" where
  "header_bytes h = le_bytes 4 (unat (src h)) @ le_bytes 4 (unat (dst h)) @ le_bytes 4 (unat (msg_type h)) @
     le_bytes 2 (unat (f_event h)) @ le_bytes 2 (unat (f_request h)) @ le_bytes 2 (unat (f_response h)) @
     le_bytes 2 (unat (f_broadcast h)) @ le_bytes 4 (unat (word h)) @ le_bytes 4 (unat (data_len h)) @
     le_bytes 4 (unat (padding h)) @ le_bytes 8 (unat (next_p h))"

text \<open>The field \<open>data_len\<close> of the header at the start of a block.\<close>

definition block_data_len :: "bytes \<Rightarrow> u32" where
  "block_data_len block = of_nat (le_nat (take 4 (drop 24 block)))"

type_synonym write_call = "bytes \<Rightarrow> int + nat"
type_synonym read_calls = "nat \<Rightarrow> nat \<Rightarrow> int + bytes"
type_synonym wait_calls = "nat \<Rightarrow> int \<times> bool"

definition EPIPE :: int where "EPIPE = 32"

text \<open>The size of a message is computed in 32 bits and wraps around.\<close>

definition rt_message_send :: "write_call \<Rightarrow> bytes \<Rightarrow> err_type option" where
  "rt_message_send wr buff = do {
     let total_size = unat (of_nat header_size + block_data_len buff);
     bs \<leftarrow> mem_read buff 0 total_size;
     (case wr bs of
        Inl errno \<Rightarrow> Some (if errno = EPIPE then et_sock_conn else et_sock_send)
      | Inr rc \<Rightarrow> Some (if rc \<noteq> total_size then et_sock_send else et_ok)) }"

text \<open>The reply is a local variable whose other fields are left as the stack had them: \<open>reply\<close> here. The
  code of an error is its number, a parameter.\<close>

definition rt_message_send_reply ::
  "(err_type \<Rightarrow> u32) \<Rightarrow> write_call \<Rightarrow> rtmsg_header \<Rightarrow> rtmsg_header \<Rightarrow> err_type \<Rightarrow> err_type option" where
  "rt_message_send_reply num wr reply header code =
     rt_message_send wr (header_bytes (reply\<lparr>dst := src header, src := dst header, msg_type := msg_type header,
       f_request := 0, f_response := 1, word := num code\<rparr>))"

definition rt_message_wait_data :: "int \<times> bool \<Rightarrow> err_type" where
  "rt_message_wait_data sel = (if fst sel = 1 \<and> snd sel then et_ok else et_sock_recv)"

text \<open>The loop that reads the data: \<open>i\<close> counts the calls.\<close>

partial_function (option) recv_body ::
  "bool \<Rightarrow> wait_calls \<Rightarrow> read_calls \<Rightarrow> nat \<Rightarrow> bytes \<Rightarrow> u32 \<Rightarrow> u32 \<Rightarrow> (err_type \<times> bytes option) option" where
  "recv_body timed wait rd i block read_size rest_size =
     (if timed \<and> rt_message_wait_data (wait i) \<noteq> et_ok then Some (rt_message_wait_data (wait i), None)
      else (case rd i (unat rest_size) of
          Inl errno \<Rightarrow> Some (et_sock_recv, None)
        | Inr d \<Rightarrow> do {
            block' \<leftarrow> mem_write block (int header_size + uint read_size) d;
            let read_size' = read_size + of_nat (length d);
            let rest_size' = rest_size - of_nat (length d);
            if read_size' < block_data_len block'
            then recv_body timed wait rd (Suc i) block' read_size' rest_size'
            else Some (et_ok, Some block') }))"

definition rt_message_recv ::
  "allocator \<Rightarrow> (nat \<Rightarrow> u8) \<Rightarrow> bool \<Rightarrow> wait_calls \<Rightarrow> read_calls \<Rightarrow> bool \<Rightarrow> (err_type \<times> bytes option) option" where
  "rt_message_recv alloc junk timed wait rd buff =
     (if \<not> buff then Some (et_fail, None)
      else if timed \<and> rt_message_wait_data (wait 0) \<noteq> et_ok then Some (rt_message_wait_data (wait 0), None)
      else if \<not> alloc header_size then Some (et_nomem, None)
      else (case rd 0 header_size of
          Inl errno \<Rightarrow> Some (if errno = 131 then et_sock_conn else et_sock_recv, None)
        | Inr d \<Rightarrow> do {
            header \<leftarrow> mem_write (zeros header_size) 0 d;
            if length d = 0 then Some (et_sock_conn, None)
            else if length d \<noteq> header_size then Some (et_sock_recv, None)
            else if block_data_len header > 0 then do {
              r \<leftarrow> mem_realloc alloc junk header (header_size + unat (block_data_len header));
              (case r of
                 None \<Rightarrow> Some (et_nomem, None)
               | Some block \<Rightarrow> recv_body timed wait rd 1 block 0 (block_data_len block)) }
            else Some (et_ok, Some header) }))"

text \<open>Opening the connection to the router: the descriptor or a negative number, the results of \<open>fcntl\<close> and
  \<open>connect\<close>. The descriptors that are closed are returned.\<close>

definition associate_header :: "u32 \<Rightarrow> rtmsg_header" where
  "associate_header rid = \<lparr>src = rid, dst = app_message_router, msg_type = rtmsg_associate, f_event = 1, f_request = 0,
     f_response = 0, f_broadcast = 0, word = 0, data_len = 0, padding = 0, next_p = 0\<rparr>"

definition rt_message_init ::
  "bool \<Rightarrow> int \<Rightarrow> int \<Rightarrow> int \<Rightarrow> write_call \<Rightarrow> u32 \<Rightarrow> (err_type \<times> rtmsg_handle option \<times> int list) option" where
  "rt_message_init alloc fd fcntl_rc connect_rc wr rid =
     (if \<not> alloc then Some (et_nomem, None, [])
      else do {
        ret \<leftarrow> (if fd < 0 then Some et_sock_creat
                else if fcntl_rc < 0 then Some et_sock_set
                else if connect_rc < 0 then Some et_sock_conn
                else rt_message_send wr (header_bytes (associate_header rid)));
        Some (if ret = et_ok then (et_ok, Some \<lparr>h_fd = fd, h_rid = rid\<rparr>, [])
              else (ret, None, if fd \<noteq> 0 then [fd] else [])) })"

definition rt_message_handle_clean :: "rtmsg_handle option \<Rightarrow> int list" where
  "rt_message_handle_clean handle = (case handle of
      None \<Rightarrow> [] | Some p \<Rightarrow> if h_fd p \<noteq> 0 then [h_fd p] else [])"

definition awoke_rtmsg_send :: "write_call \<Rightarrow> bytes \<Rightarrow> err_type option" where
  "awoke_rtmsg_send wr header = rt_message_send wr header"

text \<open>The public functions receive into their own parameter: the caller gets the code and not the message.\<close>

definition awoke_rtmsg_recv :: "allocator \<Rightarrow> (nat \<Rightarrow> u8) \<Rightarrow> wait_calls \<Rightarrow> read_calls \<Rightarrow> err_type option" where
  "awoke_rtmsg_recv alloc junk wait rd = map_option fst (rt_message_recv alloc junk False wait rd True)"

definition awoke_rtmsg_recv_timeout :: "allocator \<Rightarrow> (nat \<Rightarrow> u8) \<Rightarrow> wait_calls \<Rightarrow> read_calls \<Rightarrow> err_type option" where
  "awoke_rtmsg_recv_timeout alloc junk wait rd = map_option fst (rt_message_recv alloc junk True wait rd True)"

definition awoke_rtmsg_init ::
  "bool \<Rightarrow> int \<Rightarrow> int \<Rightarrow> int \<Rightarrow> write_call \<Rightarrow> u32 \<Rightarrow> (err_type \<times> rtmsg_handle option \<times> int list) option" where
  "awoke_rtmsg_init alloc fd fcntl_rc connect_rc wr rid = rt_message_init alloc fd fcntl_rc connect_rc wr rid"

definition awoke_rtmsg_handle_clean :: "rtmsg_handle option \<Rightarrow> int list" where
  "awoke_rtmsg_handle_clean handle = rt_message_handle_clean handle"

section \<open>The layout\<close>

lemma header_bytes_length [simp]: "length (header_bytes h) = header_size"
  by (simp add: header_bytes_def header_size_def)

lemma block_data_len_header: "block_data_len (header_bytes h @ d) = data_len h"
proof -
  have "take 4 (drop 24 (header_bytes h @ d)) = le_bytes 4 (unat (data_len h))"
    by (simp add: header_bytes_def)
  then show ?thesis using unat_u32_less[of "data_len h"] by (simp add: block_data_len_def le_nat_bytes)
qed

text \<open>The length of a block only depends on its header.\<close>

lemma block_data_len_take: "header_size \<le> length b \<Longrightarrow> take header_size b = take header_size b' \<Longrightarrow> block_data_len b = block_data_len b'"
proof -
  assume "take header_size b = take header_size b'"
  then have "take 28 (take header_size b) = take 28 (take header_size b')" by simp
  then have "take 28 b = take 28 b'" by (simp add: header_size_def)
  then have "drop 24 (take 28 b) = drop 24 (take 28 b')" by simp
  then show "block_data_len b = block_data_len b'" by (simp add: block_data_len_def drop_take)
qed

section \<open>Sending and receiving\<close>

text \<open>A message is a header and as much data as it announces.\<close>

definition message :: "rtmsg_header \<Rightarrow> bytes \<Rightarrow> bytes" where
  "message h data = header_bytes h @ data"

text \<open>The sizes that do not wrap around.\<close>

lemma total_size: "data_len h < 0xFFFFFFD8 \<Longrightarrow> unat (of_nat header_size + data_len h) = header_size + unat (data_len h)"
  by (subst unat_plus_simple[THEN iffD1]) (simp_all add: header_size_def word_le_nat_alt word_less_nat_alt unat_word_ariths)

lemma send_message:
  assumes "length data = unat (data_len h)" "data_len h < 0xFFFFFFD8"
  shows "rt_message_send wr (message h data) = Some (case wr (message h data) of
      Inl errno \<Rightarrow> if errno = EPIPE then et_sock_conn else et_sock_send
    | Inr rc \<Rightarrow> if rc = length (message h data) then et_ok else et_sock_send)"
proof -
  have "mem_read (message h data) 0 (header_size + unat (data_len h)) = Some (message h data)"
    using assms by (simp add: mem_read_def message_def)
  then show ?thesis using assms total_size[OF assms(2)] by (simp add: rt_message_send_def block_data_len_header message_def split: sum.split)
qed

text \<open>From call \<open>i\<close> on, the stream delivers the pieces \<open>cs\<close>, each to a \<open>read\<close> that asks for at least as much.\<close>

definition delivers :: "read_calls \<Rightarrow> nat \<Rightarrow> bytes list \<Rightarrow> bool" where
  "delivers rd i cs \<longleftrightarrow> (\<forall>k < length cs. cs ! k \<noteq> [] \<and> (\<forall>n \<ge> length (cs ! k). rd (i + k) n = Inr (cs ! k)))"

lemma delivers_Cons: "delivers rd i (c # cs) \<longleftrightarrow> c \<noteq> [] \<and> (\<forall>n \<ge> length c. rd i n = Inr c) \<and> delivers rd (Suc i) cs"
  unfolding delivers_def by (auto simp: less_Suc_eq_0_disj nth_Cons split: nat.splits)

lemma recv_body_ok:
  assumes "delivers rd i cs" "cs \<noteq> []" "\<forall>k. rt_message_wait_data (wait k) = et_ok"
    and "length got + length (concat cs) = unat (data_len h)" "length pad = length (concat cs)"
  shows "recv_body timed wait rd i (header_bytes h @ got @ pad) (of_nat (length got)) (data_len h - of_nat (length got)) =
    Some (et_ok, Some (header_bytes h @ got @ concat cs))"
  using assms
proof (induction cs arbitrary: i got pad)
  case (Cons c cs)
  let ?L = "unat (data_len h)"
  have c: "c \<noteq> []" "\<forall>n \<ge> length c. rd i n = Inr c" "delivers rd (Suc i) cs" using Cons.prems(1) by (simp_all add: delivers_Cons)
  have lt: "?L < 2 ^ 32" using unat_u32_less[of "data_len h"] by simp
  have got: "unat (of_nat (length got) :: u32) = length got" "uint (of_nat (length got) :: u32) = int (length got)"
    using Cons.prems(4) lt by (simp_all add: unat_of_nat uint_nat)
  have rest: "unat (data_len h - of_nat (length got)) = ?L - length got"
    using got(1) Cons.prems(4) by (subst unat_sub) (simp_all add: word_le_nat_alt)
  have r: "rd i (unat (data_len h - of_nat (length got))) = Inr c" using c(2) rest Cons.prems(4) by simp
  define pad' where "pad' = drop (length c) pad"
  have mw: "mem_write (header_bytes h @ got @ pad) (int header_size + uint (of_nat (length got) :: u32)) c =
      Some (header_bytes h @ (got @ c) @ pad')"
    using Cons.prems(5) got(2) by (simp add: mem_write_def nat_add_distrib pad'_def)
  have sz: "of_nat (length got) + of_nat (length c) = (of_nat (length (got @ c)) :: u32)" by simp
  have rz: "data_len h - of_nat (length got) - of_nat (length c) = data_len h - of_nat (length (got @ c))" by simp
  have lt': "of_nat (length (got @ c)) < data_len h \<longleftrightarrow> length (concat cs) > 0"
  proof -
    have "unat (of_nat (length (got @ c)) :: u32) = length (got @ c)" using Cons.prems(4) lt by (subst unat_of_nat) simp
    moreover have "length (got @ c) + length (concat cs) = ?L" using Cons.prems(4) by simp
    ultimately show ?thesis unfolding word_less_nat_alt by linarith
  qed
  have step: "recv_body timed wait rd i (header_bytes h @ got @ pad) (of_nat (length got)) (data_len h - of_nat (length got)) =
     (if length (concat cs) > 0
      then recv_body timed wait rd (Suc i) (header_bytes h @ (got @ c) @ pad') (of_nat (length (got @ c))) (data_len h - of_nat (length (got @ c)))
      else Some (et_ok, Some (header_bytes h @ (got @ c) @ pad')))"
    using Cons.prems(3) r mw lt' by (subst recv_body.simps) (simp add: Let_def sz rz block_data_len_header del: append_assoc of_nat_add length_append)
  show ?case
  proof (cases "cs = []")
    case True
    then show ?thesis using step Cons.prems(5) by (simp add: pad'_def)
  next
    case False
    then have pos: "length (concat cs) > 0" using c(3) by (cases cs) (auto simp: delivers_Cons)
    have "length (got @ c) + length (concat cs) = ?L" "length pad' = length (concat cs)"
      using Cons.prems(4,5) by (simp_all add: pad'_def)
    from Cons.IH[OF c(3) False Cons.prems(3) this]
    show ?thesis using step pos by simp
  qed
qed simp

lemma recv_message:
  assumes "length data = unat (data_len h)" "delivers rd 0 (header_bytes h # cs)" "concat cs = data"
    and "\<forall>k. rt_message_wait_data (wait k) = et_ok" "alloc header_size" "alloc (header_size + length data)"
  shows "rt_message_recv alloc junk timed wait rd True = Some (et_ok, Some (message h data))"
proof -
  have r: "rd 0 header_size = Inr (header_bytes h)" and ds: "delivers rd 1 cs" using assms(2) by (simp_all add: delivers_Cons)
  have mw: "mem_write (zeros header_size) 0 (header_bytes h) = Some (header_bytes h)" by (simp add: mem_write_def)
  have bl: "block_data_len (header_bytes h) = data_len h" using block_data_len_header[of h "[]"] by simp
  have nz: "header_size \<noteq> 0" by (simp add: header_size_def)
  show ?thesis
  proof (cases "data = []")
    case True
    then have "\<not> 0 < data_len h" using assms(1) by (simp add: word_less_nat_alt)
    then show ?thesis using True r mw bl nz assms(4,5) by (simp add: rt_message_recv_def message_def)
  next
    case False
    define pad where "pad = map junk [header_size..<header_size + length data]"
    have pos: "0 < data_len h" unfolding word_less_nat_alt using False assms(1) by (metis length_greater_0_conv unat_0)
    have ra: "mem_realloc alloc junk (header_bytes h) (header_size + unat (data_len h)) = Some (Some (header_bytes h @ pad))"
      using assms(1,6) nz by (simp add: mem_realloc_def pad_def)
    have ne: "cs \<noteq> []" using False assms(3) by auto
    have "recv_body timed wait rd 1 (header_bytes h @ [] @ pad) (of_nat (length [])) (data_len h - of_nat (length [])) =
        Some (et_ok, Some (header_bytes h @ [] @ concat cs))"
      using recv_body_ok[OF ds ne assms(4), of "[]" h pad timed] assms(1,3) by (simp add: pad_def)
    then show ?thesis
      using r mw bl nz pos ra assms(3,4,5) block_data_len_header[of h pad] by (simp add: rt_message_recv_def message_def)
  qed
qed

text \<open>A stream that ends inside the data.\<close>

definition ends_early :: "wait_calls \<Rightarrow> read_calls \<Rightarrow> nat \<Rightarrow> bytes \<Rightarrow> u32 \<Rightarrow> bool" where
  "ends_early wait rd i block read_size \<longleftrightarrow> (\<forall>k \<ge> i. \<forall>n. rd k n = Inr []) \<and> (\<forall>k. rt_message_wait_data (wait k) = et_ok) \<and>
     read_size < block_data_len block \<and> header_size + unat read_size \<le> length block"

lemma ends_early_write:
  "ends_early wait rd i block read_size \<Longrightarrow> mem_write block (int header_size + uint read_size) [] = Some block"
  by (simp add: ends_early_def mem_write_def nat_add_distrib)

lemma recv_body_ends:
  assumes "ends_early wait rd i block read_size"
  shows "recv_body timed wait rd i block read_size rest_size = None"
proof -
  have "\<not> ends_early wait rd i block read_size" if "recv_body timed wait rd i block read_size rest_size = Some r"
    for timed wait rd i block read_size rest_size r
    using that
  proof (rule recv_body.raw_induct[where P = "\<lambda>timed wait rd i block read_size rest_size r. \<not> ends_early wait rd i block read_size", rotated],
      intro notI)
    fix f timed wait rd i block read_size rest_size r
    assume IH: "\<And>timed wait rd i block read_size rest_size r. f timed wait rd i block read_size rest_size = Some r \<Longrightarrow> \<not> ends_early wait rd i block read_size"
      and e: "ends_early wait rd i block read_size"
      and run: "(if timed \<and> rt_message_wait_data (wait i) \<noteq> et_ok then Some (rt_message_wait_data (wait i), None)
      else (case rd i (unat rest_size) of
          Inl errno \<Rightarrow> Some (et_sock_recv, None)
        | Inr d \<Rightarrow> do {
            block' \<leftarrow> mem_write block (int header_size + uint read_size) d;
            let read_size' = read_size + of_nat (length d);
            let rest_size' = rest_size - of_nat (length d);
            if read_size' < block_data_len block'
            then f timed wait rd (Suc i) block' read_size' rest_size'
            else Some (et_ok, Some block') })) = Some r"
    have "rd i (unat rest_size) = Inr []" "rt_message_wait_data (wait i) = et_ok" "read_size < block_data_len block"
      using e by (simp_all add: ends_early_def)
    then have "f timed wait rd (Suc i) block read_size rest_size = Some r" using run ends_early_write[OF e] by (simp add: Let_def)
    then have "\<not> ends_early wait rd (Suc i) block read_size" by (rule IH)
    moreover have "ends_early wait rd (Suc i) block read_size" using e unfolding ends_early_def by (meson Suc_leD)
    ultimately show False by blast
  qed
  then show ?thesis using assms by (cases "recv_body timed wait rd i block read_size rest_size") blast+
qed

section \<open>Properties\<close>

text \<open>C26: messages survive the transport. Sending a well-formed message whose size fits 32 bits (data of less than
  2^32 - 40 bytes) hands exactly its bytes to \<open>write\<close> and
  succeeds iff all of them are taken; when the stream delivers the header in one piece and the data in any
  pieces, receiving returns, and returns the message that was sent, with and without a timeout.\<close>

theorem rt_message_round_trip:
  assumes "length data = unat (data_len h)" "data_len h < 0xFFFFFFD8" "alloc header_size" "alloc (header_size + length data)"
    and "delivers rd 0 (header_bytes h # cs)" "concat cs = data" "\<forall>k. rt_message_wait_data (wait k) = et_ok"
  shows "rt_message_send wr (header_bytes h @ data) = Some (case wr (header_bytes h @ data) of
        Inl errno \<Rightarrow> if errno = EPIPE then et_sock_conn else et_sock_send
      | Inr rc \<Rightarrow> if rc = length (header_bytes h @ data) then et_ok else et_sock_send) \<and>
    rt_message_recv alloc junk timed wait rd True = Some (et_ok, Some (header_bytes h @ data))"
  using send_message[OF assms(1,2)] recv_message[where rd = rd and wait = wait and alloc = alloc, OF assms(1,5,6,7,3,4)] unfolding message_def by blast

definition sample_header :: rtmsg_header where
  "sample_header = (associate_header app_test_client)\<lparr>data_len := 3\<rparr>"

theorem rt_message_round_trip_witness:
  "rt_message_recv (\<lambda>n. True) (\<lambda>n. 0) True (\<lambda>k. (1, True))
     (\<lambda>i n. Inr (if i = 0 then header_bytes sample_header else if i = 1 then [1, 2] else [3])) True =
   Some (et_ok, Some (header_bytes sample_header @ [1, 2, 3]))"
proof -
  have "header_bytes sample_header \<noteq> []" by (metis header_bytes_length header_size_def length_0_conv zero_neq_numeral)
  then have "delivers (\<lambda>i n. Inr (if i = 0 then header_bytes sample_header else if i = 1 then [1, 2] else [3])) 0
      [header_bytes sample_header, [1, 2], [3]]"
    by (simp add: delivers_Cons) (simp add: delivers_def)
  then show ?thesis
    using rt_message_round_trip[of "[1, 2, 3]" sample_header "\<lambda>n. True"
        "\<lambda>i n. Inr (if i = 0 then header_bytes sample_header else if i = 1 then [1, 2] else [3])" "[[1, 2], [3]]" "\<lambda>k. (1, True)"]
    by (simp add: sample_header_def rt_message_wait_data_def)
qed

text \<open>Receiving does not notice the end of the stream inside the data: when the peer closes the connection
  after the header, every \<open>read\<close> returns nothing, and the loop never returns, whether or not a timeout is given,
  because a closed descriptor is always ready.\<close>

theorem rt_message_recv_hangs:
  assumes "0 < data_len h" "alloc header_size" "alloc (header_size + unat (data_len h))"
    and "rd 0 header_size = Inr (header_bytes h)" "\<forall>k \<ge> 1. \<forall>n. rd k n = Inr []" "\<forall>k. rt_message_wait_data (wait k) = et_ok"
  shows "rt_message_recv alloc junk timed wait rd True = None"
proof -
  have mw: "mem_write (zeros header_size) 0 (header_bytes h) = Some (header_bytes h)" by (simp add: mem_write_def)
  have bl: "block_data_len (header_bytes h) = data_len h" using block_data_len_header[of h "[]"] by simp
  have nz: "header_size \<noteq> 0" by (simp add: header_size_def)
  define pad where "pad = map junk [header_size..<header_size + unat (data_len h)]"
  have ra: "mem_realloc alloc junk (header_bytes h) (header_size + unat (data_len h)) = Some (Some (header_bytes h @ pad))"
    using assms(3) nz by (simp add: mem_realloc_def pad_def)
  have "ends_early wait rd 1 (header_bytes h @ pad) 0"
    using assms(1,5,6) by (simp add: ends_early_def block_data_len_header)
  then have "recv_body timed wait rd 1 (header_bytes h @ pad) 0 (data_len h) = None" by (rule recv_body_ends)
  then show ?thesis using assms(1,2,4,6) mw bl nz ra by (simp add: rt_message_recv_def block_data_len_header)
qed

theorem rt_message_recv_hangs_witness:
  "rt_message_recv (\<lambda>n. True) (\<lambda>n. 0) True (\<lambda>k. (1, True)) (\<lambda>i n. Inr (if i = 0 then header_bytes sample_header else [])) True = None"
  by (rule rt_message_recv_hangs[of sample_header]) (simp_all add: sample_header_def rt_message_wait_data_def)

text \<open>For longer data the size wraps around: only the start of the header is sent, and that counts as success.\<close>

lemma rt_message_send_wraps:
  assumes "0xFFFFFFD8 \<le> data_len h"
  shows "\<exists>n < header_size. rt_message_send wr (message h data) = Some (case wr (take n (header_bytes h)) of
      Inl errno \<Rightarrow> if errno = EPIPE then et_sock_conn else et_sock_send
    | Inr rc \<Rightarrow> if rc = n then et_ok else et_sock_send)"
proof -
  define n where "n = unat (of_nat header_size + data_len h)"
  have "2 ^ 32 - 40 \<le> unat (data_len h)" "unat (data_len h) < 2 ^ 32"
    using assms unat_u32_less[of "data_len h"] by (simp_all add: word_le_nat_alt)
  moreover from this have "(40 + unat (data_len h)) mod 2 ^ 32 = 40 + unat (data_len h) - 2 ^ 32" by (simp add: mod_if)
  ultimately have n: "n < header_size" by (simp add: n_def unat_word_ariths header_size_def)
  then have "mem_read (message h data) 0 n = Some (take n (header_bytes h))"
    by (simp add: mem_read_def message_def)
  then have "rt_message_send wr (message h data) = Some (case wr (take n (header_bytes h)) of
      Inl errno \<Rightarrow> if errno = EPIPE then et_sock_conn else et_sock_send
    | Inr rc \<Rightarrow> if rc = n then et_ok else et_sock_send)"
    unfolding rt_message_send_def message_def block_data_len_header n_def[symmetric] by (simp add: Let_def split: sum.split)
  then show ?thesis using n by blast
qed

text \<open>The reply is sent with whatever length the stack held: a length that is not 0 and does not wrap reads behind the reply.\<close>

lemma rt_message_send_reply_garbage:
  assumes "data_len reply \<noteq> 0" "data_len reply < 0xFFFFFFD8"
  shows "rt_message_send_reply num wr reply header code = None"
proof -
  define h where "h = reply\<lparr>dst := src header, src := dst header, msg_type := msg_type header,
       f_request := 0, f_response := 1, word := num code\<rparr>"
  have l: "data_len h = data_len reply" by (simp add: h_def)
  then have "0 < unat (data_len h)" using assms(1) by (simp add: unat_gt_0)
  then have "rt_message_send wr (header_bytes h) = None"
    using block_data_len_header[of h "[]"] total_size[of h] l assms(2) by (simp add: rt_message_send_def mem_read_def)
  then show ?thesis unfolding rt_message_send_reply_def h_def[symmetric] .
qed

end
