(* ===== verification/Fix_Math.thy ===== *)
theory Fix_Math
  imports Prelude "HOL-Library.Log_Nat"
begin

text \<open>
  The fixed-point arithmetic of \<open>application/fix_math\<close>, with \<open>FIXMATH_NO_ROUNDING\<close> as its header
  defines it. A \<open>fix16_t\<close> is the integer it holds, in units of $2^{-16}$; the unsigned intermediate values
  are words. Signed overflow is undefined (\<open>None\<close>). \<open>clz\<close> of a compiler that has the built-in is the
  number of leading zero bits. The routines on \<open>double\<close> and the dumps of \<open>main\<close> are left out.
\<close>

section \<open>Model\<close>

definition fits32 :: "int \<Rightarrow> bool" where
  "fits32 x \<longleftrightarrow> - (2 ^ 31) \<le> x \<and> x < 2 ^ 31"

definition chk32 :: "int \<Rightarrow> int option" where
  "chk32 x = (if fits32 x then Some x else None)"

definition fix16_one :: int where "fix16_one = 0x00010000"
definition PI_DIV_4 :: int where "PI_DIV_4 = 0x0000C90F"
definition THREE_PI_DIV_4 :: int where "THREE_PI_DIV_4 = 0x00025B2F"
definition fix16_minimum :: int where "fix16_minimum = - (2 ^ 31)"
definition fix16_overflow :: int where "fix16_overflow = - (2 ^ 31)"

definition fix16_from_int :: "int \<Rightarrow> int option" where
  "fix16_from_int a = chk32 (a * fix16_one)"

definition fix16_to_int :: "int \<Rightarrow> int" where
  "fix16_to_int a = a div 2 ^ 16"

subsection \<open>Square root\<close>

definition sqrt_start :: "u32 \<Rightarrow> u32" where
  "sqrt_start num = (if num AND 0xFFF00000 \<noteq> 0 then push_bit 30 1 else push_bit 18 1)"

lemma unat_drop: "unat (drop_bit n (w::'a::len word)) = unat w div 2 ^ n"
  unfolding unat_drop_bit_eq by (simp add: drop_bit_eq_div)

lemma unat_drop_less: "w \<noteq> 0 \<Longrightarrow> 0 < n \<Longrightarrow> unat (drop_bit n (w::u32)) < unat w"
  unfolding unat_drop by (rule div_less_dividend) (simp_all add: unat_gt_0 one_less_power del: One_nat_def)

function sqrt_shrink :: "u32 \<Rightarrow> u32 \<Rightarrow> u32" where
  "sqrt_shrink bt num = (if num < bt then sqrt_shrink (drop_bit 2 bt) num else bt)"
  by pat_completeness auto
termination
  by (relation "measure (\<lambda>(bt, num). unat bt)") (auto intro!: unat_drop_less)

function sqrt_bits :: "u32 \<Rightarrow> u32 \<Rightarrow> u32 \<Rightarrow> u32 \<times> u32" where
  "sqrt_bits num result bt =
     (if bt \<noteq> 0 then
        (if num \<ge> result + bt then sqrt_bits (num - (result + bt)) (drop_bit 1 result + bt) (drop_bit 2 bt)
         else sqrt_bits num (drop_bit 1 result) (drop_bit 2 bt))
      else (num, result))"
  by pat_completeness auto
termination
  by (relation "measure (\<lambda>(num, result, bt). unat bt)") (auto intro!: unat_drop_less)

declare sqrt_shrink.simps [simp del] sqrt_bits.simps [simp del]

text \<open>Between the two rounds the remainder and the root move up by 16 bits.\<close>

definition sqrt_widen :: "u32 \<times> u32 \<Rightarrow> u32 \<times> u32" where
  "sqrt_widen nr = (case nr of (num, result) \<Rightarrow>
     if num > 65535 then (push_bit 16 (num - result) - 0x8000, push_bit 16 result + 0x8000)
     else (push_bit 16 num, push_bit 16 result))"

definition sqrt_rounds :: "u32 \<Rightarrow> u32" where
  "sqrt_rounds num =
     (case sqrt_widen (sqrt_bits num 0 (sqrt_shrink (sqrt_start num) num)) of
        (num', result') \<Rightarrow> snd (sqrt_bits num' result' (push_bit 14 1)))"

definition fix16_sqrt :: "int \<Rightarrow> int option" where
  "fix16_sqrt inValue = do {
     num \<leftarrow> (if inValue < 0 then chk32 (- inValue) else Some inValue);
     let result = sint (sqrt_rounds (word_of_int num));
     Some (if inValue < 0 then - result else result) }"

subsection \<open>Division\<close>

definition clz :: "u32 \<Rightarrow> int" where
  "clz x = 32 - bitlen (uint x)"

text \<open>The estimate that starts the division when the divider is large: quot and remainder.\<close>

definition div_kick :: "u32 \<Rightarrow> u32 \<Rightarrow> u32 \<times> u32" where
  "div_kick remainder divider =
     (if divider AND 0xFFF00000 \<noteq> 0 then
        (let shifted_div = drop_bit 17 divider + 1; quot = remainder div shifted_div in
         (quot, remainder - ucast (drop_bit 17 (ucast quot * ucast divider :: u64))))
      else (0, remainder))"

function div_norm :: "u32 \<Rightarrow> int \<Rightarrow> u32 \<times> int" where
  "div_norm divider bit_pos =
     (if divider AND 0xF = 0 \<and> bit_pos \<ge> 4 then div_norm (drop_bit 4 divider) (bit_pos - 4) else (divider, bit_pos))"
  by pat_completeness auto
termination by (relation "measure (\<lambda>(d, b). nat b)") auto

text \<open>The loop of the division: \<open>Some None\<close> is the early return of \<open>fix16_overflow\<close>, a zero divider is undefined.\<close>

function div_loop :: "u32 \<Rightarrow> u32 \<Rightarrow> u32 \<Rightarrow> int \<Rightarrow> u32 option option" where
  "div_loop remainder divider quot bit_pos =
     (if remainder \<noteq> 0 \<and> bit_pos \<ge> 0 then
        (let shift = (if clz remainder > bit_pos then bit_pos else clz remainder);
             rem1 = push_bit (nat shift) remainder;
             pos = bit_pos - shift in
         if divider = 0 then None
         else
           (let d = rem1 div divider; rem2 = rem1 mod divider in
            if d AND NOT (drop_bit (nat pos) 0xFFFFFFFF) \<noteq> 0 then Some None
            else div_loop (push_bit 1 rem2) divider (quot + push_bit (nat pos) d) (pos - 1)))
      else Some (Some quot))"
  by pat_completeness auto
termination
proof (relation "measure (\<lambda>(r, d, q, b). nat (b + 1))", goal_cases)
  case (2 remainder divider quot bit_pos shift rem1 pos d rem2)
  have "0 \<le> clz remainder"
    using bitlen_le_iff_power[of "uint remainder" 32] uint_lt2p[of remainder] by (simp add: clz_def)
  then show ?case using 2 by (auto split: if_splits)
qed auto

declare div_norm.simps [simp del] div_loop.simps [simp del]

text \<open>What follows the loop: the early return, or the sign.\<close>

definition div_result :: "int \<Rightarrow> int \<Rightarrow> u32 option \<Rightarrow> int" where
  "div_result a b r = (case r of
      None \<Rightarrow> fix16_overflow
    | Some quot \<Rightarrow>
        (let result = sint (drop_bit 1 quot) in
         if (word_of_int (a XOR b) :: u32) AND 0x80000000 \<noteq> 0 then
           (if result = fix16_minimum then fix16_overflow else - result)
         else result))"

definition fix16_div :: "int \<Rightarrow> int \<Rightarrow> int option" where
  "fix16_div a b =
     (if b = 0 then Some fix16_minimum
      else do {
        ra \<leftarrow> (if a \<ge> 0 then Some a else chk32 (- a));
        rb \<leftarrow> (if b \<ge> 0 then Some b else chk32 (- b));
        let (quot, remainder) = div_kick (word_of_int ra) (word_of_int rb);
        let (divider, bit_pos) = div_norm (word_of_int rb) 17;
        r \<leftarrow> div_loop remainder divider quot bit_pos;
        Some (div_result a b r) })"

subsection \<open>Product\<close>

definition fix16_mul :: "int \<Rightarrow> int \<Rightarrow> int" where
  "fix16_mul inArg0 inArg1 =
     (let product = inArg0 * inArg1; upper = word_of_int (product div 2 ^ 47) :: u32 in
      if product < 0 \<and> NOT upper \<noteq> 0 then fix16_overflow
      else if \<not> product < 0 \<and> upper \<noteq> 0 then fix16_overflow
      else sint (word_of_int (product div 2 ^ 16) :: u32))"

subsection \<open>Arc tangent\<close>

record atan_cache =
  cache_x :: "int list"
  cache_y :: "int list"
  cache_value :: "int list"

definition atan_cache_init :: atan_cache where
  "atan_cache_init = \<lparr>cache_x = replicate 4096 0, cache_y = replicate 4096 0, cache_value = replicate 4096 0\<rparr>"

definition atan_hash :: "int \<Rightarrow> int \<Rightarrow> nat" where
  "atan_hash inX inY =
     (let hash = word_of_int (inX XOR inY) :: u32; hash = hash XOR drop_bit 20 hash in unat (hash AND 0x0FFF))"

definition atan_poly :: "int \<Rightarrow> int \<Rightarrow> int option" where
  "atan_poly r base =
     (let r_3 = fix16_mul (fix16_mul r r) r in do {
        d \<leftarrow> chk32 (fix16_mul 0x00003240 r_3 - fix16_mul 0x0000FB50 r);
        chk32 (d + base) })"

definition atan2_compute :: "int \<Rightarrow> int \<Rightarrow> int option" where
  "atan2_compute inY inX = do {
     let m = inY div 2 ^ 31;
     s \<leftarrow> chk32 (inY + m);
     let abs_inY = s XOR m;
     angle \<leftarrow>
       (if inX \<ge> 0 then do {
          n \<leftarrow> chk32 (inX - abs_inY);
          d \<leftarrow> chk32 (inX + abs_inY);
          r \<leftarrow> fix16_div n d;
          atan_poly r PI_DIV_4 }
        else do {
          n \<leftarrow> chk32 (inX + abs_inY);
          d \<leftarrow> chk32 (abs_inY - inX);
          r \<leftarrow> fix16_div n d;
          atan_poly r THREE_PI_DIV_4 });
     (if inY < 0 then chk32 (- angle) else Some angle) }"

definition fix16_atan2 :: "atan_cache \<Rightarrow> int \<Rightarrow> int \<Rightarrow> (int \<times> atan_cache) option" where
  "fix16_atan2 c inY inX =
     (let hash = atan_hash inX inY in
      if cache_x c ! hash = inX \<and> cache_y c ! hash = inY then Some (cache_value c ! hash, c)
      else do {
        angle \<leftarrow> atan2_compute inY inX;
        Some (angle, c\<lparr>cache_x := (cache_x c)[hash := inX], cache_y := (cache_y c)[hash := inY],
          cache_value := (cache_value c)[hash := angle]\<rparr>) })"

record vec3_int16 =
  vx :: int
  vy :: int
  vz :: int

text \<open>\<open>180/3.14\<close> is a \<open>double\<close> that the call converts to the \<open>int\<close> 57. The assignment to an \<open>int16_t\<close>
  truncates.\<close>

definition to_int16 :: "int \<Rightarrow> int" where
  "to_int16 x = sint (word_of_int x :: u16)"

definition euler_component :: "atan_cache \<Rightarrow> int \<Rightarrow> int \<Rightarrow> int \<Rightarrow> (int \<times> atan_cache) option" where
  "euler_component c p q r = do {
     atan2x \<leftarrow> fix16_from_int p;
     sq \<leftarrow> chk32 (q * q + r * r);
     f \<leftarrow> fix16_from_int sq;
     atan2y \<leftarrow> fix16_sqrt f;
     (angle, c') \<leftarrow> fix16_atan2 c atan2x atan2y;
     k \<leftarrow> fix16_from_int 57;
     Some (to_int16 (fix16_to_int (fix16_mul angle k)), c') }"

definition fix16_euler_angle_int :: "atan_cache \<Rightarrow> vec3_int16 \<Rightarrow> (vec3_int16 \<times> atan_cache) option" where
  "fix16_euler_angle_int c vec = do {
     (x, c1) \<leftarrow> euler_component c (vx vec) (vy vec) (vz vec);
     (y, c2) \<leftarrow> euler_component c1 (vy vec) (vx vec) (vz vec);
     Some (\<lparr>vx = x, vy = y, vz = 0\<rparr>, c2) }"

lemma unat_push: "unat (w::u32) * 2 ^ n < 2 ^ 32 \<Longrightarrow> unat (push_bit n w) = unat w * 2 ^ n"
proof -
  assume lt: "unat w * 2 ^ n < 2 ^ 32"
  have "push_bit n w = of_nat (unat w * 2 ^ n)" by (simp add: push_bit_eq_mult)
  then have "unat (push_bit n w) = unat (of_nat (unat w * 2 ^ n) :: u32)" by simp
  also have "\<dots> = unat w * 2 ^ n" using lt by (subst unat_of_nat) simp
  finally show ?thesis .
qed

lemma unat_plus: "unat (a::u32) + unat b < 2 ^ 32 \<Longrightarrow> unat (a + b) = unat a + unat b"
  by (simp add: unat_word_ariths)

lemma sint_fits: "- (2 ^ 31) \<le> i \<Longrightarrow> i < 2 ^ 31 \<Longrightarrow> sint (word_of_int i :: u32) = i"
  by (simp add: sint_sbintrunc' signed_take_bit_int_eq_self)

lemma sint_small: "unat (w::u32) < 2 ^ 31 \<Longrightarrow> sint w = int (unat w)"
proof -
  assume "unat w < 2 ^ 31"
  then have "int (unat w) < int (2 ^ 31)" by (simp only: of_nat_less_iff)
  then have "int (unat w) < 2 ^ 31" unfolding of_nat_power of_nat_numeral .
  moreover have "0 \<le> int (unat w)" "- (2 ^ 31) \<le> (0::int)" by (simp_all only: of_nat_0_le_iff) simp
  ultimately have "sint (word_of_int (int (unat w)) :: u32) = int (unat w)" by (intro sint_fits) linarith+
  then show ?thesis by simp
qed

lemma unat_ucast_up: "unat (ucast (x::u32) :: u64) = unat x"
  using unat_u32_less[of x] by (simp add: unsigned_ucast_eq take_bit_nat_eq_self)

lemma and_not_mask_zero: "(w::u32) AND NOT (mask k) = 0 \<longleftrightarrow> unat w < 2 ^ k"
proof -
  have "w AND NOT (mask k) = 0 \<longleftrightarrow> take_bit k w = w"
    by (auto simp: bit_eq_iff bit_simps)
  also have "\<dots> \<longleftrightarrow> take_bit k (unat w) = unat w" by (simp add: word_unat_eq_iff unsigned_take_bit_eq)
  also have "\<dots> \<longleftrightarrow> unat w < 2 ^ k" by (rule take_bit_nat_eq_self_iff)
  finally show ?thesis .
qed

section \<open>Square root\<close>

text \<open>The bit of a round: 4 to the power of one less than the number of rounds left.\<close>

definition round_bit :: "nat \<Rightarrow> u32" where
  "round_bit n = (if n = 0 then 0 else 4 ^ (n - 1))"

lemma unat_round_bit: "0 < n \<Longrightarrow> n \<le> 16 \<Longrightarrow> unat (round_bit n) = 4 ^ (n - 1)"
proof -
  assume n: "0 < n" "n \<le> 16"
  have "(4::nat) ^ (n - 1) \<le> 4 ^ 15" using n by (intro power_increasing) auto
  then have "(4::nat) ^ (n - 1) < 2 ^ 32" by simp
  moreover have "round_bit n = of_nat (4 ^ (n - 1))" using n by (simp add: round_bit_def)
  then have "unat (round_bit n) = unat (of_nat (4 ^ (n - 1)) :: u32)" by simp
  ultimately show ?thesis by (simp only: unat_of_nat) simp
qed

lemma drop_round_bit: "0 < n \<Longrightarrow> n \<le> 16 \<Longrightarrow> drop_bit 2 (round_bit n) = round_bit (n - 1)"
proof (cases "n = 1")
  case True
  then show ?thesis by (simp add: round_bit_def)
next
  case False
  assume n: "0 < n" "n \<le> 16"
  obtain k where k: "n = Suc (Suc k)" using False n by (metis One_nat_def not0_implies_Suc not_gr_zero)
  have "unat (drop_bit 2 (round_bit n)) = unat (round_bit (n - 1))"
    unfolding unat_drop using n k by (simp add: unat_round_bit)
  then show ?thesis by (simp only: word_unat_eq_iff)
qed

lemma sqrt_bits_ok:
  assumes "n \<le> 16" "unat result = R * 2 ^ n" "unat num + R\<^sup>2 = X" "X < (R + 2 ^ n)\<^sup>2" "(R + 2 ^ n) * 2 ^ n \<le> 2 ^ 32"
  shows "\<exists>n' r'. sqrt_bits num result (round_bit n) = (n', r') \<and> unat n' + (unat r')\<^sup>2 = X \<and> X < (unat r' + 1)\<^sup>2"
  using assms
proof (induction n arbitrary: num result R)
  case 0
  then show ?case by (subst sqrt_bits.simps) (simp add: round_bit_def)
next
  case (Suc k)
  have ub: "unat (round_bit (Suc k)) = 4 ^ k" using unat_round_bit[of "Suc k"] Suc.prems(1) by simp
  have b0: "round_bit (Suc k) \<noteq> 0" using ub by (metis power_not_zero unat_0 zero_neq_numeral)
  have dr: "drop_bit 2 (round_bit (Suc k)) = round_bit k" using drop_round_bit[of "Suc k"] Suc.prems(1) by simp
  have four: "(4::nat) ^ k = 2 ^ k * 2 ^ k" by (simp flip: power_mult_distrib)
  have sum: "unat (result + round_bit (Suc k)) = R * 2 ^ Suc k + 4 ^ k"
  proof -
    have "R * 2 ^ Suc k + 4 ^ k < (R + 2 ^ Suc k) * 2 ^ Suc k" by (simp add: four algebra_simps)
    then have "R * 2 ^ Suc k + 4 ^ k < 2 ^ 32" using Suc.prems(5) by linarith
    then show ?thesis using Suc.prems(2) ub by (subst unat_plus) simp_all
  qed
  have half: "unat (drop_bit 1 result) = R * 2 ^ k" unfolding unat_drop using Suc.prems(2) by simp
  show ?case
  proof (cases "num \<ge> result + round_bit (Suc k)")
    case True
    then have le: "R * 2 ^ Suc k + 4 ^ k \<le> unat num" using sum by (simp add: word_le_nat_alt)
    have u1: "unat (num - (result + round_bit (Suc k))) = unat num - (R * 2 ^ Suc k + 4 ^ k)"
      using unat_sub[OF True] sum by simp
    have sq: "(R + 2 ^ k)\<^sup>2 = R\<^sup>2 + (R * 2 ^ Suc k + 4 ^ k)" by (simp add: four power2_eq_square algebra_simps)
    have bound: "(R + 2 ^ k + 2 ^ k) * 2 ^ k \<le> 2 ^ 32"
      using Suc.prems(5) by (simp add: algebra_simps)
    have u2: "unat (drop_bit 1 result + round_bit (Suc k)) = (R + 2 ^ k) * 2 ^ k"
    proof -
      have e: "R * 2 ^ k + 4 ^ k = (R + 2 ^ k) * 2 ^ k" by (simp add: four algebra_simps)
      have "(R + 2 ^ k) * 2 ^ k < (R + 2 ^ k + 2 ^ k) * 2 ^ k" by simp
      then have "R * 2 ^ k + 4 ^ k < 2 ^ 32" using bound unfolding e by linarith
      then show ?thesis using half ub e by (subst unat_plus) simp_all
    qed
    have "X < (R + 2 ^ k + 2 ^ k)\<^sup>2" using Suc.prems(4) by (simp add: mult_2 add.assoc)
    moreover have "unat (num - (result + round_bit (Suc k))) + (R + 2 ^ k)\<^sup>2 = X" using u1 sq le Suc.prems(3) by linarith
    ultimately have "\<exists>n' r'. sqrt_bits (num - (result + round_bit (Suc k))) (drop_bit 1 result + round_bit (Suc k)) (round_bit k) = (n', r') \<and>
        unat n' + (unat r')\<^sup>2 = X \<and> X < (unat r' + 1)\<^sup>2"
      using Suc.IH[OF _ u2 _ _ bound] Suc.prems(1) by simp
    then show ?thesis using True b0 dr by (subst sqrt_bits.simps) simp
  next
    case False
    then have "unat num < R * 2 ^ Suc k + 4 ^ k" using sum by (simp add: word_le_nat_alt)
    moreover have sq: "(R + 2 ^ k)\<^sup>2 = R\<^sup>2 + (R * 2 ^ Suc k + 4 ^ k)" by (simp add: four power2_eq_square algebra_simps)
    ultimately have x: "X < (R + 2 ^ k)\<^sup>2" using Suc.prems(3) by linarith
    have bound: "(R + 2 ^ k) * 2 ^ k \<le> 2 ^ 32"
    proof -
      have "(R + 2 ^ k) * 2 ^ k \<le> (R + 2 ^ Suc k) * 2 ^ Suc k" by (intro mult_le_mono) simp_all
      then show ?thesis using Suc.prems(5) by linarith
    qed
    show ?thesis using Suc.IH[OF _ half Suc.prems(3) x bound] False b0 dr Suc.prems(1) by (subst sqrt_bits.simps) simp
  qed
qed

lemma sqrt_shrink_ok:
  assumes "n \<le> 16" "unat num < 4 ^ n"
  shows "\<exists>m \<le> 16. sqrt_shrink (round_bit n) num = round_bit m \<and> unat num < 4 ^ m"
  using assms
proof (induction n)
  case 0
  then have "\<not> num < round_bit 0" by (simp add: round_bit_def)
  then show ?case using 0 by (intro exI[of _ 0]) (subst sqrt_shrink.simps, simp)
next
  case (Suc k)
  show ?case
  proof (cases "num < round_bit (Suc k)")
    case True
    then have "unat num < 4 ^ k" using unat_round_bit[of "Suc k"] Suc.prems(1) by (simp add: word_less_nat_alt)
    then show ?thesis using Suc.IH Suc.prems(1) True drop_round_bit[of "Suc k"] by (subst sqrt_shrink.simps) simp
  next
    case False
    then show ?thesis using Suc.prems by (intro exI[of _ "Suc k"]) (subst sqrt_shrink.simps, simp)
  qed
qed

lemma sqrt_start_ok: "\<exists>n \<le> 16. sqrt_start num = round_bit n \<and> unat num < 4 ^ n"
proof (cases "num AND 0xFFF00000 = 0")
  case True
  have "NOT (mask 20) = (0xFFF00000 :: u32)" by (simp add: mask_eq_exp_minus_1)
  then have "num AND NOT (mask 20) = num AND 0xFFF00000" by (rule arg_cong)
  then have "unat num < 2 ^ 20" using True by (simp only: and_not_mask_zero)
  then show ?thesis using True by (intro exI[of _ 10]) (simp add: sqrt_start_def round_bit_def)
next
  case False
  then show ?thesis using unat_u32_less[of num] by (intro exI[of _ 16]) (simp add: sqrt_start_def round_bit_def)
qed

lemma round_bit_8: "push_bit 14 1 = round_bit 8"
  by (simp add: round_bit_def)

lemma sqrt_rounds_ok:
  assumes v: "unat num \<le> 2 ^ 31"
  shows "\<exists>R X. R\<^sup>2 \<le> unat num \<and> unat num < (R + 1)\<^sup>2 \<and>
     X = unat num * 2 ^ 16 - (if unat num - R\<^sup>2 > 65535 then 2 ^ 14 else 0) \<and>
     (unat (sqrt_rounds num))\<^sup>2 \<le> X \<and> X < (unat (sqrt_rounds num) + 1)\<^sup>2"
proof -
  obtain n where n: "n \<le> 16" "sqrt_start num = round_bit n" "unat num < 4 ^ n" using sqrt_start_ok by blast
  obtain m where m: "m \<le> 16" "sqrt_shrink (sqrt_start num) num = round_bit m" "unat num < 4 ^ m"
    using sqrt_shrink_ok[OF n(1,3)] n(2) by auto
  have "(4::nat) ^ m \<le> 4 ^ 16" using m(1) by (intro power_increasing) auto
  then have c: "unat (0::u32) = 0 * 2 ^ m" "unat num + 0\<^sup>2 = unat num" "unat num < (0 + 2 ^ m)\<^sup>2" "(0 + 2 ^ m) * 2 ^ m \<le> (2::nat) ^ 32"
    using m(3) by (simp_all add: power2_eq_square flip: power_mult_distrib)
  obtain n1 r1 where r1: "sqrt_bits num 0 (round_bit m) = (n1, r1)" "unat n1 + (unat r1)\<^sup>2 = unat num" "unat num < (unat r1 + 1)\<^sup>2"
    using sqrt_bits_ok[OF m(1) c] by auto
  have small: "unat r1 < 2 ^ 16"
  proof (rule ccontr)
    assume "\<not> unat r1 < 2 ^ 16"
    then have "(2 ^ 16)\<^sup>2 \<le> (unat r1)\<^sup>2" by (intro power_mono) simp_all
    then show False using r1(2) v by simp
  qed
  have rest: "unat n1 \<le> 2 * unat r1" using r1(2,3) by (simp add: power2_eq_square)
  have scale: "(r * 2 ^ 8 + 2 ^ 8)\<^sup>2 = (r + 1)\<^sup>2 * 2 ^ 16" for r :: nat by (simp add: power2_eq_square algebra_simps)
  define d where "d = (if unat n1 > 65535 then 2 ^ 14 else 0 :: nat)"
  obtain n2 r2 R2 where w: "sqrt_widen (n1, r1) = (n2, r2)" "unat r2 = R2 * 2 ^ 8" "unat n2 + R2\<^sup>2 = unat num * 2 ^ 16 - d"
    "unat num * 2 ^ 16 - d < (R2 + 2 ^ 8)\<^sup>2" "(R2 + 2 ^ 8) * 2 ^ 8 \<le> (2::nat) ^ 32"
  proof (cases "n1 > 65535")
    case False
    then have le: "unat n1 \<le> 65535" by (simp add: word_less_nat_alt)
    have "unat num * 2 ^ 16 < (unat r1 * 2 ^ 8 + 2 ^ 8)\<^sup>2" unfolding scale using r1(3) by simp
    then show ?thesis
      using that[of "push_bit 16 n1" "push_bit 16 r1" "unat r1 * 2 ^ 8"] False le small r1(2)
      by (auto simp: sqrt_widen_def unat_push d_def power2_eq_square)
  next
    case True
    then have gt: "unat n1 > 65535" by (simp add: word_less_nat_alt)
    have sub: "unat (n1 - r1) = unat n1 - unat r1" using gt small by (intro unat_sub) (simp add: word_le_nat_alt)
    have p: "unat (push_bit 16 (n1 - r1)) = (unat n1 - unat r1) * 2 ^ 16" "unat (push_bit 16 r1) = unat r1 * 2 ^ 16"
      using sub rest small by (auto simp: unat_push)
    have "(0x8000::u32) \<le> push_bit 16 (n1 - r1)" using p(1) gt small by (simp add: word_le_nat_alt)
    then have u1: "unat (push_bit 16 (n1 - r1) - 0x8000) = (unat n1 - unat r1) * 2 ^ 16 - 2 ^ 15" using p(1) by (simp add: unat_sub)
    have u2: "unat (push_bit 16 r1 + 0x8000) = (unat r1 * 2 ^ 8 + 2 ^ 7) * 2 ^ 8" using p(2) small by (subst unat_plus) simp_all
    define r k where "r = unat r1" and "k = unat n1 - unat r1"
    have k: "1 \<le> k" "unat num = r + k + r\<^sup>2" using gt small r1(2) by (auto simp: r_def k_def)
    have e: "(r * 2 ^ 8 + 2 ^ 7)\<^sup>2 = r\<^sup>2 * 2 ^ 16 + r * 2 ^ 16 + 2 ^ 14" by (simp add: power2_eq_square algebra_simps)
    have "unat (push_bit 16 (n1 - r1) - 0x8000) + (r * 2 ^ 8 + 2 ^ 7)\<^sup>2 = unat num * 2 ^ 16 - d"
      unfolding u1 e k(2) using k(1) gt by (simp add: d_def k_def[symmetric])
    moreover have "unat num * 2 ^ 16 - d < (r * 2 ^ 8 + 2 ^ 7 + 2 ^ 8)\<^sup>2"
    proof -
      have "unat num * 2 ^ 16 - d < (r * 2 ^ 8 + 2 ^ 8)\<^sup>2" unfolding scale using r1(3) by (simp add: r_def)
      also have "\<dots> \<le> (r * 2 ^ 8 + 2 ^ 7 + 2 ^ 8)\<^sup>2" by (intro power_mono) simp_all
      finally show ?thesis .
    qed
    moreover have "(r * 2 ^ 8 + 2 ^ 7 + 2 ^ 8) * 2 ^ 8 \<le> 2 ^ 32"
    proof -
      have "r\<^sup>2 \<le> 2 ^ 31" using k(2) v by linarith
      then have "r \<le> 2 ^ 16 - 2" by (intro power2_le_imp_le[of r "2 ^ 16 - 2"]) (simp_all add: power2_eq_square)
      then show ?thesis by simp
    qed
    ultimately show ?thesis
      using that[of "push_bit 16 (n1 - r1) - 0x8000" "push_bit 16 r1 + 0x8000" "r * 2 ^ 8 + 2 ^ 7"] True u2
      by (simp add: sqrt_widen_def r_def)
  qed
  have snd: "sqrt_rounds num = snd (sqrt_bits n2 r2 (round_bit 8))"
    using m(2) r1(1) w(1) unfolding sqrt_rounds_def round_bit_8 by simp
  obtain n3 r3 where r3: "sqrt_bits n2 r2 (round_bit 8) = (n3, r3)" "unat n3 + (unat r3)\<^sup>2 = unat num * 2 ^ 16 - d"
    "unat num * 2 ^ 16 - d < (unat r3 + 1)\<^sup>2" using sqrt_bits_ok[OF _ w(2-5)] by auto
  have "unat num - (unat r1)\<^sup>2 = unat n1" using r1(2) by linarith
  then show ?thesis using snd r1(2,3) r3 by (intro exI[of _ "unat r1"] exI[of _ "unat num * 2 ^ 16 - d"]) (auto simp: d_def)
qed

lemma fix16_sqrt_root:
  assumes "0 \<le> v" "v < 2 ^ 31"
  shows "\<exists>r. fix16_sqrt v = Some r \<and> 0 \<le> r \<and> r\<^sup>2 \<le> v * 2 ^ 16 \<and> v * 2 ^ 16 < (r + 1)\<^sup>2 + 2 ^ 14 \<and>
     (v < 2 ^ 30 \<longrightarrow> v * 2 ^ 16 < (r + 1)\<^sup>2) \<and> (0 < v \<longrightarrow> fix16_sqrt (- v) = Some (- r))"
proof -
  let ?num = "word_of_int v :: u32"
  let ?w = "sqrt_rounds ?num"
  have u: "int (unat ?num) = v" using assms by (simp add: uint_word_of_int_eq take_bit_int_eq_self)
  have "int (unat ?num) < int (2 ^ 31)" using assms u by simp
  then have un: "unat ?num < 2 ^ 31" by (simp only: of_nat_less_iff)
  obtain R X where R: "R\<^sup>2 \<le> unat ?num" "unat ?num < (R + 1)\<^sup>2" "X = unat ?num * 2 ^ 16 - (if unat ?num - R\<^sup>2 > 65535 then 2 ^ 14 else 0)"
    "(unat ?w)\<^sup>2 \<le> X" "X < (unat ?w + 1)\<^sup>2"
  proof -
    have "unat ?num \<le> 2 ^ 31" using un by simp
    from sqrt_rounds_ok[OF this] show ?thesis using that by blast
  qed
  have le: "X \<le> unat ?num * 2 ^ 16" "unat ?num * 2 ^ 16 \<le> X + 2 ^ 14" unfolding R(3) by simp_all
  have ex: "X = unat ?num * 2 ^ 16" if "v < 2 ^ 30"
  proof -
    have "int (unat ?num) < int (2 ^ 30)" using u that by simp
    then have "unat ?num < 2 ^ 30" by (simp only: of_nat_less_iff)
    then have "R\<^sup>2 < (2 ^ 15)\<^sup>2" using R(1) by (simp add: power2_eq_square)
    then have "R < 2 ^ 15" by (rule power_less_imp_less_base) simp
    then have "unat ?num - R\<^sup>2 \<le> 65535" using R(2) by (simp add: power2_eq_square)
    then show ?thesis unfolding R(3) by simp
  qed
  have small: "unat ?w < 2 ^ 24"
  proof (rule ccontr)
    assume "\<not> unat ?w < 2 ^ 24"
    then have "(2 ^ 24)\<^sup>2 \<le> (unat ?w)\<^sup>2" by (intro power_mono) simp_all
    then show False using R(4) le(1) un by simp
  qed
  define r where "r = int (unat ?w)"
  have s: "sint ?w = r"
    using sint_small[of ?w] small by (simp add: r_def)
  have "int (unat ?num * 2 ^ 16) \<le> int (X + 2 ^ 14)" "int X \<le> int (unat ?num * 2 ^ 16)" "int ((unat ?w)\<^sup>2) \<le> int X" "int X < int ((unat ?w + 1)\<^sup>2)"
    using le R(4,5) by (simp_all only: of_nat_le_iff of_nat_less_iff)
  then have i: "v * 2 ^ 16 \<le> int X + 2 ^ 14" "int X \<le> v * 2 ^ 16" "r\<^sup>2 \<le> int X" "int X < (r + 1)\<^sup>2"
    unfolding of_nat_mult of_nat_add of_nat_power u r_def by simp_all
  have ex': "int X = v * 2 ^ 16" if "v < 2 ^ 30" using arg_cong[OF ex[OF that], of int] u by simp
  have "fix16_sqrt v = Some r" using assms s by (simp add: fix16_sqrt_def)
  moreover have "fix16_sqrt (- v) = Some (- r)" if "0 < v" using assms s that by (simp add: fix16_sqrt_def chk32_def fits32_def)
  ultimately show ?thesis using i ex' by (intro exI[of _ r]) (auto simp: r_def)
qed


section \<open>Product\<close>

lemma word_of_int_zero_iff: "- (2 ^ 31) \<le> i \<Longrightarrow> i < 2 ^ 31 \<Longrightarrow> (word_of_int i :: u32) = 0 \<longleftrightarrow> i = 0"
  by (metis sint_0 sint_fits word_of_int_0)

text \<open>C25: the product of two fixed-point numbers is the exact product, divided by \<open>2 ^ 16\<close> and rounded down, whenever that
  fits into 32 bits, and the overflow value exactly when it does not.\<close>

theorem fix16_mul_correct:
  assumes "fits32 a" "fits32 b"
  shows "fix16_mul a b = (if - (2 ^ 47) \<le> a * b \<and> a * b < 2 ^ 47 then a * b div 2 ^ 16 else fix16_overflow)"
proof -
  define p where "p = a * b"
  define u where "u = p div 2 ^ 47"
  have "\<bar>a\<bar> \<le> 2 ^ 31" "\<bar>b\<bar> \<le> 2 ^ 31" using assms by (auto simp: fits32_def)
  then have "\<bar>p\<bar> \<le> 2 ^ 31 * 2 ^ 31" unfolding p_def abs_mult by (intro mult_mono) simp_all
  then have u: "- (2 ^ 15) \<le> u" "u \<le> 2 ^ 15" by (auto simp: u_def)
  have z: "(word_of_int u :: u32) = 0 \<longleftrightarrow> u = 0" using u by (intro word_of_int_zero_iff) simp_all
  have n: "NOT (word_of_int u :: u32) = 0 \<longleftrightarrow> u = - 1"
  proof -
    have "NOT (word_of_int u :: u32) = word_of_int (- u - 1)" by (simp add: not_eq_complement)
    moreover have "(word_of_int (- u - 1) :: u32) = 0 \<longleftrightarrow> - u - 1 = 0" using u by (intro word_of_int_zero_iff) simp_all
    ultimately show ?thesis by auto
  qed
  have s: "sint (word_of_int (p div 2 ^ 16) :: u32) = p div 2 ^ 16" if "- (2 ^ 47) \<le> p" "p < 2 ^ 47"
    using that by (intro sint_fits) auto
  have "p = u * 2 ^ 47 + p mod 2 ^ 47" "0 \<le> p mod 2 ^ 47" "p mod 2 ^ 47 < 2 ^ 47" by (simp_all add: u_def)
  then have r: "u = 0 \<longleftrightarrow> 0 \<le> p \<and> p < 2 ^ 47" "u = - 1 \<longleftrightarrow> - (2 ^ 47) \<le> p \<and> p < 0" by auto
  show ?thesis
    unfolding fix16_mul_def Let_def p_def[symmetric] u_def[symmetric] using z n r s by auto
qed

theorem fix16_mul_correct_witness:
  "fix16_mul (-98304) 163840 = -245760 \<and> fix16_mul 2147483647 2147483647 = fix16_overflow"
  using fix16_mul_correct[of "-98304" 163840] fix16_mul_correct[of 2147483647 2147483647] by (simp add: fits32_def)

section \<open>Division\<close>

lemma clz_ok:
  assumes "x \<noteq> 0"
  shows "0 \<le> clz x" "unat x * 2 ^ nat (clz x) < 2 ^ 32"
proof -
  have pos: "0 < uint x" using assms by (simp add: word_neq_0_conv word_less_def)
  have len: "0 \<le> bitlen (uint x)" "bitlen (uint x) \<le> 32"
    using bitlen_le_iff_power[of "uint x" 32] uint_lt2p[of x] by (simp_all add: bitlen_nonneg)
  then show "0 \<le> clz x" by (simp add: clz_def)
  have "uint x < 2 ^ nat (bitlen (uint x))" using bitlen_bounds[OF pos] by simp
  then have "unat x < 2 ^ nat (bitlen (uint x))" by (simp flip: of_nat_less_iff[where 'a = int])
  then have "unat x * 2 ^ nat (clz x) < 2 ^ nat (bitlen (uint x)) * 2 ^ nat (clz x)" by simp
  also have "\<dots> = (2::nat) ^ (nat (bitlen (uint x)) + nat (clz x))" by (simp add: power_add)
  also have "nat (bitlen (uint x)) + nat (clz x) = 32" using len by (simp add: clz_def)
  finally show "unat x * 2 ^ nat (clz x) < 2 ^ 32" .
qed

lemma ones_shifted: "drop_bit n (0xFFFFFFFF :: u32) = mask (32 - n)"
proof -
  have "(0xFFFFFFFF :: u32) = mask 32" by (simp add: mask_eq_exp_minus_1)
  then have "drop_bit n (0xFFFFFFFF :: u32) = drop_bit n (mask 32)" by (rule arg_cong)
  also have "\<dots> = mask (32 - n)" by (rule bit_eqI) (auto simp: bit_simps)
  finally show ?thesis .
qed

text \<open>One round of the loop on natural numbers: the remainder is shifted by \<open>s\<close>, divided, and doubled.\<close>

lemma div_round:
  fixes r D s p :: nat
  assumes "0 < D"
  shows "r * 2 ^ (Suc (s + p)) div (2 * D) = (r * 2 ^ s div D) * 2 ^ p + (2 * (r * 2 ^ s mod D)) * 2 ^ p div (2 * D)"
proof -
  let ?x = "r * 2 ^ s"
  have "r * 2 ^ (Suc (s + p)) div (2 * D) = (2 * (?x * 2 ^ p)) div (2 * D)" by (simp add: power_add algebra_simps)
  also have "\<dots> = ?x * 2 ^ p div D" by simp
  also have "?x * 2 ^ p = ((?x div D) * 2 ^ p) * D + (?x mod D) * 2 ^ p"
    by (metis add_mult_distrib div_mult_mod_eq mult.assoc mult.commute)
  also have "\<dots> div D = (?x div D) * 2 ^ p + (?x mod D) * 2 ^ p div D" using assms by simp
  also have "(?x mod D) * 2 ^ p div D = (2 * ((?x mod D) * 2 ^ p)) div (2 * D)" by simp
  finally show ?thesis by (simp only: mult.assoc)
qed

lemma loop_shift:
  assumes "rm \<noteq> 0"
  obtains s p where "(if clz rm > int n then int n else clz rm) = int s" "n = s + p" "int n - int s = int p"
    "unat (push_bit s rm) = unat rm * 2 ^ s"
proof -
  define s where "s = nat (if clz rm > int n then int n else clz rm)"
  have c: "0 \<le> clz rm" "unat rm * 2 ^ nat (clz rm) < 2 ^ 32" using clz_ok[OF assms] .
  have i: "(if clz rm > int n then int n else clz rm) = int s" "s \<le> n" "s \<le> nat (clz rm)" using c(1) by (auto simp: s_def)
  have "unat rm * 2 ^ s \<le> unat rm * 2 ^ nat (clz rm)" using i(3) by simp
  then have "unat (push_bit s rm) = unat rm * 2 ^ s" using c(2) by (intro unat_push) linarith
  then show ?thesis using that[of s "n - s"] i by simp
qed

lemma div_loop_stop: "rm = 0 \<or> n = 0 \<Longrightarrow> div_loop rm D q (int n - 1) = Some (Some q)"
  by (subst div_loop.simps) auto

lemma div_loop_round:
  assumes "rm \<noteq> 0" "0 < unat D" "(if clz rm > int m then int m else clz rm) = int s" "int m - int s = int p"
  shows "div_loop rm D q (int m) =
    (if push_bit s rm div D AND NOT (drop_bit p 0xFFFFFFFF) \<noteq> 0 then Some None
     else div_loop (push_bit 1 (push_bit s rm mod D)) D (q + push_bit p (push_bit s rm div D)) (int p - 1))"
  unfolding div_loop.simps[of rm D q "int m"] Let_def assms(3,4) using assms(1,2) by (simp add: unat_gt_0)

lemma div_loop_ok:
  assumes "0 < unat D" "unat D \<le> 2 ^ 31" "n \<le> 32" "n = 0 \<Longrightarrow> unat rm < 2 * unat D"
    "unat q + unat rm * 2 ^ n div (2 * unat D) < 2 ^ 32"
  shows "\<exists>q'. div_loop rm D q (int n - 1) = Some (Some q') \<and> unat q' = unat q + unat rm * 2 ^ n div (2 * unat D)"
  using assms(3-)
proof (induction n arbitrary: rm q rule: less_induct)
  case (less n)
  show ?case
  proof (cases "rm = 0 \<or> n = 0")
    case True
    then have "unat rm * 2 ^ n div (2 * unat D) = 0" using less.prems(2) by auto
    then show ?thesis using div_loop_stop[OF True] by simp
  next
    case False
    then obtain m where m: "n = Suc m" by (metis not0_implies_Suc)
    obtain s p where sp: "(if clz rm > int m then int m else clz rm) = int s" "m = s + p" "int m - int s = int p"
      "unat (push_bit s rm) = unat rm * 2 ^ s" using loop_shift[of rm m] False by blast
    let ?d = "push_bit s rm div D" and ?r = "push_bit s rm mod D"
    have d: "unat ?d = unat rm * 2 ^ s div unat D" "unat ?r = unat rm * 2 ^ s mod unat D"
      using sp(4) by (simp_all add: unat_div_distrib unat_mod_distrib)
    have r: "unat (push_bit 1 ?r) = 2 * (unat rm * 2 ^ s mod unat D)" "2 * (unat rm * 2 ^ s mod unat D) < 2 * unat D"
    proof -
      show "2 * (unat rm * 2 ^ s mod unat D) < 2 * unat D" using assms(1) by simp
      then show "unat (push_bit 1 ?r) = 2 * (unat rm * 2 ^ s mod unat D)" using d(2) assms(2) by (subst unat_push) simp_all
    qed
    have eq: "unat rm * 2 ^ n div (2 * unat D) = unat ?d * 2 ^ p + unat (push_bit 1 ?r) * 2 ^ p div (2 * unat D)"
      unfolding m sp(2) r(1) d(1) by (rule div_round[OF assms(1)])
    then have lt: "unat q + unat ?d * 2 ^ p < 2 ^ 32" using less.prems(3) by linarith
    have "unat ?d * 2 ^ p < 2 ^ (32 - p) * 2 ^ p" using lt m sp(2) less.prems(1) by (simp flip: power_add)
    then have ov: "?d AND NOT (drop_bit p 0xFFFFFFFF) = 0"
      using m sp(2) less.prems(1) by (subst ones_shifted) (simp_all add: and_not_mask_zero)
    have up: "unat (push_bit p ?d) = unat ?d * 2 ^ p" using lt by (intro unat_push) linarith
    then have uq: "unat (q + push_bit p ?d) = unat q + unat ?d * 2 ^ p" using lt by (subst unat_plus) simp_all
    obtain q' where q': "div_loop (push_bit 1 ?r) D (q + push_bit p ?d) (int p - 1) = Some (Some q')"
      "unat q' = unat (q + push_bit p ?d) + unat (push_bit 1 ?r) * 2 ^ p div (2 * unat D)"
      using less.IH[of p "push_bit 1 ?r" "q + push_bit p ?d"] m sp(2) less.prems(1,3) r eq uq by auto
    have "div_loop rm D q (int n - 1) = div_loop (push_bit 1 ?r) D (q + push_bit p ?d) (int p - 1)"
      using div_loop_round[of rm D m s p q] False assms(1) m sp(1,3) ov by simp
    then show ?thesis using q' eq uq by simp
  qed
qed

lemma div_loop_overflow:
  assumes "0 < unat D" "n \<le> 32" "2 ^ 32 \<le> unat rm * 2 ^ n div (2 * unat D)" "0 < n"
  shows "div_loop rm D q (int n - 1) = Some None"
proof -
  obtain m where m: "n = Suc m" using assms(4) by (metis not0_implies_Suc not_gr_zero)
  have rm: "rm \<noteq> 0" using assms(3) by auto
  obtain s p where sp: "(if clz rm > int m then int m else clz rm) = int s" "m = s + p" "int m - int s = int p"
    "unat (push_bit s rm) = unat rm * 2 ^ s" using loop_shift[OF rm, of m] by blast
  let ?d = "push_bit s rm div D"
  have d: "unat ?d = unat rm * 2 ^ s div unat D" using sp(4) by (simp add: unat_div_distrib)
  have "(2 * (unat rm * 2 ^ s mod unat D)) * 2 ^ p < 2 * unat D * 2 ^ p" using assms(1) by simp
  then have "(2 * (unat rm * 2 ^ s mod unat D)) * 2 ^ p div (2 * unat D) < 2 ^ p"
    using assms(1) by (intro less_mult_imp_div_less) (simp add: mult.commute)
  then have "2 ^ 32 < unat ?d * 2 ^ p + 2 ^ p" using assms(3) div_round[OF assms(1), of "unat rm" s p] unfolding m sp(2) d by linarith
  then have "2 ^ (32 - p) * 2 ^ p < (unat ?d + 1) * 2 ^ p" using m sp(2) assms(2) by (simp flip: power_add)
  then have "\<not> unat ?d < 2 ^ (32 - p)" by (simp only: mult_less_cancel2) linarith
  then have "?d AND NOT (drop_bit p 0xFFFFFFFF) \<noteq> 0"
    using m sp(2) assms(2) by (subst ones_shifted) (simp_all add: and_not_mask_zero)
  then show ?thesis using div_loop_round[OF rm assms(1) sp(1,3)] m by simp
qed

lemma div_norm_ok:
  assumes "0 < unat D"
  shows "\<exists>D' p' j. div_norm D (int p) = (D', int p') \<and> unat D = unat D' * 16 ^ j \<and> p = p' + 4 * j \<and> 0 < unat D'"
  using assms
proof (induction p arbitrary: D rule: less_induct)
  case (less p)
  show ?case
  proof (cases "D AND 0xF = 0 \<and> int p \<ge> 4")
    case False
    then show ?thesis using less.prems by (intro exI[of _ D] exI[of _ p] exI[of _ 0]) (subst div_norm.simps, auto)
  next
    case True
    then obtain k where k: "p = k + 4" "int p - 4 = int k" by (metis add.commute add_diff_cancel_left' int_ops(3) le_add_diff_inverse nat_le_iff_add of_nat_add of_nat_le_iff of_nat_numeral)
    have "D AND mask 4 = 0" using True by (simp add: mask_eq_exp_minus_1)
    then have "take_bit 4 D = 0" by (simp add: take_bit_eq_mask)
    then have "take_bit 4 (unat D) = 0" by (metis unsigned_take_bit_eq unsigned_0)
    then have "unat D mod 16 = 0" by (simp add: take_bit_eq_mod)
    then have dv: "unat D = unat (drop_bit 4 D) * 16" unfolding unat_drop by auto
    then have pos: "0 < unat (drop_bit 4 D)" using less.prems by linarith
    obtain D' p' j where IH: "div_norm (drop_bit 4 D) (int k) = (D', int p')" "unat (drop_bit 4 D) = unat D' * 16 ^ j"
      "k = p' + 4 * j" "0 < unat D'" using less.IH[of k "drop_bit 4 D"] pos k(1) by auto
    have "div_norm D (int p) = (D', int p')" using True IH(1) k(2) by (subst div_norm.simps) simp
    then show ?thesis using IH(2-4) dv k(1) by (intro exI[of _ D'] exI[of _ p'] exI[of _ "Suc j"]) simp
  qed
qed

lemma high_bits: "(w::u32) AND 0xFFF00000 = 0 \<longleftrightarrow> unat w < 2 ^ 20"
proof -
  have "NOT (mask 20) = (0xFFF00000 :: u32)" by (simp add: mask_eq_exp_minus_1)
  then show ?thesis using and_not_mask_zero[of w 20] by simp
qed

text \<open>The estimate is at most one too large, and exact when the divider is below $2^{20}$.\<close>

lemma div_kick_ok:
  assumes "0 < unat D" "unat D < 2 ^ 31" "unat rm < 2 ^ 31"
  shows "\<exists>q r. div_kick rm D = (q, r) \<and> (unat D < 2 ^ 20 \<longrightarrow> q = 0 \<and> r = rm) \<and>
    (2 ^ 20 \<le> unat D \<longrightarrow> (let Q = unat rm * 2 ^ 17 div unat D; T = unat q + unat r * 2 ^ 17 div unat D in Q \<le> T \<and> T \<le> Q + 1))"
proof (cases "unat D < 2 ^ 20")
  case True
  then show ?thesis using high_bits[of D] by (simp add: div_kick_def)
next
  case False
  define S where "S = drop_bit 17 D + 1"
  have us: "unat S = unat D div 2 ^ 17 + 1" unfolding S_def using assms(2) by (subst unat_plus) (simp_all add: unat_drop)
  define q where "q = rm div S"
  have uq: "unat q = unat rm div unat S" by (simp add: q_def unat_div_distrib)
  have qD: "unat q * unat D \<le> unat rm * 2 ^ 17"
  proof -
    have "unat D \<le> unat S * 2 ^ 17" unfolding us using div_mult_mod_eq[of "unat D" "2 ^ 17"] by (simp add: add_mult_distrib) 
    then have "unat q * unat D \<le> unat q * unat S * 2 ^ 17" by (simp add: mult.assoc)
    also have "\<dots> \<le> unat rm * 2 ^ 17" unfolding uq by (simp add: div_times_less_eq_dividend)
    finally show ?thesis .
  qed
  define y where "y = unat q * unat D div 2 ^ 17"
  have y: "y \<le> unat rm" unfolding y_def using qD by (metis div_le_mono nonzero_mult_div_cancel_right power_not_zero zero_neq_numeral)
  have u64: "unat (drop_bit 17 (ucast q * ucast D :: u64)) = y"
  proof -
    have "unat q * unat D < 2 ^ 64" using qD assms(3) by simp
    then show ?thesis unfolding unat_drop y_def by (simp add: unat_word_ariths unat_ucast_up)
  qed
  define r where "r = rm - ucast (drop_bit 17 (ucast q * ucast D :: u64))"
  have uy: "unat (ucast (drop_bit 17 (ucast q * ucast D :: u64)) :: u32) = y"
    using u64 y assms(3) by (simp add: unsigned_ucast_eq take_bit_nat_eq_self)
  have ur: "unat r = unat rm - y" unfolding r_def using uy y by (subst unat_sub) (simp_all add: word_le_nat_alt)
  have k: "div_kick rm D = (q, r)" using False high_bits[of D] by (simp add: div_kick_def Let_def S_def q_def r_def)
  define e where "e = unat q * unat D mod 2 ^ 17"
  have e: "e < 2 ^ 17" "unat q * unat D = y * 2 ^ 17 + e" by (simp_all add: e_def y_def)
  have tot: "unat rm * 2 ^ 17 + e = unat q * unat D + unat r * 2 ^ 17" unfolding ur e(2) using y by (simp add: diff_mult_distrib)
  have T: "unat q + unat r * 2 ^ 17 div unat D = (unat rm * 2 ^ 17 + e) div unat D" unfolding tot using assms(1) by simp
  have "(unat rm * 2 ^ 17 + e) div unat D \<le> (unat rm * 2 ^ 17 + unat D) div unat D" using e(1) False by (intro div_le_mono) simp
  also have "\<dots> = unat rm * 2 ^ 17 div unat D + 1" using assms(1) by simp
  finally have "unat q + unat r * 2 ^ 17 div unat D \<le> unat rm * 2 ^ 17 div unat D + 1" unfolding T .
  moreover have "unat rm * 2 ^ 17 div unat D \<le> unat q + unat r * 2 ^ 17 div unat D" unfolding T by (intro div_le_mono) simp
  ultimately show ?thesis using k False by (simp add: Let_def)
qed

lemma sign_bit:
  assumes "fits32 a" "fits32 b"
  shows "(word_of_int (a XOR b) :: u32) AND 0x80000000 \<noteq> 0 \<longleftrightarrow> (a < 0) \<noteq> (b < 0)"
proof -
  have neg: "bit x 31 \<longleftrightarrow> x < 0" if "fits32 x" for x
  proof -
    have "signed_take_bit 31 x = x" using that by (intro signed_take_bit_int_eq_self) (simp_all add: fits32_def)
    then show ?thesis by (metis signed_take_bit_negative_iff)
  qed
  have "(0x80000000 :: u32) = push_bit 31 1" by simp
  then have "(word_of_int (a XOR b) :: u32) AND 0x80000000 \<noteq> 0 \<longleftrightarrow> bit (word_of_int (a XOR b) :: u32) 31"
    by (metis bit_iff_and_push_bit_not_eq_0)
  also have "\<dots> \<longleftrightarrow> bit (a XOR b) 31" by (simp add: bit_simps)
  also have "\<dots> \<longleftrightarrow> (a < 0) \<noteq> (b < 0)" using neg assms by (simp add: bit_simps)
  finally show ?thesis .
qed

lemma div_magnitude:
  assumes "0 < unat b" "unat b < 2 ^ 31" "unat a < 2 ^ 31"
  defines "t \<equiv> unat a * 2 ^ 16 div unat b"
  shows "\<exists>r. (case div_kick a b of (q, rm) \<Rightarrow> case div_norm b 17 of (d, p) \<Rightarrow> div_loop rm d q p) = Some r \<and>
    (if unat b < 2 ^ 20 \<and> 2 ^ 31 \<le> t then r = None
     else \<exists>q. r = Some q \<and> unat q div 2 < 2 ^ 31 \<and> t \<le> unat q div 2 \<and> unat q div 2 \<le> t + 1 \<and> (unat b < 2 ^ 20 \<longrightarrow> unat q div 2 = t))"
proof -
  define Q where "Q = unat a * 2 ^ 17 div unat b"
  obtain q rm where k: "div_kick a b = (q, rm)" "unat b < 2 ^ 20 \<longrightarrow> q = 0 \<and> rm = a"
    "2 ^ 20 \<le> unat b \<longrightarrow> Q \<le> unat q + unat rm * 2 ^ 17 div unat b \<and> unat q + unat rm * 2 ^ 17 div unat b \<le> Q + 1"
    using div_kick_ok[OF assms(1-3)] by (auto simp: Let_def Q_def)
  obtain d p j where n: "div_norm b (int 17) = (d, int p)" "unat b = unat d * 16 ^ j" "17 = p + 4 * j" "0 < unat d"
    using div_norm_ok[OF assms(1), of 17] by blast
  have "unat d \<le> unat b" unfolding n(2) by simp
  then have d31: "unat d \<le> 2 ^ 31" using assms(2) by linarith
  have p32: "Suc p \<le> 32" using n(3) by linarith
  have T: "x * 2 ^ Suc p div (2 * unat d) = x * 2 ^ 17 div unat b" for x :: nat
  proof -
    have e: "(2::nat) ^ 17 = 2 ^ p * 16 ^ j" unfolding n(3) by (simp add: power_add power_mult)
    have "x * 2 ^ 17 div unat b = (x * 2 ^ p) * 16 ^ j div (unat d * 16 ^ j)" unfolding n(2) e by (simp add: mult.assoc)
    then show ?thesis by (simp add: mult.left_commute[of _ 2])
  qed
  have "Q div 2 = (2 * (unat a * 2 ^ 16)) div (2 * unat b)" by (simp add: Q_def div_mult2_eq mult.commute flip: div_mult2_eq)
  then have t: "t = Q div 2" by (simp add: t_def mult.commute)
  have run: "(case div_kick a b of (q, rm) \<Rightarrow> case div_norm b 17 of (d, p) \<Rightarrow> div_loop rm d q p) = div_loop rm d q (int (Suc p) - 1)"
    using k(1) n(1) by simp
  show ?thesis
  proof (cases "unat b < 2 ^ 20 \<and> 2 ^ 31 \<le> t")
    case True
    then have "2 ^ 32 \<le> unat rm * 2 ^ Suc p div (2 * unat d)" using k(2) t unfolding T Q_def by auto
    then have "div_loop rm d q (int (Suc p) - 1) = Some None" using div_loop_overflow[OF n(4) p32] by simp
    then show ?thesis unfolding run using True by simp
  next
    case False
    define V where "V = unat q + unat rm * 2 ^ 17 div unat b"
    have V: "Q \<le> V" "V \<le> Q + 1" "unat b < 2 ^ 20 \<longrightarrow> V = Q" using k(2,3) unfolding V_def Q_def by fastforce+
    have "Q + 1 < 2 ^ 32" if "2 ^ 20 \<le> unat b"
    proof -
      have "Q \<le> unat a * 2 ^ 17 div 2 ^ 20" unfolding Q_def using that by (intro div_le_mono2) simp_all
      also have "\<dots> \<le> 2 ^ 31 * 2 ^ 17 div 2 ^ 20" using assms(3) by (intro div_le_mono mult_le_mono1) simp
      finally have "Q \<le> 2 ^ 28" by simp
      then show ?thesis by simp
    qed
    then have lt: "V < 2 ^ 32" "V div 2 < 2 ^ 31" using V False t by (auto simp: not_less)
    have "unat q + unat rm * 2 ^ Suc p div (2 * unat d) < 2 ^ 32" unfolding T using lt(1) by (simp add: V_def)
    then obtain q' where q': "div_loop rm d q (int (Suc p) - 1) = Some (Some q')" "unat q' = V"
      using div_loop_ok[OF n(4) d31 p32] unfolding T V_def by blast
    have "t \<le> V div 2" "V div 2 \<le> t + 1" using V(1,2) unfolding t by auto
    then show ?thesis unfolding run using False q' lt V(3) t by auto
  qed
qed

text \<open>The whole function in terms of the loop on the magnitudes.\<close>

lemma fix16_div_by_loop:
  assumes "fits32 a" "fits32 b" "b \<noteq> 0" "a \<noteq> - (2 ^ 31)" "b \<noteq> - (2 ^ 31)"
    and "(case div_kick (word_of_int \<bar>a\<bar>) (word_of_int \<bar>b\<bar>) of (q, rm) \<Rightarrow>
       case div_norm (word_of_int \<bar>b\<bar>) 17 of (d, p) \<Rightarrow> div_loop rm d q p) = Some r"
    and small: "\<And>q. r = Some q \<Longrightarrow> unat q div 2 < 2 ^ 31"
  shows "fix16_div a b = Some (case r of None \<Rightarrow> fix16_overflow
    | Some q \<Rightarrow> (if (a < 0) = (b < 0) then 1 else - 1) * int (unat q div 2))"
proof -
  have m: "(if a \<ge> 0 then Some a else chk32 (- a)) = Some \<bar>a\<bar>" "(if b \<ge> 0 then Some b else chk32 (- b)) = Some \<bar>b\<bar>"
    using assms by (auto simp: chk32_def fits32_def)
  have res: "sint (drop_bit 1 q) = int (unat q div 2)" if "r = Some q" for q
  proof -
    have u: "unat (drop_bit 1 q) = unat q div 2" unfolding unat_drop by simp
    show ?thesis using sint_small[of "drop_bit 1 q"] small[OF that] unfolding u by simp
  qed
  have nm: "int n \<noteq> fix16_minimum" for n by (simp add: fix16_minimum_def)
  show ?thesis
  proof (cases r)
    case None
    then show ?thesis using assms(3,6) m by (auto simp: fix16_div_def div_result_def split: prod.splits)
  next
    case (Some q)
    show ?thesis unfolding fix16_div_def div_result_def m sign_bit[OF assms(1,2)]
      using Some res[OF Some] nm assms(3,6) by (auto split: prod.splits)
  qed
qed

text \<open>C23: the quotient of two fixed-point numbers is the exact quotient cut off towards zero, with the value for
  overflow when that does not fit, as long as the divider is below $2^{20}$ (16 as a fixed-point number).
  For larger dividers the estimate the routine starts with can make the magnitude one unit too large, never
  more and never too small.\<close>

theorem fix16_div_correct:
  assumes "fits32 a" "fits32 b" "b \<noteq> 0" "a \<noteq> - (2 ^ 31)" "b \<noteq> - (2 ^ 31)"
  defines "t \<equiv> \<bar>a\<bar> * 2 ^ 16 div \<bar>b\<bar>" and "sg \<equiv> (if (a < 0) = (b < 0) then 1 else - 1)"
  shows "(\<bar>b\<bar> < 2 ^ 20 \<longrightarrow> fix16_div a b = Some (if t < 2 ^ 31 then sg * t else fix16_overflow)) \<and>
    (2 ^ 20 \<le> \<bar>b\<bar> \<longrightarrow> fix16_div a b \<in> {Some (sg * t), Some (sg * (t + 1))})"
proof -
  define x y where "x = (word_of_int \<bar>a\<bar> :: u32)" and "y = (word_of_int \<bar>b\<bar> :: u32)"
  have r: "\<bar>a\<bar> < 2 ^ 31" "\<bar>b\<bar> < 2 ^ 31" "0 < \<bar>b\<bar>" using assms(1-5) by (auto simp: fits32_def)
  have xy: "int (unat x) = \<bar>a\<bar>" "int (unat y) = \<bar>b\<bar>" using r by (simp_all add: x_def y_def uint_word_of_int_eq take_bit_int_eq_self)
  have c: "unat z < 2 ^ k \<longleftrightarrow> int (unat z) < 2 ^ k" for z :: u32 and k
    using of_nat_less_iff[where 'a = int, of "unat z" "2 ^ k"] by simp
  have lt: "unat y < 2 ^ 31" "unat x < 2 ^ 31" unfolding c xy using r by simp_all
  have y0: "0 < unat y" using xy(2) r(3) by (metis of_nat_0_less_iff)
  define u where "u = unat x * 2 ^ 16 div unat y"
  have t: "t = int u" unfolding t_def u_def zdiv_int of_nat_mult xy by simp
  have b20: "unat y < 2 ^ 20 \<longleftrightarrow> \<bar>b\<bar> < 2 ^ 20" unfolding c xy ..
  obtain r where run: "(case div_kick x y of (q, rm) \<Rightarrow> case div_norm y 17 of (d, p) \<Rightarrow> div_loop rm d q p) = Some r"
    and res: "if unat y < 2 ^ 20 \<and> 2 ^ 31 \<le> u then r = None
      else \<exists>q. r = Some q \<and> unat q div 2 < 2 ^ 31 \<and> u \<le> unat q div 2 \<and> unat q div 2 \<le> u + 1 \<and> (unat y < 2 ^ 20 \<longrightarrow> unat q div 2 = u)"
    using div_magnitude[OF y0 lt] unfolding u_def by blast
  have "unat q div 2 < 2 ^ 31" if "r = Some q" for q using res that by (auto split: if_splits)
  from fix16_div_by_loop[OF assms(1-5) run[unfolded x_def y_def] this]
  have eq: "fix16_div a b = Some (case r of None \<Rightarrow> fix16_overflow | Some q \<Rightarrow> sg * int (unat q div 2))" unfolding sg_def .
  have t31: "t < 2 ^ 31 \<longleftrightarrow> \<not> 2 ^ 31 \<le> u" 
    using of_nat_less_iff[where 'a = int, of u "2 ^ 31"] unfolding t of_nat_power of_nat_numeral not_le .
  show ?thesis
  proof (cases "unat y < 2 ^ 20 \<and> 2 ^ 31 \<le> u")
    case True
    then show ?thesis using res eq t31 b20 by simp
  next
    case False
    then obtain q where q: "r = Some q" "u \<le> unat q div 2" "unat q div 2 \<le> u + 1" "unat y < 2 ^ 20 \<longrightarrow> unat q div 2 = u" using res by auto
    then have "unat q div 2 = u \<or> unat q div 2 = u + 1" by linarith
    then have "fix16_div a b \<in> {Some (sg * t), Some (sg * (t + 1))}" using eq q(1) by (auto simp: t)
    moreover have "fix16_div a b = Some (sg * t)" if "\<bar>b\<bar> < 2 ^ 20" using eq q(1,4) b20 that by (simp add: t)
    ultimately show ?thesis using False t31 b20 by auto
  qed
qed

section \<open>Arc tangent\<close>

definition cache_ok :: "atan_cache \<Rightarrow> bool" where
  "cache_ok c \<longleftrightarrow> length (cache_x c) = 4096 \<and> length (cache_y c) = 4096 \<and> length (cache_value c) = 4096 \<and>
     (\<forall>h < 4096. cache_x c ! h = 0 \<and> cache_y c ! h = 0 \<or> atan2_compute (cache_y c ! h) (cache_x c ! h) = Some (cache_value c ! h))"

lemma atan_hash_less: "atan_hash x y < 4096"
proof -
  have "unat (w AND 0x0FFF :: u32) < 4096" for w
  proof -
    have "(0x0FFF :: u32) = mask 12" by (simp add: mask_eq_exp_minus_1)
    then have "w AND 0x0FFF = take_bit 12 w" by (simp only: take_bit_eq_mask)
    then have "unat (w AND 0x0FFF) = take_bit 12 (unat w)" by (simp only: unsigned_take_bit_eq)
    then show ?thesis using take_bit_nat_less_exp[of 12 "unat w"] by simp
  qed
  then show ?thesis by (simp only: atan_hash_def Let_def)
qed

lemma cache_init_ok: "cache_ok atan_cache_init"
  by (simp add: cache_ok_def atan_cache_init_def)

lemma atan2_cached:
  assumes "cache_ok c" "(x, y) \<noteq> (0, 0)"
  shows "map_option fst (fix16_atan2 c y x) = atan2_compute y x"
proof (cases "cache_x c ! atan_hash x y = x \<and> cache_y c ! atan_hash x y = y")
  case True
  have "cache_x c ! atan_hash x y = 0 \<and> cache_y c ! atan_hash x y = 0 \<or>
    atan2_compute (cache_y c ! atan_hash x y) (cache_x c ! atan_hash x y) = Some (cache_value c ! atan_hash x y)"
    using assms(1) atan_hash_less[of x y] unfolding cache_ok_def by blast
  then show ?thesis using True assms(2) by (auto simp: fix16_atan2_def)
next
  case False
  then show ?thesis unfolding fix16_atan2_def Let_def by (cases "atan2_compute y x") auto
qed

lemma atan2_cache_ok:
  assumes "cache_ok c" "fix16_atan2 c y x = Some (v, c')"
  shows "cache_ok c'"
proof (cases "cache_x c ! atan_hash x y = x \<and> cache_y c ! atan_hash x y = y")
  case True
  then show ?thesis using assms by (auto simp: fix16_atan2_def Let_def)
next
  case False
  then obtain a where a: "atan2_compute y x = Some a" "c' = c\<lparr>cache_x := (cache_x c)[atan_hash x y := x],
      cache_y := (cache_y c)[atan_hash x y := y], cache_value := (cache_value c)[atan_hash x y := a]\<rparr>"
    using assms(2) by (auto simp: fix16_atan2_def Let_def bind_eq_Some_conv)
  then show ?thesis using assms(1) atan_hash_less[of x y] by (simp add: cache_ok_def nth_list_update)
qed

text \<open>A sequence of calls on one cache: the results.\<close>

fun atan2_calls :: "atan_cache \<Rightarrow> (int \<times> int) list \<Rightarrow> int list option" where
  "atan2_calls c [] = Some []"
| "atan2_calls c ((y, x) # yxs) = do {
     (v, c') \<leftarrow> fix16_atan2 c y x;
     vs \<leftarrow> atan2_calls c' yxs;
     Some (v # vs) }"

text \<open>The same without a cache.\<close>

fun atan2_plain :: "(int \<times> int) list \<Rightarrow> int list option" where
  "atan2_plain [] = Some []"
| "atan2_plain ((y, x) # yxs) = do { v \<leftarrow> atan2_compute y x; vs \<leftarrow> atan2_plain yxs; Some (v # vs) }"

lemma atan2_calls_plain:
  assumes "cache_ok c" "(0, 0) \<notin> set yxs"
  shows "atan2_calls c yxs = atan2_plain yxs"
  using assms
proof (induction c yxs rule: atan2_calls.induct)
  case (2 c y x yxs)
  have m: "map_option fst (fix16_atan2 c y x) = atan2_compute y x" using 2 by (intro atan2_cached) auto
  show ?case
  proof (cases "fix16_atan2 c y x")
    case None
    then show ?thesis using m by simp
  next
    case (Some vc)
    obtain v c' where vc: "vc = (v, c')" by (cases vc)
    have "atan2_calls c' yxs = atan2_plain yxs" using 2 atan2_cache_ok[of c y x v c'] Some vc by simp
    moreover have "atan2_compute y x = Some v" using m Some vc by simp
    ultimately show ?thesis using Some vc by simp
  qed
qed simp

text \<open>C24: the cache of \<open>fix16_atan2\<close> cannot be observed: from the zeroed cache every sequence of calls returns
  what the computation without a cache returns, and is undefined exactly when that is, provided that no call
  asks for the angle of the origin.\<close>

theorem fix16_atan2_cache_transparent:
  assumes "(0, 0) \<notin> set yxs"
  shows "atan2_calls atan_cache_init yxs = atan2_plain yxs"
  by (rule atan2_calls_plain[OF cache_init_ok assms])

theorem fix16_atan2_cache_transparent_witness:
  "atan2_calls atan_cache_init [(65536, 65536), (65536, 65536)] = Some [51471, 51471]"
proof -
  have "atan2_compute 65536 65536 = Some 51471" by code_simp
  then show ?thesis using fix16_atan2_cache_transparent[of "[(65536, 65536), (65536, 65536)]"] by simp
qed

text \<open>The origin is the exception: the zeroed cache claims to hold it.\<close>

lemma fix16_atan2_origin:
  "fix16_atan2 atan_cache_init 0 0 = Some (0, atan_cache_init)" "atan2_compute 0 0 = Some 1686685967"
proof -
  show "fix16_atan2 atan_cache_init 0 0 = Some (0, atan_cache_init)"
    using atan_hash_less[of 0 0] by (simp add: fix16_atan2_def atan_cache_init_def Let_def)
  show "atan2_compute 0 0 = Some 1686685967" by code_simp
qed

lemma fix16_sqrt_short: "fix16_sqrt 1424226814 = Some 9661165" "9661166\<^sup>2 \<le> (1424226814 :: int) * 2 ^ 16"
  by code_simp (simp add: power2_eq_square)

text \<open>C22: for every non-negative number the routine returns a root: its square does not exceed the number, and
  below $2^{30}$ it is the largest such value; above, where the remainder of the first round is adjusted by a half
  instead of a quarter, it can fall short by the square of that error. Negative numbers give the negated root.\<close>

theorem fix16_sqrt_correct:
  assumes "0 \<le> v" "v < 2 ^ 31"
  shows "\<exists>r. fix16_sqrt v = Some r \<and> 0 \<le> r \<and> r\<^sup>2 \<le> v * 2 ^ 16 \<and> v * 2 ^ 16 < (r + 1)\<^sup>2 + 2 ^ 14 \<and>
     (v < 2 ^ 30 \<longrightarrow> v * 2 ^ 16 < (r + 1)\<^sup>2) \<and> (0 < v \<longrightarrow> fix16_sqrt (- v) = Some (- r))"
  by (rule fix16_sqrt_root[OF assms])

theorem fix16_sqrt_correct_witness:
  "\<exists>r. fix16_sqrt 131072 = Some r \<and> r = 92681 \<and> r\<^sup>2 \<le> 131072 * 2 ^ 16"
proof -
  have "fix16_sqrt 131072 = Some 92681" by code_simp
  then show ?thesis using fix16_sqrt_correct[of 131072] by simp
qed

theorem fix16_div_correct_witness:
  "fix16_div (- 65536 * 7) (65536 * 2) = Some (- 229376) \<and> fix16_div 2147483647 1 = Some fix16_overflow"
  using fix16_div_correct[of "- 65536 * 7" "65536 * 2"] fix16_div_correct[of 2147483647 1] by (simp add: fits32_def)

text \<open>Every result is again a value of the type.\<close>

end
