(* ===== verification/Pkg_Cursor.thy ===== *)
theory Pkg_Cursor
  imports Awoke_Package
begin

text \<open>
  The packing macros of \<open>lib/libutil/include/awoke_package.h\<close>, used by the protocols of the commander. A
  pointer that walks over a packet is an offset into the block of memory it points into. Multi-byte
  fields are copied as they lie in memory; the programs run on little-endian machines, and swap the
  bytes with \<open>awoke_htonl\<close> and \<open>awoke_htons\<close> where the packet is big-endian.
\<close>

section \<open>Model\<close>

definition u8_bytes :: "u8 \<Rightarrow> bytes" where "u8_bytes x = [x]"
definition u16_bytes :: "u16 \<Rightarrow> bytes" where "u16_bytes x = le_bytes 2 (unat x)"
definition u32_bytes :: "u32 \<Rightarrow> bytes" where "u32_bytes x = le_bytes 4 (unat x)"

definition pkg_bytes_pull :: "bytes \<Rightarrow> int \<Rightarrow> nat \<Rightarrow> (bytes \<times> int) option" where
  "pkg_bytes_pull m p n = do { x \<leftarrow> mem_read m p n; Some (x, p + int n) }"

definition pkg_pull_byte :: "bytes \<Rightarrow> int \<Rightarrow> (u8 \<times> int) option" where
  "pkg_pull_byte m p = do { (x, q) \<leftarrow> pkg_bytes_pull m p 1; Some (of_nat (le_nat x), q) }"

definition pkg_pull_word :: "bytes \<Rightarrow> int \<Rightarrow> (u16 \<times> int) option" where
  "pkg_pull_word m p = do { (x, q) \<leftarrow> pkg_bytes_pull m p 2; Some (of_nat (le_nat x), q) }"

definition pkg_pull_dwrd :: "bytes \<Rightarrow> int \<Rightarrow> (u32 \<times> int) option" where
  "pkg_pull_dwrd m p = do { (x, q) \<leftarrow> pkg_bytes_pull m p 4; Some (of_nat (le_nat x), q) }"

text \<open>A sequence of pushes: the bytes of each value, one after the other.\<close>

definition pkg_push_bytes :: "bytes \<Rightarrow> int \<Rightarrow> bytes \<Rightarrow> (bytes \<times> int) option" where
  "pkg_push_bytes m p x = do { m' \<leftarrow> mem_write m p x; Some (m', p + int (length x)) }"

fun pkg_push_all :: "bytes \<Rightarrow> int \<Rightarrow> bytes list \<Rightarrow> (bytes \<times> int) option" where
  "pkg_push_all m p [] = Some (m, p)"
| "pkg_push_all m p (x # xs) = do { (m', p') \<leftarrow> pkg_push_bytes m p x; pkg_push_all m' p' xs }"

text \<open>The byte swaps on the little-endian machines with 64-bit words the programs are built for.\<close>

definition htonl32 :: "u32 \<Rightarrow> u32" where
  "htonl32 x = ucast (awoke_htonl Little 8 (ucast x))"

definition htons16 :: "u16 \<Rightarrow> u16" where
  "htons16 x = awoke_htons Little 8 x"

section \<open>Byte order\<close>

lemma htonl32_swap: "htonl32 x = awoke_biglittle_swap32 x"
proof -
  have u: "ucast (ucast y :: u64) = (y :: u32)" for y by (rule bit_eqI) (simp add: bit_simps)
  show ?thesis by (simp add: htonl32_def awoke_htonl_def awoke_cpu_endian_cases(1) u)
qed

lemma htons16_swap: "htons16 x = awoke_biglittle_swap16 x"
  by (simp add: htons16_def awoke_htons_def awoke_cpu_endian_cases(1))

lemma htons16_htons16 [simp]: "htons16 (htons16 x) = x"
  using awoke_byte_order_round_trip[of x] by (simp add: htons16_swap)

lemma htonl32_htonl32 [simp]: "htonl32 (htonl32 x) = x"
  using awoke_byte_order_round_trip[of _ x] by (simp add: htonl32_swap)

section \<open>Fields of a packet\<close>

lemma u8_bytes_length [simp]: "length (u8_bytes x) = 1" by (simp add: u8_bytes_def)
lemma u16_bytes_length [simp]: "length (u16_bytes x) = 2" by (simp add: u16_bytes_def)
lemma u32_bytes_length [simp]: "length (u32_bytes x) = 4" by (simp add: u32_bytes_def)

lemma u8_bytes_value [simp]: "of_nat (le_nat (u8_bytes x)) = (x :: u8)"
  by (simp add: u8_bytes_def)

lemma u16_bytes_value [simp]: "of_nat (le_nat (u16_bytes x)) = (x :: u16)"
  using unat_u16_less[of x] by (simp add: u16_bytes_def le_nat_bytes)

lemma u32_bytes_value [simp]: "of_nat (le_nat (u32_bytes x)) = (x :: u32)"
  using unat_u32_less[of x] by (simp add: u32_bytes_def le_nat_bytes)

text \<open>Any bytes are the bytes of the value they are read as; so a test of a big-endian field is one of bytes.\<close>

lemma le_nat_less: "le_nat x < 256 ^ length x"
proof (induction x)
  case (Cons b x)
  then have "Suc (le_nat x) \<le> 256 ^ length x" by simp
  then have "256 * Suc (le_nat x) \<le> 256 * 256 ^ length x" by (rule mult_le_mono2)
  then show ?case using unat_u8_less[of b] by simp
qed simp

lemma le_bytes_nat: "le_bytes (length x) (le_nat x) = x"
proof (induction x)
  case (Cons b x)
  have "(unat b + 256 * le_nat x) mod 256 = unat b" "(unat b + 256 * le_nat x) div 256 = le_nat x"
    using unat_u8_less[of b] by simp_all
  then show ?case using Cons by simp
qed simp

lemma u16_bytes_of: "length x = 2 \<Longrightarrow> u16_bytes (of_nat (le_nat x)) = x"
  using le_nat_less[of x] le_bytes_nat[of x] by (simp add: u16_bytes_def unat_of_nat)

lemma u32_bytes_of: "length x = 4 \<Longrightarrow> u32_bytes (of_nat (le_nat x)) = x"
  using le_nat_less[of x] le_bytes_nat[of x] by (simp add: u32_bytes_def unat_of_nat)

lemma htons16_test: "length x = 2 \<Longrightarrow> htons16 (of_nat (le_nat x)) = w \<longleftrightarrow> x = u16_bytes (htons16 w)"
  by (metis htons16_htons16 u16_bytes_of u16_bytes_value)

lemma htonl32_test: "length x = 4 \<Longrightarrow> htonl32 (of_nat (le_nat x)) = w \<longleftrightarrow> x = u32_bytes (htonl32 w)"
  by (metis htonl32_htonl32 u32_bytes_of u32_bytes_value)

lemma pull_append:
  assumes "p = int (length a)" "length x = n"
  shows "pkg_bytes_pull (a @ x @ b) p n = Some (x, int (length a + n))"
  using assms by (simp add: pkg_bytes_pull_def mem_read_def)

text \<open>A field at an offset into memory.\<close>

lemma pull_word_at: "p + 2 \<le> length m \<Longrightarrow> pkg_pull_word m (int p) = Some (of_nat (le_nat (take 2 (drop p m))), int p + 2)"
  by (simp add: pkg_pull_word_def pkg_bytes_pull_def mem_read_def)

lemma pull_dwrd_at: "p + 4 \<le> length m \<Longrightarrow> pkg_pull_dwrd m (int p) = Some (of_nat (le_nat (take 4 (drop p m))), int p + 4)"
  by (simp add: pkg_pull_dwrd_def pkg_bytes_pull_def mem_read_def)

lemma pull_byte_at: "p < length m \<Longrightarrow> pkg_pull_byte m (int p) = Some (m ! p, int p + 1)"
  by (simp add: pkg_pull_byte_def pkg_bytes_pull_def mem_read_def take_Suc_conv_app_nth hd_drop_conv_nth)

lemma pull_byte_append: "p = int (length a) \<Longrightarrow> pkg_pull_byte (a @ u8_bytes x @ b) p = Some (x, int (length a + 1))"
  by (simp add: pkg_pull_byte_def pull_append del: of_nat_add)

lemma pull_word_append: "p = int (length a) \<Longrightarrow> pkg_pull_word (a @ u16_bytes x @ b) p = Some (x, int (length a + 2))"
  by (simp add: pkg_pull_word_def pull_append del: of_nat_add)

lemma pull_dwrd_append: "p = int (length a) \<Longrightarrow> pkg_pull_dwrd (a @ u32_bytes x @ b) p = Some (x, int (length a + 4))"
  by (simp add: pkg_pull_dwrd_def pull_append del: of_nat_add)

lemma pkg_push_all_ok:
  assumes "p + length (concat xs) \<le> length m"
  shows "pkg_push_all m (int p) xs = Some (take p m @ concat xs @ drop (p + length (concat xs)) m, int (p + length (concat xs)))"
  using assms
proof (induction xs arbitrary: m p)
  case (Cons x xs)
  have w: "pkg_push_bytes m (int p) x = Some (take p m @ x @ drop (p + length x) m, int (p + length x))"
    using Cons.prems by (simp add: pkg_push_bytes_def mem_write_def)
  let ?m = "take p m @ x @ drop (p + length x) m"
  have "p + length x + length (concat xs) \<le> length ?m" using Cons.prems by simp
  from Cons.IH[OF this] show ?case using Cons.prems by (simp add: w add.assoc) (simp add: ac_simps)
qed simp

end
