(* ===== verification/Cmder_Rxpoll.thy ===== *)
theory Cmder_Rxpoll
  imports Pkg_Cursor Awoke_Buffer
begin

text \<open>
  The receiving side of the commander, \<open>application/cmder/cmder.c\<close>: a transceiver collects bytes in a
  buffer, and its poll routine offers the buffer to the registered protocols (\<open>cmder_protocol.h\<close>).
  A protocol is three functions: \<open>match\<close> looks for a packet at the start of the buffer, \<open>scan\<close> for the
  start of one further on, \<open>read\<close> handles a packet. Their arguments are the memory the buffer points to
  and the number of bytes received; \<open>rlen\<close> is the variable of the caller they may write to. The state
  the protocols work on is a parameter \<open>'s\<close>.

  The system calls are arguments: the bytes a \<open>read\<close> or \<open>recv\<close> delivers, \<open>None\<close> for a result that is not
  positive. The variable \<open>rlen\<close> is not initialised; its first value is the argument \<open>rlen0\<close>.
  \<open>awoke_buffchunk_backoff\<close> reads as many bytes behind the buffer as it drops; the lemmas about what the
  poll routines are meant to do therefore ask for memory behind the buffer that may be read.
\<close>

section \<open>Model\<close>

record 's cmder_protocol =
  pr_match :: "bytes \<Rightarrow> int \<Rightarrow> int \<Rightarrow> (err_type \<times> int) option"
  pr_scan :: "bytes \<Rightarrow> int \<Rightarrow> int \<Rightarrow> (err_type \<times> int) option"
  pr_read :: "'s \<Rightarrow> bytes \<Rightarrow> int \<Rightarrow> (err_type \<times> 's) option"

text \<open>How the loops over the protocols leave: with a result, by the jump to \<open>poll_repeat\<close>, or at their end.\<close>

datatype poll_exit = Poll_Return err_type | Poll_Repeat | Poll_End

text \<open>The first loop; the two poll routines differ in what they do when bytes remain.\<close>

fun match_protocols ::
  "poll_exit \<Rightarrow> 's cmder_protocol list \<Rightarrow> 's \<Rightarrow> awoke_buffchunk \<Rightarrow> int \<Rightarrow> (poll_exit \<times> 's \<times> awoke_buffchunk \<times> int) option" where
  "match_protocols remain [] s buffer rlen = Some (Poll_End, s, buffer, rlen)"
| "match_protocols remain (proto # protos) s buffer rlen = do {
     (ret, rlen) \<leftarrow> pr_match proto (bc_block buffer) (bc_length buffer) rlen;
     if ret = et_ok \<and> rlen \<noteq> 0 then do {
       (ret, s) \<leftarrow> pr_read proto s (bc_block buffer) rlen;
       buffer \<leftarrow> awoke_buffchunk_backoff buffer rlen;
       if bc_length buffer \<noteq> 0 then Some (remain, s, buffer, rlen) else Some (Poll_Return et_ok, s, buffer, rlen) }
     else if ret = err_incomplete then Some (Poll_Return ret, s, buffer, rlen)
     else if ret = err_param \<and> rlen \<noteq> 0 then do {
       buffer \<leftarrow> awoke_buffchunk_backoff buffer rlen;
       Some (Poll_Return et_ok, s, buffer, rlen) }
     else match_protocols remain protos s buffer rlen }"

fun scan_protocols ::
  "'s cmder_protocol list \<Rightarrow> awoke_buffchunk \<Rightarrow> int \<Rightarrow> (poll_exit \<times> awoke_buffchunk \<times> int) option" where
  "scan_protocols [] buffer rlen = Some (Poll_End, buffer, rlen)"
| "scan_protocols (proto # protos) buffer rlen = do {
     (ret, rlen) \<leftarrow> pr_scan proto (bc_block buffer) (bc_length buffer) rlen;
     if ret = err_match then scan_protocols protos buffer rlen
     else if rlen \<noteq> 0 then do {
       buffer \<leftarrow> awoke_buffchunk_backoff buffer rlen;
       if bc_length buffer \<noteq> 0 then Some (Poll_Return et_unfinished, buffer, rlen) else Some (Poll_Repeat, buffer, rlen) }
     else scan_protocols protos buffer rlen }"

text \<open>From the label \<open>poll_repeat\<close> on. The count \<open>c\<close> of bytes received is added again by every repetition.\<close>

partial_function (option) poll_repeat ::
  "poll_exit \<Rightarrow> 's cmder_protocol list \<Rightarrow> int \<Rightarrow> 's \<Rightarrow> awoke_buffchunk \<Rightarrow> int \<Rightarrow> (err_type \<times> 's \<times> awoke_buffchunk) option" where
  "poll_repeat remain protos c s buffer rlen =
     (if 0 < c \<or> bc_length buffer \<noteq> 0 then do {
        let buffer = (if 0 < c then buffer\<lparr>bc_length := bc_length buffer + c\<rparr> else buffer);
        (ex, s, buffer, rlen) \<leftarrow> match_protocols remain protos s buffer rlen;
        case ex of
          Poll_Return ret \<Rightarrow> Some (ret, s, buffer)
        | Poll_Repeat \<Rightarrow> poll_repeat remain protos c s buffer rlen
        | Poll_End \<Rightarrow> do {
            (ex, buffer, rlen) \<leftarrow> scan_protocols protos buffer rlen;
            case ex of
              Poll_Return ret \<Rightarrow> Some (ret, s, buffer)
            | Poll_Repeat \<Rightarrow> poll_repeat remain protos c s buffer rlen
            | Poll_End \<Rightarrow> do { buffer \<leftarrow> awoke_buffchunk_clear buffer; Some (et_ok, s, buffer) } } }
      else Some (et_ok, s, buffer))"

text \<open>The bytes a system call stores behind those already received, and their number.\<close>

definition rx_store :: "awoke_buffchunk \<Rightarrow> bytes option \<Rightarrow> (int \<times> awoke_buffchunk) option" where
  "rx_store buffer input = (case input of
      None \<Rightarrow> Some (0, buffer)
    | Some x \<Rightarrow> do {
        m \<leftarrow> mem_write (bc_block buffer) (bc_length buffer) x;
        Some (int (length x), buffer\<lparr>bc_p := map_option (\<lambda>_. m) (bc_p buffer)\<rparr>) })"

definition uart_rxpoll ::
  "'s cmder_protocol list \<Rightarrow> int \<Rightarrow> bytes option \<Rightarrow> 's \<Rightarrow> awoke_buffchunk \<Rightarrow> (err_type \<times> 's \<times> awoke_buffchunk) option" where
  "uart_rxpoll protos rlen0 input s buffer = do {
     (c, buffer) \<leftarrow> rx_store buffer input;
     poll_repeat (Poll_Return et_unfinished) protos c s buffer rlen0 }"

text \<open>What \<open>select\<close> reports to the TCP poll: nothing, data on the connection, or a new connection.\<close>

datatype tcp_ready = Tcp_None | Tcp_Data "bytes option" | Tcp_Accept int

definition tcp_rxpoll ::
  "'s cmder_protocol list \<Rightarrow> int \<Rightarrow> tcp_ready \<Rightarrow> int \<Rightarrow> 's \<Rightarrow> awoke_buffchunk \<Rightarrow>
   (err_type \<times> int \<times> 's \<times> awoke_buffchunk) option" where
  "tcp_rxpoll protos rlen0 ev connfd s buffer = (case ev of
      Tcp_None \<Rightarrow> Some (et_ok, connfd, s, buffer)
    | Tcp_Accept fd \<Rightarrow> Some (et_ok, fd, s, buffer)
    | Tcp_Data input \<Rightarrow> do {
        (c, buffer) \<leftarrow> rx_store buffer input;
        (ret, s, buffer) \<leftarrow> poll_repeat Poll_Repeat protos c s buffer rlen0;
        Some (ret, connfd, s, buffer) })"

text \<open>Polls that find no new bytes; \<open>rlen i\<close> is what the uninitialised variable holds in them.\<close>

primrec uart_polls ::
  "'s cmder_protocol list \<Rightarrow> (nat \<Rightarrow> int) \<Rightarrow> nat \<Rightarrow> 's \<Rightarrow> awoke_buffchunk \<Rightarrow> ('s \<times> awoke_buffchunk) option" where
  "uart_polls protos rlen 0 s b = Some (s, b)"
| "uart_polls protos rlen (Suc n) s b = do {
     (_, s, b) \<leftarrow> uart_rxpoll protos (rlen n) None s b;
     uart_polls protos rlen n s b }"

section \<open>Framed protocols\<close>

text \<open>The bytes a receive buffer holds, with memory behind it that \<open>spare\<close> bytes can be read from. A chunk that
  \<open>awoke_buffchunk_create\<close> makes has none: \<open>packet_overreads\<close> below is about those, and the lemmas of \<open>framed_reader\<close>
  say what the polls do where \<open>awoke_buffchunk_backoff\<close> is defined.\<close>

definition rx_holds :: "awoke_buffchunk \<Rightarrow> nat \<Rightarrow> bytes \<Rightarrow> bool" where
  "rx_holds b spare x \<longleftrightarrow> (\<exists>m. bc_p b = Some m \<and> take (length x) m = x \<and> bc_length b = int (length x) \<and>
     int (length x) \<le> bc_size b \<and> bc_size b < 2147483648 \<and> bc_size b + int spare \<le> int (length m))"

lemma rx_holds_block: "rx_holds b k x \<Longrightarrow> length x \<le> length (bc_block b)"
  by (auto simp: rx_holds_def bc_block_def)

lemma rx_holds_bound: "rx_holds b k x \<Longrightarrow> length x < 2147483648"
  by (auto simp: rx_holds_def)

lemma rx_holds_prefix: "rx_holds b k (x @ y) \<Longrightarrow> take (length x) (bc_block b) = x"
  by (auto simp: rx_holds_def bc_block_def dest: arg_cong[of _ _ "take (length x)"])

lemma rx_holds_length: "rx_holds b k x \<Longrightarrow> bc_length b = int (length x)"
  by (auto simp: rx_holds_def)

lemma backoff_holds:
  assumes "rx_holds b k (x @ y)" "length x \<le> k"
  shows "\<exists>b'. awoke_buffchunk_backoff b (int (length x)) = Some b' \<and> rx_holds b' k y"
proof -
  obtain m where m: "bc_p b = Some m" "take (length (x @ y)) m = x @ y" "bc_length b = int (length (x @ y))"
      "int (length (x @ y)) \<le> bc_size b" "bc_size b < 2147483648" "bc_size b + int k \<le> int (length m)"
    using assms(1) unfolding rx_holds_def by blast
  define n where "n = nat (bc_size b)"
  have n: "bc_size b = int n" "size_t (bc_size b) = n" using m(4,5) by (simp_all add: n_def size_t_id)
  let ?m = "take n (drop (length x) m) @ drop n m"
  have fits: "n + length x \<le> length m" "length x + length y \<le> n" using m(4,6) n(1) assms(2) by simp_all
  have bk: "awoke_buffchunk_backoff b (int (length x)) =
      Some (b\<lparr>bc_p := Some ?m, bc_length := bc_length b - int (length x)\<rparr>)"
    using fits by (simp add: awoke_buffchunk_backoff_def bc_block_def m(1) mem_read_def mem_write_def n(2))
  have "take (length y) ?m = take (length y) (drop (length x) m)" using fits by simp
  also have "\<dots> = drop (length x) (take (length (x @ y)) m)" by (simp add: drop_take)
  finally have t: "take (length y) ?m = y" unfolding m(2) by simp
  have len: "length ?m = length m" using fits by simp
  have "rx_holds (b\<lparr>bc_p := Some ?m, bc_length := bc_length b - int (length x)\<rparr>) k y"
    unfolding rx_holds_def by (rule exI[of _ ?m]) (use t m(3,5,6) fits(2) n(1) len in simp)
  with bk show ?thesis by blast
qed

lemma rx_store_holds:
  assumes "rx_holds b k x" "int (length x + length y) \<le> bc_size b"
  shows "\<exists>b'. rx_store b (Some y) = Some (int (length y), b') \<and> bc_length b' = int (length x) \<and>
    rx_holds (b'\<lparr>bc_length := int (length x + length y)\<rparr>) k (x @ y)"
proof -
  obtain m where m: "bc_p b = Some m" "take (length x) m = x" "bc_length b = int (length x)"
      "bc_size b < 2147483648" "bc_size b + int k \<le> int (length m)"
    using assms(1) unfolding rx_holds_def by blast
  let ?m = "take (length x) m @ y @ drop (length x + length y) m"
  have fits: "length x + length y \<le> length m" using assms(2) m(5) by simp
  have st: "rx_store b (Some y) = Some (int (length y), b\<lparr>bc_p := Some ?m\<rparr>)"
    using fits by (simp add: rx_store_def mem_write_def bc_block_def m(1,3))
  have "rx_holds (b\<lparr>bc_p := Some ?m, bc_length := int (length x + length y)\<rparr>) k (x @ y)"
    unfolding rx_holds_def by (rule exI[of _ ?m]) (use m(2,4,5) assms(2) fits in simp)
  with st m(3) show ?thesis by (intro exI[of _ "b\<lparr>bc_p := Some ?m\<rparr>"]) simp
qed

lemma bc_data_update: "bc_data (b\<lparr>bc_p := Some m, bc_length := int k\<rparr>) = take k m"
  by (simp add: bc_data_def bc_block_def)

text \<open>
  What the poll routines need of a protocol: \<open>match\<close> accepts a packet at the start of the memory, whatever
  follows it, and reports its length.
\<close>

locale framing =
  fixes pmatch :: "bytes \<Rightarrow> int \<Rightarrow> int \<Rightarrow> (err_type \<times> int) option"
    and frame :: "'r \<Rightarrow> bytes"
    and wf :: "'r \<Rightarrow> bool"
  assumes match_frame:
    "wf r \<Longrightarrow> length (frame r) \<le> n \<Longrightarrow> n \<le> length (frame r @ y) \<Longrightarrow> n < 2147483648 \<Longrightarrow>
       pmatch (frame r @ y) (int n) rlen = Some (et_ok, int (length (frame r)))"
    and frame_nonempty: "wf r \<Longrightarrow> frame r \<noteq> []"
begin

text \<open>In a chunk as \<open>awoke_buffchunk_create\<close> makes it, where the memory ends with the chunk, taking a packet out of the
  buffer reads behind it.\<close>

lemma packet_overreads:
  assumes "pr_match p = pmatch" "wf r" "chunk_ok b" "bc_data b = frame r @ rest"
  shows "match_protocols remain (p # ps) s b rlen = None"
proof -
  have len: "bc_length b = int (length (frame r @ rest))" "bc_size b < 2147483648" "int (length (bc_block b)) = bc_size b"
    using assms(3) arg_cong[OF assms(4), of length] by (auto simp: chunk_ok_def bc_data_def min_def split: if_splits)
  have blk: "bc_block b = frame r @ rest @ drop (nat (bc_length b)) (bc_block b)"
    using assms(4) append_take_drop_id[of "nat (bc_length b)" "bc_block b"] unfolding bc_data_def by simp
  have le: "length (frame r) + length rest \<le> length (bc_block b)" using arg_cong[OF blk, of length] by simp
  have "pmatch (frame r @ (rest @ drop (nat (bc_length b)) (bc_block b))) (int (length (frame r) + length rest)) rlen =
      Some (et_ok, int (length (frame r)))"
    using match_frame[OF assms(2), of "length (frame r) + length rest" "rest @ drop (nat (bc_length b)) (bc_block b)" rlen] len le
    by (simp flip: blk)
  then have mt: "pmatch (bc_block b) (bc_length b) rlen = Some (et_ok, int (length (frame r)))"
    using len(1) unfolding blk[symmetric] by simp
  have "awoke_buffchunk_backoff b (int (length (frame r))) = None"
    using awoke_buffchunk_backoff_overreads_any[OF assms(3)] frame_nonempty[OF assms(2)] len(1) by simp
  then show ?thesis using assms(1) mt frame_nonempty[OF assms(2)] by (simp split: bind_split)
qed

lemma poll_overreads:
  assumes "pr_match p = pmatch" "wf r" "chunk_ok b" "bc_data b @ y = frame r @ rest" "int (length (bc_data b @ y)) \<le> bc_size b"
  shows "rx_store b (Some y) \<bind> (\<lambda>(c, b). poll_repeat remain (p # ps) c s b rlen) = None"
proof -
  define n where "n = length (bc_data b)"
  let ?m = "bc_data b @ y @ drop (n + length y) (bc_block b)"
  have ok: "bc_length b = int n" "int (length (bc_block b)) = bc_size b" "bc_size b < 2147483648"
    using assms(3) by (auto simp: chunk_ok_def bc_data_def n_def min_def)
  have fit: "n + length y \<le> length (bc_block b)" using assms(5) ok(2) by (simp add: n_def)
  have "0 < length (frame r @ rest)" using frame_nonempty[OF assms(2)] by simp
  then have "0 < length (bc_block b)" using assms(5) unfolding assms(4) using ok(2) by linarith
  then obtain m0 where m0: "bc_p b = Some m0" by (cases "bc_p b") (simp_all add: bc_block_def)
  let ?b = "b\<lparr>bc_p := Some ?m, bc_length := int (n + length y)\<rparr>"
  have st: "rx_store b (Some y) = Some (int (length y), b\<lparr>bc_p := Some ?m\<rparr>)"
    using fit m0 by (simp add: rx_store_def mem_write_def ok(1) bc_data_def)
  have "chunk_ok ?b" using ok fit by (simp add: chunk_ok_def bc_block_def n_def)
  moreover have "bc_data ?b = frame r @ rest" 
  proof -
    have "bc_data ?b = take (n + length y) ?m" by (rule bc_data_update)
    also have "\<dots> = bc_data b @ y" by (simp add: n_def)
    finally show ?thesis using assms(4) by simp
  qed
  ultimately have mp: "match_protocols remain (p # ps) s ?b rlen = None" by (rule packet_overreads[OF assms(1,2)])
  have "0 < n + length y" using arg_cong[OF assms(4), of length] frame_nonempty[OF assms(2)] by (cases "frame r") (auto simp: n_def)
  then have run: "0 < int (length y) \<or> bc_length (b\<lparr>bc_p := Some ?m\<rparr>) \<noteq> 0" using ok(1) by auto
  have u: "(if 0 < int (length y) then (b\<lparr>bc_p := Some ?m\<rparr>)\<lparr>bc_length := bc_length (b\<lparr>bc_p := Some ?m\<rparr>) + int (length y)\<rparr>
      else b\<lparr>bc_p := Some ?m\<rparr>) = ?b"
    using ok(1) by auto
  have "poll_repeat remain (p # ps) (int (length y)) s (b\<lparr>bc_p := Some ?m\<rparr>) rlen = None"
    using run by (subst poll_repeat.simps) (simp only: u mp Let_def if_True bind.bind_lzero)
  then show ?thesis by (simp add: st)
qed

end

text \<open>And of its \<open>read\<close>: on a packet it makes one step of the state.\<close>

locale framed_reader = framing pmatch frame wf
  for pmatch :: "bytes \<Rightarrow> int \<Rightarrow> int \<Rightarrow> (err_type \<times> int) option"
    and frame :: "'r \<Rightarrow> bytes"
    and wf :: "'r \<Rightarrow> bool" +
  fixes pread :: "'s \<Rightarrow> bytes \<Rightarrow> int \<Rightarrow> (err_type \<times> 's) option"
    and serves :: "'s \<Rightarrow> bool"
    and upd :: "'r \<Rightarrow> 's \<Rightarrow> 's"
  assumes read_frame:
    "wf r \<Longrightarrow> serves s \<Longrightarrow> \<exists>ret. pread s (frame r @ y) (int (length (frame r))) = Some (ret, upd r s)"
    and upd_serves: "wf r \<Longrightarrow> serves s \<Longrightarrow> serves (upd r s)"
begin

lemma match_protocols_frame:
  assumes "pr_match p = pmatch" "pr_read p = pread" "wf r" "serves s"
    and "rx_holds b k (frame r @ rest)" "length (frame r) \<le> k"
  shows "\<exists>b'. match_protocols remain (p # ps) s b rlen =
      Some (if rest = [] then Poll_Return et_ok else remain, upd r s, b', int (length (frame r))) \<and> rx_holds b' k rest"
proof -
  obtain y where pre: "bc_block b = frame r @ y" using rx_holds_prefix[OF assms(5)] append_take_drop_id by metis
  have n: "length (frame r) + length rest \<le> length (bc_block b)" "length (frame r) + length rest < 2147483648"
    using rx_holds_block[OF assms(5)] rx_holds_bound[OF assms(5)] by simp_all
  have mt: "pmatch (bc_block b) (bc_length b) rlen = Some (et_ok, int (length (frame r)))"
    using match_frame[OF assms(3), of "length (frame r) + length rest" y rlen] n rx_holds_length[OF assms(5)] by (simp add: pre)
  obtain ret where rd: "pread s (bc_block b) (int (length (frame r))) = Some (ret, upd r s)"
    using read_frame[OF assms(3,4), of y] pre by auto
  obtain b' where b': "awoke_buffchunk_backoff b (int (length (frame r))) = Some b'" "rx_holds b' k rest"
    using backoff_holds[OF assms(5,6)] by blast
  have "int (length (frame r)) \<noteq> 0" using frame_nonempty[OF assms(3)] by simp
  then show ?thesis using assms(1,2) mt rd b' rx_holds_length[OF b'(2)] by (intro exI[of _ b']) (cases rest, simp_all)
qed

text \<open>One turn of the poll with a packet at the front of the buffer.\<close>

lemma poll_repeat_frame:
  assumes "pr_match p = pmatch" "pr_read p = pread" "wf r" "serves s" "0 \<le> c"
    and h: "rx_holds (b\<lparr>bc_length := bc_length b + c\<rparr>) k (frame r @ rest)" and k: "length (frame r) \<le> k"
    and ex: "rest = [] \<and> ret = et_ok \<or> rest \<noteq> [] \<and> remain = Poll_Return ret"
  shows "\<exists>b'. poll_repeat remain (p # ps) c s b rlen = Some (ret, upd r s, b') \<and> rx_holds b' k rest"
proof -
  obtain b' where b': "match_protocols remain (p # ps) s (b\<lparr>bc_length := bc_length b + c\<rparr>) rlen =
      Some (if rest = [] then Poll_Return et_ok else remain, upd r s, b', int (length (frame r)))" "rx_holds b' k rest"
    using match_protocols_frame[OF assms(1-4) h k] by blast
  have "0 < bc_length b + c" using rx_holds_length[OF h] frame_nonempty[OF assms(3)] by (cases "frame r") auto
  then have run: "0 < c \<or> bc_length b \<noteq> 0" by auto
  have upd: "(if 0 < c then b\<lparr>bc_length := bc_length b + c\<rparr> else b) = b\<lparr>bc_length := bc_length b + c\<rparr>"
    using assms(5) by simp
  show ?thesis using b' ex run by (subst poll_repeat.simps) (auto simp: upd Let_def simp del: match_protocols.simps)
qed

lemma uart_rxpoll_next:
  assumes "pr_match p = pmatch" "pr_read p = pread" "wf r" "serves s"
    and h: "rx_holds b k (frame r @ rest)" and k: "length (frame r) \<le> k"
  shows "\<exists>b'. uart_rxpoll (p # ps) rlen None s b = Some (if rest = [] then et_ok else et_unfinished, upd r s, b') \<and> rx_holds b' k rest"
  using poll_repeat_frame[OF assms(1-4) order_refl, of b k rest _ "Poll_Return et_unfinished"] h k
  by (cases "rest = []") (fastforce simp: uart_rxpoll_def rx_store_def)+

lemma uart_rxpoll_first:
  assumes "pr_match p = pmatch" "pr_read p = pread" "wf r" "serves s"
    and h: "rx_holds b k x" and y: "x @ y = frame r @ rest" "int (length (x @ y)) \<le> bc_size b" and k: "length (frame r) \<le> k"
  shows "\<exists>b'. uart_rxpoll (p # ps) rlen (Some y) s b = Some (if rest = [] then et_ok else et_unfinished, upd r s, b') \<and> rx_holds b' k rest"
proof -
  obtain b1 where b1: "rx_store b (Some y) = Some (int (length y), b1)" "bc_length b1 = int (length x)"
      "rx_holds (b1\<lparr>bc_length := int (length x + length y)\<rparr>) k (x @ y)"
    using rx_store_holds[OF h] y(2) by auto
  then have "rx_holds (b1\<lparr>bc_length := bc_length b1 + int (length y)\<rparr>) k (frame r @ rest)" using y(1) by simp
  from poll_repeat_frame[OF assms(1-4) of_nat_0_le_iff this k, of _ "Poll_Return et_unfinished"] show ?thesis
    by (cases "rest = []") (fastforce simp: uart_rxpoll_def b1(1))+
qed

lemma tcp_rxpoll_one:
  assumes "pr_match p = pmatch" "pr_read p = pread" "wf r" "serves s"
    and h: "rx_holds b k x" and y: "x @ y = frame r" "int (length (x @ y)) \<le> bc_size b" and k: "length (frame r) \<le> k"
  shows "\<exists>b'. tcp_rxpoll (p # ps) rlen (Tcp_Data (Some y)) connfd s b = Some (et_ok, connfd, upd r s, b') \<and> rx_holds b' k []"
proof -
  obtain b1 where b1: "rx_store b (Some y) = Some (int (length y), b1)" "bc_length b1 = int (length x)"
      "rx_holds (b1\<lparr>bc_length := int (length x + length y)\<rparr>) k (x @ y)"
    using rx_store_holds[OF h] y(2) by auto
  then have "rx_holds (b1\<lparr>bc_length := bc_length b1 + int (length y)\<rparr>) k (frame r @ [])" using y(1) by simp
  from poll_repeat_frame[OF assms(1-4) of_nat_0_le_iff this k, of et_ok Poll_Repeat ps rlen] show ?thesis
    by (auto simp: tcp_rxpoll_def b1(1))
qed

text \<open>All the packets that lie in the buffer, one per poll.\<close>

lemma uart_polls_frames:
  assumes "pr_match p = pmatch" "pr_read p = pread" "serves s"
    and "\<forall>r \<in> set rs. wf r \<and> length (frame r) \<le> k" "rx_holds b k (concat (map frame rs))"
  shows "\<exists>b'. uart_polls (p # ps) rlen (length rs) s b = Some (fold upd rs s, b') \<and> rx_holds b' k [] \<and> serves (fold upd rs s)"
  using assms(3-5)
proof (induction rs arbitrary: s b)
  case (Cons r rs)
  have r: "wf r" "length (frame r) \<le> k" using Cons.prems(2) by simp_all
  have h: "rx_holds b k (frame r @ concat (map frame rs))" using Cons.prems(3) by simp
  obtain ret b1 where b1: "uart_rxpoll (p # ps) (rlen (length rs)) None s b = Some (ret, upd r s, b1)"
      "rx_holds b1 k (concat (map frame rs))"
    using uart_rxpoll_next[OF assms(1,2) r(1) Cons.prems(1) h r(2)] by blast
  from Cons.IH[OF upd_serves[OF r(1) Cons.prems(1)] _ b1(2)] Cons.prems(2) b1(1) show ?case by simp
qed simp

end

end
