(* ===== verification/Proto_Ecmd.thy ===== *)
theory Proto_Ecmd
  imports Cmder_Rxpoll
begin

text \<open>
  The two command protocols of \<open>application/cmder/proto-ecmd.c\<close>: packets of six bytes between a prefix of
  two bytes and the byte \<open>0xff\<close>. They differ in their prefix and in what they do when the last byte is wrong.
\<close>

section \<open>Model\<close>

definition ecmd_match :: "bytes \<Rightarrow> int \<Rightarrow> int \<Rightarrow> (err_type \<times> int) option" where
  "ecmd_match m len rlen =
     (if len < 2 then Some (err_match, rlen)
      else do {
        (prefix, _) \<leftarrow> pkg_pull_word m 0;
        if htons16 prefix \<noteq> 0x8101 then Some (err_match, rlen)
        else if len < 6 then Some (err_incomplete, rlen)
        else do {
          last \<leftarrow> arr_get m 5;
          if last \<noteq> 0xff then Some (err_param, 2) else Some (et_ok, 6) } })"

text \<open>The search, from an offset on over the given number of bytes.\<close>

primrec prefix_scan :: "u16 \<Rightarrow> bytes \<Rightarrow> int \<Rightarrow> nat \<Rightarrow> int option option" where
  "prefix_scan mark m pos 0 = Some None"
| "prefix_scan mark m pos (Suc n) = do {
     (prefix, _) \<leftarrow> pkg_pull_word m pos;
     if htons16 prefix = mark then Some (Some pos) else prefix_scan mark m (pos + 1) n }"

definition ecmd_scan :: "bytes \<Rightarrow> int \<Rightarrow> int \<Rightarrow> (err_type \<times> int) option" where
  "ecmd_scan m len rlen = do {
     found \<leftarrow> prefix_scan 0x8101 m 0 (nat len);
     case found of None \<Rightarrow> Some (err_match, rlen) | Some pos \<Rightarrow> Some (et_ok, pos) }"

definition ecmd_read :: "'s \<Rightarrow> bytes \<Rightarrow> int \<Rightarrow> (err_type \<times> 's) option" where
  "ecmd_read s m len = Some (et_ok, s)"

definition ecmd_protocol :: "'s cmder_protocol" where
  "ecmd_protocol = \<lparr>pr_match = ecmd_match, pr_scan = ecmd_scan, pr_read = ecmd_read\<rparr>"

definition ecmd2_match :: "bytes \<Rightarrow> int \<Rightarrow> int \<Rightarrow> (err_type \<times> int) option" where
  "ecmd2_match m len rlen =
     (if len < 2 then Some (err_match, rlen)
      else do {
        (prefix, _) \<leftarrow> pkg_pull_word m 0;
        if htons16 prefix \<noteq> 0x8201 then Some (err_match, rlen)
        else if len < 6 then Some (err_incomplete, rlen)
        else do {
          last \<leftarrow> arr_get m 5;
          if last \<noteq> 0xff then Some (err_match, rlen) else Some (et_ok, 6) } })"

definition ecmd2_scan :: "bytes \<Rightarrow> int \<Rightarrow> int \<Rightarrow> (err_type \<times> int) option" where
  "ecmd2_scan m len rlen = do {
     found \<leftarrow> prefix_scan 0x8201 m 0 (nat len);
     case found of None \<Rightarrow> Some (err_match, rlen) | Some pos \<Rightarrow> Some (et_ok, pos) }"

definition ecmd2_read :: "'s \<Rightarrow> bytes \<Rightarrow> int \<Rightarrow> (err_type \<times> 's) option" where
  "ecmd2_read s m len = Some (et_ok, s)"

definition ecmd2_protocol :: "'s cmder_protocol" where
  "ecmd2_protocol = \<lparr>pr_match = ecmd2_match, pr_scan = ecmd2_scan, pr_read = ecmd2_read\<rparr>"

section \<open>Packets\<close>

definition ecmd_frame :: "u8 \<times> u8 \<times> u8 \<Rightarrow> bytes" where
  "ecmd_frame r = (case r of (a, b, c) \<Rightarrow> [0x81, 0x01, a, b, c, 0xff])"

definition ecmd2_frame :: "u8 \<times> u8 \<times> u8 \<Rightarrow> bytes" where
  "ecmd2_frame r = (case r of (a, b, c) \<Rightarrow> [0x82, 0x01, a, b, c, 0xff])"

lemma ecmd_frame_length [simp]: "length (ecmd_frame r) = 6" "length (ecmd2_frame r) = 6"
  by (simp_all add: ecmd_frame_def ecmd2_frame_def split: prod.split)

lemma ecmd_marks: "u16_bytes (htons16 0x8101) = [0x81, 0x01]" "u16_bytes (htons16 0x8201) = [0x82, 0x01]"
  by code_simp+

lemma pull_prefix:
  assumes "p + 2 \<le> length m"
  shows "\<exists>w. pkg_pull_word m (int p) = Some (w, int p + 2) \<and>
    (htons16 w = 0x8101 \<longleftrightarrow> take 2 (drop p m) = [0x81, 0x01]) \<and> (htons16 w = 0x8201 \<longleftrightarrow> take 2 (drop p m) = [0x82, 0x01])"
  using assms pull_word_at[OF assms] htons16_test[of "take 2 (drop p m)"] ecmd_marks by simp

lemma ecmd_match_cases:
  assumes "n \<le> length m"
  shows "ecmd_match m (int n) rlen = Some (
    if n < 2 \<or> take 2 m \<noteq> [0x81, 0x01] then (err_match, rlen) else if n < 6 then (err_incomplete, rlen)
    else if m ! 5 \<noteq> 0xff then (err_param, 2) else (et_ok, 6))"
proof (cases "n < 2")
  case False
  then obtain w where "pkg_pull_word m 0 = Some (w, 2)" "htons16 w = 0x8101 \<longleftrightarrow> take 2 m = [0x81, 0x01]"
    using pull_prefix[of 0 m] assms by auto
  then show ?thesis using False assms by (simp add: ecmd_match_def arr_get_def)
qed (simp add: ecmd_match_def)

lemma ecmd2_match_cases:
  assumes "n \<le> length m"
  shows "ecmd2_match m (int n) rlen = Some (
    if n < 2 \<or> take 2 m \<noteq> [0x82, 0x01] then (err_match, rlen) else if n < 6 then (err_incomplete, rlen)
    else if m ! 5 \<noteq> 0xff then (err_match, rlen) else (et_ok, 6))"
proof (cases "n < 2")
  case False
  then obtain w where "pkg_pull_word m 0 = Some (w, 2)" "htons16 w = 0x8201 \<longleftrightarrow> take 2 m = [0x82, 0x01]"
    using pull_prefix[of 0 m] assms by auto
  then show ?thesis using False assms by (simp add: ecmd2_match_def arr_get_def)
qed (simp add: ecmd2_match_def)

interpretation ecmd: framed_reader ecmd_match ecmd_frame "\<lambda>_. True" ecmd_read "\<lambda>_. True" "\<lambda>_ s. s"
  by unfold_locales
    (auto simp: ecmd_match_cases ecmd_read_def ecmd_frame_def split: prod.splits)

interpretation ecmd2: framed_reader ecmd2_match ecmd2_frame "\<lambda>_. True" ecmd2_read "\<lambda>_. True" "\<lambda>_ s. s"
  by unfold_locales
    (auto simp: ecmd2_match_cases ecmd2_read_def ecmd2_frame_def split: prod.splits)

text \<open>The search finds the first prefix; it looks one byte past the bytes received.\<close>

lemma prefix_scan_first:
  assumes "p + n + 1 \<le> length m"
  shows "prefix_scan mark m (int p) n = Some (map_option (\<lambda>i. int (p + i))
    (List.find (\<lambda>i. take 2 (drop (p + i) m) = u16_bytes (htons16 mark)) [0..<n]))"
  using assms
proof (induction n arbitrary: p)
  case (Suc n)
  have pull: "pkg_pull_word m (int p) = Some (of_nat (le_nat (take 2 (drop p m))), int p + 2)"
    using pull_word_at[of p m] Suc.prems by simp
  have t: "htons16 (of_nat (le_nat (take 2 (drop p m)))) = mark \<longleftrightarrow> take 2 (drop p m) = u16_bytes (htons16 mark)"
    by (rule htons16_test) (use Suc.prems in simp)
  have f: "List.find P [0..<Suc n] = (if P 0 then Some 0 else map_option Suc (List.find (\<lambda>i. P (Suc i)) [0..<n]))" for P
  proof -
    have "List.find P (map Suc xs) = map_option Suc (List.find (\<lambda>i. P (Suc i)) xs)" for xs by (induction xs) auto
    then show ?thesis unfolding upt_conv_Cons[OF zero_less_Suc] map_Suc_upt[symmetric] by simp
  qed
  have ih: "prefix_scan mark m (int p + 1) n = Some (map_option (\<lambda>i. int (Suc p + i))
      (List.find (\<lambda>i. take 2 (drop (Suc p + i) m) = u16_bytes (htons16 mark)) [0..<n]))"
    using Suc.IH[of "Suc p"] Suc.prems by (simp add: add.commute)
  show ?case unfolding f by (simp add: pull t ih option.map_comp o_def del: upt_Suc) (simp add: ac_simps)
qed simp

section \<open>Properties\<close>

lemma ecmd_poll_part:
  assumes "rx_holds b k []" "y = take j (ecmd_frame r)" "2 \<le> j" "j < 6" "int j \<le> bc_size b"
  shows "\<exists>b'. uart_rxpoll (ecmd_protocol # ps) rlen (Some y) s b = Some (err_incomplete, s, b') \<and> rx_holds b' k y \<and> bc_size b' = bc_size b"
proof -
  have y: "length y = j" "take 2 y = [0x81, 0x01]" using assms(2-4)
    by (auto simp: ecmd_frame_def min_def split: prod.splits)
  obtain b1 where b1: "rx_store b (Some y) = Some (int (length y), b1)" "bc_length b1 = 0"
      "rx_holds (b1\<lparr>bc_length := int (length y)\<rparr>) k y"
    using rx_store_holds[OF assms(1), of y] assms(5) y(1) by auto
  have sz: "bc_size b1 = bc_size b" using b1(1) by (auto simp: rx_store_def split: bind_splits)
  let ?b = "b1\<lparr>bc_length := int (length y)\<rparr>"
  have n: "length y \<le> length (bc_block ?b)" using rx_holds_block[OF b1(3)] by simp
  have "take 2 (bc_block ?b) = [0x81, 0x01]"
    using rx_holds_prefix[of ?b k y "[]"] b1(3) y assms(3) by (metis append_Nil2 min.absorb1 take_take)
  then have "ecmd_match (bc_block ?b) (int (length y)) rlen = Some (err_incomplete, rlen)"
    using ecmd_match_cases[OF n] assms(3,4) y(1) by simp
  then have "uart_rxpoll (ecmd_protocol # ps) rlen (Some y) s b = Some (err_incomplete, s, ?b)"
    using b1(1,2) assms(3) y(1) by (simp add: uart_rxpoll_def poll_repeat.simps ecmd_protocol_def bc_block_def)
  with b1(3) sz show ?thesis by auto
qed

text \<open>On a buffer with six readable bytes behind it (which no created chunk has), a six-byte command that arrives in two
  reads, split anywhere behind its two-byte prefix, is handled once, when it is
  complete: the first poll keeps the bytes and says that the command is incomplete, the second one reads
  the command and leaves the buffer empty.\<close>

theorem ecmd_split_packet:
  assumes "rx_holds b k []" "6 \<le> k" "6 \<le> bc_size b" "2 \<le> j" "j < 6"
  shows "\<exists>b1 b2. uart_rxpoll (ecmd_protocol # ps) rlen (Some (take j (ecmd_frame r))) s b = Some (err_incomplete, s, b1) \<and>
    rx_holds b1 k (take j (ecmd_frame r)) \<and>
    uart_rxpoll (ecmd_protocol # ps) rlen' (Some (drop j (ecmd_frame r))) s b1 = Some (et_ok, s, b2) \<and> rx_holds b2 k []"
proof -
  let ?x = "take j (ecmd_frame r)" and ?y = "drop j (ecmd_frame r)"
  obtain b1 where b1: "uart_rxpoll (ecmd_protocol # ps) rlen (Some ?x) s b = Some (err_incomplete, s, b1)"
      "rx_holds b1 k ?x" "bc_size b1 = bc_size b"
    using ecmd_poll_part[where r = r and ps = ps and rlen = rlen and s = s, OF assms(1) refl assms(4,5)] assms(3,5) by auto
  have p: "pr_match (ecmd_protocol :: 'a cmder_protocol) = ecmd_match" "pr_read (ecmd_protocol :: 'a cmder_protocol) = ecmd_read"
    by (simp_all add: ecmd_protocol_def)
  obtain b2 where "uart_rxpoll (ecmd_protocol # ps) rlen' (Some ?y) s b1 = Some (et_ok, s, b2)" "rx_holds b2 k []"
    using ecmd.uart_rxpoll_first[where r = r and s = s and rest = "[]" and ps = ps and rlen = rlen' and y = ?y, OF p _ _ b1(2)] b1(3) assms(2,3) by auto
  then show ?thesis using b1 by auto
qed

definition small_rx :: awoke_buffchunk where
  "small_rx = \<lparr>bc_id = 0, bc_p = Some (zeros 16), bc_size = 8, bc_length = 0\<rparr>"

lemma small_rx_holds: "rx_holds small_rx 8 []"
  by (simp add: rx_holds_def small_rx_def)

theorem ecmd_split_packet_witness:
  "\<exists>b1 b2. uart_rxpoll [ecmd_protocol, ecmd2_protocol] 0 (Some [0x81, 0x01, 7]) () small_rx = Some (err_incomplete, (), b1) \<and>
    uart_rxpoll [ecmd_protocol, ecmd2_protocol] 0 (Some [8, 9, 0xff]) () b1 = Some (et_ok, (), b2) \<and> rx_holds b2 8 []"
  using ecmd_split_packet[OF small_rx_holds, of 3 "[ecmd2_protocol]" 0 "(7, 8, 9)" "()" 0]
  by (auto simp: ecmd_frame_def small_rx_def eval_nat_numeral)

end
