(* ===== verification/Proto_Litetalk.thy ===== *)
theory Proto_Litetalk
  imports Cmder_Rxpoll
begin

text \<open>
  The LiteTalk protocol, \<open>application/cmder/proto-litetalk.c\<close>: packets with a header of ten bytes (a mark, a
  category, a flag and the length of the content, big-endian) and their content. \<open>litetalk_read\<close> takes a
  packet apart and hands it to the callback of the protocol, a parameter here: it gets the reason with
  what the packet says, the memory, the offset and the length of the data, and the state. The build
  switch \<open>LITETLAK_CONFIG_CMI\<close> is not set, so category 8 is unknown.
\<close>

section \<open>Model\<close>

definition LITETALK_HEADERLEN :: int where "LITETALK_HEADERLEN = 10"
definition LITETALK_STREAM_HEADERLEN :: u32 where "LITETALK_STREAM_HEADERLEN = 9"
definition LITETALK_MARK :: u32 where "LITETALK_MARK = 0x13356789"

definition LITETALK_CATEGORY_COMMAND :: u8 where "LITETALK_CATEGORY_COMMAND = 0"
definition LITETALK_CATEGORY_STREAM :: u8 where "LITETALK_CATEGORY_STREAM = 1"
definition LITETALK_CATEGORY_LOG :: u8 where "LITETALK_CATEGORY_LOG = 2"

definition LITETALK_STREAM_ST_DOWNLOAD :: u8 where "LITETALK_STREAM_ST_DOWNLOAD = 1"
definition LITETALK_STREAM_ST_ACK :: u8 where "LITETALK_STREAM_ST_ACK = 2"

record litk_streaminfo =
  si_id :: u8
  si_media :: u8
  si_index :: u16
  si_length :: u16
  si_totalsize :: u32
  si_recvbytes :: u32

record litetalk_cmdinfo =
  ci_cmdtype :: u8
  ci_flag :: u8

datatype litk_reason = Litk_Init | Litk_Command litetalk_cmdinfo | Litk_Stream litk_streaminfo

type_synonym 's litk_callback = "litk_reason \<Rightarrow> bytes \<Rightarrow> int \<Rightarrow> u32 \<Rightarrow> 's \<Rightarrow> (err_type \<times> 's) option"

text \<open>The search for the mark; the offset \<open>end\<close> of the last byte received is \<open>pos + n\<close>.\<close>

primrec mark_scan :: "bytes \<Rightarrow> int \<Rightarrow> nat \<Rightarrow> int option" where
  "mark_scan m pos 0 = Some pos"
| "mark_scan m pos (Suc n) = do {
     (marker, _) \<leftarrow> pkg_pull_dwrd m pos;
     if htonl32 marker = LITETALK_MARK then Some pos else mark_scan m (pos + 1) n }"

definition litetalk_scan :: "bytes \<Rightarrow> int \<Rightarrow> int \<Rightarrow> (err_type \<times> int) option" where
  "litetalk_scan m len rlen =
     (if len < 4 then Some (err_notfind, 0)
      else do {
        pos \<leftarrow> mark_scan m 0 (nat (len - 1));
        Some (et_ok, if pos = len - 1 then len else pos) })"

text \<open>The length is compared in 32 bits, where the sum of the header and the content can wrap around.\<close>

definition litetalk_match :: "bytes \<Rightarrow> int \<Rightarrow> int \<Rightarrow> (err_type \<times> int) option" where
  "litetalk_match m len rlen =
     (if len < 4 then Some (err_unfinished, rlen)
      else do {
        (marker, pos) \<leftarrow> pkg_pull_dwrd m 0;
        if htonl32 marker \<noteq> LITETALK_MARK then Some (err_match, rlen)
        else if len < LITETALK_HEADERLEN then Some (err_unfinished, rlen)
        else do {
          (n, _) \<leftarrow> pkg_pull_dwrd m (pos + 2);
          let need = htonl32 n + of_int LITETALK_HEADERLEN;
          if of_int len = need then Some (et_ok, len)
          else if (of_int len :: u32) < need then Some (err_unfinished, rlen)
          else Some (et_ok, sint need) } })"

text \<open>The field \<open>recvbytes\<close> is not set by the code, and not read by the callback before it is.\<close>

definition litetalk_stream_download :: "'s litk_callback \<Rightarrow> 's \<Rightarrow> u8 \<Rightarrow> bytes \<Rightarrow> int \<Rightarrow> u32 \<Rightarrow> (err_type \<times> 's) option" where
  "litetalk_stream_download cb s flag m pos len = do {
     (media, pos) \<leftarrow> pkg_pull_byte m pos;
     (total_size, pos) \<leftarrow> pkg_pull_dwrd m pos;
     (i, pos) \<leftarrow> pkg_pull_byte m pos;
     (index, pos) \<leftarrow> pkg_pull_word m pos;
     let n = (ucast (len - LITETALK_STREAM_HEADERLEN) :: u16);
     cb (Litk_Stream \<lparr>si_id = i, si_media = media, si_index = htons16 index, si_length = n,
                      si_totalsize = htonl32 total_size, si_recvbytes = 0\<rparr>) m pos (ucast n) s }"

definition litetalk_stream_read :: "'s litk_callback \<Rightarrow> 's \<Rightarrow> u8 \<Rightarrow> bytes \<Rightarrow> int \<Rightarrow> u32 \<Rightarrow> (err_type \<times> 's) option" where
  "litetalk_stream_read cb s flag m pos len = do {
     (subtype, pos) \<leftarrow> pkg_pull_byte m pos;
     if subtype = LITETALK_STREAM_ST_DOWNLOAD then do {
       (_, s) \<leftarrow> litetalk_stream_download cb s flag m pos len;
       Some (et_ok, s) }
     else Some (et_ok, s) }"

definition litetalk_command_read :: "'s litk_callback \<Rightarrow> 's \<Rightarrow> u8 \<Rightarrow> bytes \<Rightarrow> int \<Rightarrow> u32 \<Rightarrow> (err_type \<times> 's) option" where
  "litetalk_command_read cb s flag m pos len = do {
     (cmdtype, pos) \<leftarrow> pkg_pull_byte m pos;
     (fl, pos) \<leftarrow> pkg_pull_byte m pos;
     (_, s) \<leftarrow> cb (Litk_Command \<lparr>ci_cmdtype = cmdtype, ci_flag = fl\<rparr>) m pos (len - 2) s;
     Some (et_ok, s) }"

text \<open>The flag \<open>initialized\<close> of the protocol is kept with the state of the callback.\<close>

definition litetalk_read :: "'s litk_callback \<Rightarrow> bool \<times> 's \<Rightarrow> bytes \<Rightarrow> int \<Rightarrow> (err_type \<times> bool \<times> 's) option" where
  "litetalk_read cb st m len = do {
     s \<leftarrow> (if fst st then Some (snd st) else do { (_, s) \<leftarrow> cb Litk_Init [] 0 0 (snd st); Some s });
     (category, pos) \<leftarrow> pkg_pull_byte m 4;
     (flag, pos) \<leftarrow> pkg_pull_byte m pos;
     (n, pos) \<leftarrow> pkg_pull_dwrd m pos;
     let content_length = htonl32 n;
     if category = LITETALK_CATEGORY_COMMAND then do {
       (_, s) \<leftarrow> litetalk_command_read cb s flag m pos content_length; Some (et_ok, True, s) }
     else if category = LITETALK_CATEGORY_STREAM then do {
       (_, s) \<leftarrow> litetalk_stream_read cb s flag m pos content_length; Some (et_ok, True, s) }
     else Some (err_param, True, s) }"

definition litetalk_protocol :: "'s litk_callback \<Rightarrow> (bool \<times> 's) cmder_protocol" where
  "litetalk_protocol cb = \<lparr>pr_match = litetalk_match, pr_scan = litetalk_scan, pr_read = litetalk_read cb\<rparr>"

definition litetalk_pack_header :: "bytes \<Rightarrow> u8 \<Rightarrow> int \<Rightarrow> bytes option" where
  "litetalk_pack_header m category len = do {
     (m, _) \<leftarrow> pkg_push_all m 0 [u32_bytes (htonl32 LITETALK_MARK), u8_bytes category, u8_bytes 0, u32_bytes (htonl32 (of_int len))];
     Some m }"

definition litetalk_build_cmderr :: "bytes \<Rightarrow> litetalk_cmdinfo \<Rightarrow> u8 \<Rightarrow> (int \<times> bytes) option" where
  "litetalk_build_cmderr m info code = do {
     (m, pos) \<leftarrow> pkg_push_all m LITETALK_HEADERLEN [u8_bytes (ci_cmdtype info), u8_bytes code, u8_bytes (ci_flag info), u32_bytes 0];
     m \<leftarrow> litetalk_pack_header m LITETALK_CATEGORY_COMMAND 7;
     Some (pos, m) }"

text \<open>The packets built in a chunk: the content behind the header, then the header.\<close>

definition litk_build :: "awoke_buffchunk \<Rightarrow> u8 \<Rightarrow> bytes list \<Rightarrow> awoke_buffchunk option" where
  "litk_build p category xs = do {
     (m, pos) \<leftarrow> pkg_push_all (bc_block p) LITETALK_HEADERLEN xs;
     m \<leftarrow> litetalk_pack_header m category (pos - LITETALK_HEADERLEN);
     Some (p\<lparr>bc_p := map_option (\<lambda>_. m) (bc_p p), bc_length := pos\<rparr>) }"

definition litetalk_build_stream_ack :: "awoke_buffchunk \<Rightarrow> u8 \<Rightarrow> u16 \<Rightarrow> u8 \<Rightarrow> (err_type \<times> awoke_buffchunk) option" where
  "litetalk_build_stream_ack p streamid index code = do {
     p \<leftarrow> litk_build p LITETALK_CATEGORY_STREAM
       [u8_bytes LITETALK_STREAM_ST_ACK, u8_bytes streamid, u16_bytes (htons16 index), u8_bytes code];
     Some (et_ok, p) }"

definition litetalk_build_log :: "awoke_buffchunk \<Rightarrow> u8 \<Rightarrow> u32 \<Rightarrow> bytes \<Rightarrow> int \<Rightarrow> (err_type \<times> awoke_buffchunk) option" where
  "litetalk_build_log p level src_id ctx len = do {
     x \<leftarrow> mem_read ctx 0 (size_t len);
     p \<leftarrow> litk_build p LITETALK_CATEGORY_LOG [u32_bytes (htonl32 0), u8_bytes level, u32_bytes (htonl32 src_id), x];
     Some (et_ok, p) }"

section \<open>Packets\<close>

record litk_packet =
  pk_category :: u8
  pk_flag :: u8
  pk_content :: bytes

definition litk_header :: "u8 \<Rightarrow> u8 \<Rightarrow> nat \<Rightarrow> bytes" where
  "litk_header category flag n =
     u32_bytes (htonl32 LITETALK_MARK) @ u8_bytes category @ u8_bytes flag @ u32_bytes (htonl32 (of_nat n))"

definition litk_frame :: "litk_packet \<Rightarrow> bytes" where
  "litk_frame r = litk_header (pk_category r) (pk_flag r) (length (pk_content r)) @ pk_content r"

definition litk_wf :: "litk_packet \<Rightarrow> bool" where
  "litk_wf r \<longleftrightarrow> length (pk_content r) + 10 < 2147483648"

lemma litk_header_length [simp]: "length (litk_header c f n) = 10"
  by (simp add: litk_header_def)

lemma litk_frame_length: "length (litk_frame r) = length (pk_content r) + 10"
  by (simp add: litk_frame_def)

text \<open>The fields of a header at the start of memory.\<close>

lemma header_mark: "pkg_pull_dwrd (litk_header c f n @ y) 0 = Some (htonl32 LITETALK_MARK, 4)"
  using pull_dwrd_append[of 0 "[]" "htonl32 LITETALK_MARK"] by (simp add: litk_header_def)

lemma header_category: "pkg_pull_byte (litk_header c f n @ y) 4 = Some (c, 5)"
  using pull_byte_append[of 4 "u32_bytes (htonl32 LITETALK_MARK)" c] by (simp add: litk_header_def)

lemma header_flag: "pkg_pull_byte (litk_header c f n @ y) 5 = Some (f, 6)"
  using pull_byte_append[of 5 "u32_bytes (htonl32 LITETALK_MARK) @ u8_bytes c" f] by (simp add: litk_header_def)

lemma header_length_field: "pkg_pull_dwrd (litk_header c f n @ y) 6 = Some (htonl32 (of_nat n), 10)"
  using pull_dwrd_append[of 6 "u32_bytes (htonl32 LITETALK_MARK) @ u8_bytes c @ u8_bytes f" "htonl32 (of_nat n)"]
  by (simp add: litk_header_def)

lemmas header_pulls = header_mark header_category header_flag header_length_field

text \<open>The comparison of the lengths, when nothing wraps around.\<close>

lemma need_length:
  assumes "n + 10 < 2147483648"
  shows "unat (of_nat n + 10 :: u32) = n + 10" "sint (of_nat n + 10 :: u32) = int n + 10"
proof -
  have w: "of_nat n + 10 = (of_nat (n + 10) :: u32)" by simp
  show u: "unat (of_nat n + 10 :: u32) = n + 10" unfolding w by (subst unat_of_nat) (use assms in simp)
  then have "uint (of_nat n + 10 :: u32) = int n + 10" by (simp add: uint_nat)
  then show "sint (of_nat n + 10 :: u32) = int n + 10"
    using assms by (simp add: sint_uint signed_take_bit_int_eq_self_iff)
qed

lemma litetalk_match_header:
  assumes "10 \<le> k" "n + 10 < 2147483648" "k < 2147483648"
  shows "litetalk_match (litk_header c f n @ y) (int k) rlen =
    Some (if k < n + 10 then (err_unfinished, rlen) else (et_ok, int n + 10))"
proof -
  have k: "unat (of_nat k :: u32) = k" using assms(3) by (simp add: unat_of_nat)
  have lt: "(of_nat k :: u32) < of_nat n + 10 \<longleftrightarrow> k < n + 10"
    by (simp add: word_less_nat_alt need_length[OF assms(2)] k)
  have eq: "(of_nat k :: u32) = of_nat n + 10 \<longleftrightarrow> k = n + 10"
    using k need_length(1)[OF assms(2)] by (metis word_unat_eq_iff)
  show ?thesis using assms(1)
    by (simp add: litetalk_match_def LITETALK_HEADERLEN_def header_pulls lt eq need_length(2)[OF assms(2)] Let_def of_int_of_nat_eq)
qed

interpretation litk: framing litetalk_match litk_frame litk_wf
proof unfold_locales
  fix r n y rlen
  assume "litk_wf r" "length (litk_frame r) \<le> n" "n < 2147483648"
  then show "litetalk_match (litk_frame r @ y) (int n) rlen = Some (et_ok, int (length (litk_frame r)))"
    by (simp add: litk_frame_def litk_wf_def litetalk_match_header)
next
  show "litk_frame r \<noteq> []" for r using litk_frame_length[of r] by auto
qed

text \<open>What the packing functions build.\<close>

lemma pack_header_ok:
  assumes "length h = 10"
  shows "litetalk_pack_header (h @ y) category (int n) = Some (litk_header category 0 n @ y)"
  using pkg_push_all_ok[of 0 "[u32_bytes (htonl32 LITETALK_MARK), u8_bytes category, u8_bytes 0, u32_bytes (htonl32 (of_nat n))]" "h @ y"]
    assms by (simp add: litetalk_pack_header_def litk_header_def)

lemma litk_build_ok:
  assumes "bc_p p = Some m" "10 + length (concat xs) \<le> length m"
  shows "litk_build p category xs = Some (p\<lparr>bc_p := Some (litk_frame \<lparr>pk_category = category, pk_flag = 0, pk_content = concat xs\<rparr> @
      drop (10 + length (concat xs)) m), bc_length := int (10 + length (concat xs))\<rparr>)"
proof -
  have "pkg_push_all m (int 10) xs = Some (take 10 m @ concat xs @ drop (10 + length (concat xs)) m,
      int (10 + length (concat xs)))"
    by (rule pkg_push_all_ok[OF assms(2)])
  moreover have "litetalk_pack_header (take 10 m @ concat xs @ drop (10 + length (concat xs)) m) category (int (length (concat xs))) =
      Some (litk_header category 0 (length (concat xs)) @ concat xs @ drop (10 + length (concat xs)) m)"
    by (rule pack_header_ok) (use assms(2) in simp)
  ultimately show ?thesis
    by (simp add: litk_build_def LITETALK_HEADERLEN_def bc_block_def assms(1) litk_frame_def del: length_concat)
qed

text \<open>The search: the first mark, as long as the memory behind the received bytes can be read.\<close>

lemma mark_scan_first:
  assumes "p + n + 3 \<le> length m"
  shows "\<exists>q. mark_scan m (int p) n = Some (int q) \<and> p \<le> q \<and> q \<le> p + n \<and>
    (\<forall>i. p \<le> i \<and> i < q \<longrightarrow> take 4 (drop i m) \<noteq> u32_bytes (htonl32 LITETALK_MARK)) \<and>
    (q < p + n \<longrightarrow> take 4 (drop q m) = u32_bytes (htonl32 LITETALK_MARK))"
  using assms
proof (induction n arbitrary: p)
  case 0
  show ?case by (rule exI[of _ p]) auto
next
  case (Suc n)
  have pull: "pkg_pull_dwrd m (int p) = Some (of_nat (le_nat (take 4 (drop p m))), int p + 4)"
    using pull_dwrd_at[of p m] Suc.prems by simp
  have t: "htonl32 (of_nat (le_nat (take 4 (drop p m)))) = LITETALK_MARK \<longleftrightarrow> take 4 (drop p m) = u32_bytes (htonl32 LITETALK_MARK)"
    by (rule htonl32_test) (use Suc.prems in simp)
  show ?case
  proof (cases "take 4 (drop p m) = u32_bytes (htonl32 LITETALK_MARK)")
    case True
    then show ?thesis by (intro exI[of _ p]) (auto simp: pull t)
  next
    case False
    obtain q where q: "mark_scan m (int (Suc p)) n = Some (int q)" "Suc p \<le> q" "q \<le> Suc p + n"
        "\<forall>i. Suc p \<le> i \<and> i < q \<longrightarrow> take 4 (drop i m) \<noteq> u32_bytes (htonl32 LITETALK_MARK)"
        "q < Suc p + n \<longrightarrow> take 4 (drop q m) = u32_bytes (htonl32 LITETALK_MARK)"
      using Suc.IH[of "Suc p"] Suc.prems by auto
    have "mark_scan m (int p) (Suc n) = Some (int q)" using q(1) False by (simp add: pull t add.commute)
    moreover have "take 4 (drop i m) \<noteq> u32_bytes (htonl32 LITETALK_MARK)" if "p \<le> i" "i < q" for i
      using q(4) False that by (cases "i = p") auto
    ultimately show ?thesis using q(2,3,5) by (intro exI[of _ q]) auto
  qed
qed

text \<open>A piece of a stream as the content of a packet, and what \<open>litetalk_read\<close> does with one.\<close>

definition stream_content :: "litk_streaminfo \<Rightarrow> bytes \<Rightarrow> bytes" where
  "stream_content i data = u8_bytes LITETALK_STREAM_ST_DOWNLOAD @ u8_bytes (si_media i) @ u32_bytes (htonl32 (si_totalsize i)) @
     u8_bytes (si_id i) @ u16_bytes (htons16 (si_index i)) @ data"

definition stream_packet :: "u8 \<Rightarrow> litk_streaminfo \<Rightarrow> bytes \<Rightarrow> litk_packet" where
  "stream_packet flag i data = \<lparr>pk_category = LITETALK_CATEGORY_STREAM, pk_flag = flag, pk_content = stream_content i data\<rparr>"

lemma stream_packet_frame:
  "litk_frame (stream_packet flag i data) @ y = litk_header LITETALK_CATEGORY_STREAM flag (length data + 9) @ stream_content i (data @ y)"
  by (simp add: litk_frame_def stream_packet_def stream_content_def add.commute)

lemma stream_pulls:
  fixes h :: bytes and i data
  assumes "length h = 10"
  defines "m \<equiv> h @ stream_content i data"
  shows "pkg_pull_byte m 10 = Some (LITETALK_STREAM_ST_DOWNLOAD, 11)" "pkg_pull_byte m 11 = Some (si_media i, 12)"
    "pkg_pull_dwrd m 12 = Some (htonl32 (si_totalsize i), 16)" "pkg_pull_byte m 16 = Some (si_id i, 17)"
    "pkg_pull_word m 17 = Some (htons16 (si_index i), 19)"
  using assms(1) pull_byte_append[of 10 h LITETALK_STREAM_ST_DOWNLOAD]
    pull_byte_append[of 11 "h @ u8_bytes LITETALK_STREAM_ST_DOWNLOAD" "si_media i"]
    pull_dwrd_append[of 12 "h @ u8_bytes LITETALK_STREAM_ST_DOWNLOAD @ u8_bytes (si_media i)" "htonl32 (si_totalsize i)"]
    pull_byte_append[of 16 "h @ u8_bytes LITETALK_STREAM_ST_DOWNLOAD @ u8_bytes (si_media i) @ u32_bytes (htonl32 (si_totalsize i))" "si_id i"]
    pull_word_append[of 17 "h @ u8_bytes LITETALK_STREAM_ST_DOWNLOAD @ u8_bytes (si_media i) @ u32_bytes (htonl32 (si_totalsize i)) @
      u8_bytes (si_id i)" "htons16 (si_index i)"]
  by (simp_all add: m_def stream_content_def)

lemma stream_data_length:
  assumes "n < 65536"
  shows "ucast (of_nat (n + 9) - LITETALK_STREAM_HEADERLEN :: u32) = (of_nat n :: u16)"
proof -
  have "of_nat (n + 9) - LITETALK_STREAM_HEADERLEN = (of_nat n :: u32)" by (simp add: LITETALK_STREAM_HEADERLEN_def)
  then show ?thesis using assms by (simp add: word_unat_eq_iff unsigned_ucast_eq unsigned_of_nat take_bit_nat_eq_self)
qed

lemma litetalk_read_stream:
  assumes "length data < 65536"
  shows "litetalk_read cb (True, s) (litk_frame (stream_packet flag i data) @ y) len =
    map_option (\<lambda>(_, s'). (et_ok, True, s'))
      (cb (Litk_Stream (i\<lparr>si_length := of_nat (length data), si_recvbytes := 0\<rparr>)) (litk_frame (stream_packet flag i data) @ y) 19
         (of_nat (length data)) s)"
proof -
  have l: "ucast (of_nat (length data) :: u16) = (of_nat (length data) :: u32)"
    using assms by (simp add: word_unat_eq_iff unsigned_ucast_eq unsigned_of_nat take_bit_nat_eq_self)
  have c: "LITETALK_CATEGORY_STREAM \<noteq> LITETALK_CATEGORY_COMMAND" by (simp add: LITETALK_CATEGORY_STREAM_def LITETALK_CATEGORY_COMMAND_def)
  have u: "i\<lparr>si_length := x, si_recvbytes := 0\<rparr> = \<lparr>si_id = si_id i, si_media = si_media i, si_index = si_index i,
      si_length = x, si_totalsize = si_totalsize i, si_recvbytes = 0\<rparr>" for x by (cases i) simp
  show ?thesis
    by (simp add: u litetalk_read_def stream_packet_frame header_pulls c litetalk_stream_read_def litetalk_stream_download_def
        stream_pulls stream_data_length[OF assms] l del: of_nat_add split: option.splits bind_splits)
qed

section \<open>Properties\<close>

text \<open>C29: a piece of a stream reaches the callback of an initialised protocol as it was packed: for every stream header, data of less than 64 KB
  and whatever bytes follow, \<open>litetalk_match\<close> accepts exactly the packet, and \<open>litetalk_read\<close> calls the callback once with
  the identifier, the media, the index and the total size of the header, the length of the data and the place where
  the data lies.\<close>

theorem litetalk_stream_delivery:
  assumes "length data < 65536" "length (litk_frame (stream_packet flag i data)) \<le> n"
    and "n \<le> length (litk_frame (stream_packet flag i data) @ y)" "n < 2147483648"
  shows "litetalk_match (litk_frame (stream_packet flag i data) @ y) (int n) rlen =
      Some (et_ok, int (length (litk_frame (stream_packet flag i data)))) \<and>
    litetalk_read cb (True, s) (litk_frame (stream_packet flag i data) @ y) len =
      map_option (\<lambda>(_, s'). (et_ok, True, s'))
        (cb (Litk_Stream (i\<lparr>si_length := of_nat (length data), si_recvbytes := 0\<rparr>))
          (litk_frame (stream_packet flag i data) @ y) 19 (of_nat (length data)) s) \<and>
    take (length data) (drop 19 (litk_frame (stream_packet flag i data) @ y)) = data"
proof -
  have wf: "litk_wf (stream_packet flag i data)"
    using assms(1) by (simp add: litk_wf_def stream_packet_def stream_content_def)
  have "take (length data) (drop 19 (litk_frame (stream_packet flag i data) @ y)) = data"
    by (simp add: stream_packet_frame stream_content_def)
  then show ?thesis using litk.match_frame[OF wf assms(2-4), of rlen] litetalk_read_stream[OF assms(1)] by simp
qed

definition sample_stream :: litk_streaminfo where
  "sample_stream = \<lparr>si_id = 7, si_media = 3, si_index = 0x0102, si_length = 2, si_totalsize = 0x01020304, si_recvbytes = 0\<rparr>"

theorem litetalk_stream_delivery_witness:
  "litetalk_match (litk_frame (stream_packet 0 sample_stream [5, 6]) @ [9]) 22 0 = Some (et_ok, 21) \<and>
   litetalk_read (\<lambda>why m pos n s. Some (et_ok, s @ [(why, pos, n)])) (True, []) (litk_frame (stream_packet 0 sample_stream [5, 6]) @ [9]) 21 =
     Some (et_ok, True, [(Litk_Stream sample_stream, 19, 2)])"
proof -
  have "length (litk_frame (stream_packet 0 sample_stream [5, 6])) = 21"
    by (simp add: litk_frame_length stream_packet_def stream_content_def)
  then show ?thesis
    using litetalk_stream_delivery[of "[5, 6]" 0 sample_stream 22 "[9]" 0 "\<lambda>why m pos n s. Some (et_ok, s @ [(why, pos, n)])" "[]" 21]
    by (simp add: sample_stream_def)
qed

text \<open>The search finds the next packet: behind bytes in which no mark begins, \<open>litetalk_scan\<close> reports exactly the
  number of those bytes, so that the poll drops them and the packet comes to the front; without a mark it
  reports all of the bytes. It looks at two bytes behind those received.\<close>

theorem litetalk_scan_resync:
  assumes "4 \<le> n" "n + 2 \<le> length m"
  shows "\<exists>q. litetalk_scan m (int n) rlen = Some (et_ok, int q) \<and> q \<le> n \<and>
    (\<forall>i < min q (n - 1). take 4 (drop i m) \<noteq> u32_bytes (htonl32 LITETALK_MARK)) \<and>
    (if q < n - 1 then take 4 (drop q m) = u32_bytes (htonl32 LITETALK_MARK) else q = n)"
proof -
  obtain q where q: "mark_scan m (int 0) (n - 1) = Some (int q)" "q \<le> n - 1"
      "\<forall>i. i < q \<longrightarrow> take 4 (drop i m) \<noteq> u32_bytes (htonl32 LITETALK_MARK)"
      "q < n - 1 \<longrightarrow> take 4 (drop q m) = u32_bytes (htonl32 LITETALK_MARK)"
    using mark_scan_first[of 0 "n - 1" m] assms by auto
  have "litetalk_scan m (int n) rlen = Some (et_ok, if int q = int n - 1 then int n else int q)"
    using q(1) assms(1) by (simp add: litetalk_scan_def nat_diff_distrib)
  then show ?thesis using q(2-4) assms(1)
    by (intro exI[of _ "if q = n - 1 then n else q"]) (auto simp: of_nat_diff)
qed

theorem litetalk_scan_resync_witness:
  "\<exists>q. litetalk_scan [1, 2, 0x13, 0x35, 0x67, 0x89, 0, 0] 6 0 = Some (et_ok, int q) \<and> q \<le> 6"
  using litetalk_scan_resync[of 6 "[1, 2, 0x13, 0x35, 0x67, 0x89, 0, 0]" 0] by auto

text \<open>A content length close to the largest one wraps around: the packet is accepted at once, with a length below
  that of its header.\<close>

lemma litetalk_match_wraps: "litetalk_match (litk_header c f 0xffffffff) 10 rlen = Some (et_ok, 9)"
  using header_mark[of c f "0xffffffff" "[]"] header_length_field[of c f "0xffffffff" "[]"] by (simp add: litetalk_match_def LITETALK_HEADERLEN_def)

end
