(* ===== verification/Cmder_Context.thy ===== *)
theory Cmder_Context
  imports Cmder_Rxpoll Awoke_Minpq
begin

text \<open>
  The state of the commander, \<open>application/cmder/cmder.h\<close>, and the operations on it that the protocols and the
  main loop share (\<open>cmder.c\<close>): registering and finding transceivers, handing bytes to one, the queue of chunks
  to send and the queue of works.

  The queues hold pointers to chunks, which live in an explicit store \<open>uc_heap\<close>; a pointer is the eight bytes of
  an address, and the address of a chunk is chosen when its pointer is first stored. What a transceiver is
  given to send is recorded in \<open>uc_sent\<close>, with the number of the transceiver. The counter of chunk numbers
  (\<open>uc_ids\<close>) is the static one of \<open>awoke_buffer.c\<close>. The times of \<open>gettimeofday\<close> are arguments. The records keep the
  fields that the code uses; a field of one bit is a word of one bit.
\<close>

section \<open>State\<close>

record cmder_config =
  goal_min :: u16
  goal_max :: u16
  expo :: u32
  expo_min :: u32
  expo_max :: u32
  gain :: u16
  gain_min :: u16
  gain_max :: u16
  fps :: u8
  fps_min :: u8
  fps_max :: u8
  hinvs :: u8
  vinvs :: u8
  ae_frame :: u8
  tec_target :: "32 word"
  tec_target_min :: u32
  tec_target_max :: u32
  iff_th :: u16
  iff_div :: u16
  ae_enable :: "1 word"
  ae_expo_enable :: "1 word"
  ae_gain_enable :: "1 word"
  crossview_enable :: "1 word"
  tec_enable :: "1 word"
  cltest_enable :: "1 word"
  frtest_enable :: "1 word"
  dpc_enable :: "1 word"
  psnu_enable :: "1 word"
  iff_enable :: "1 word"
  gamm_en :: "1 word"
  cross_x :: u16
  cross_y :: u16
  iffparam :: u32
  LQ_single_test :: u32

record roi_struct =
  roi_x :: u16
  roi_y :: u16
  roi_w :: u16
  roi_h :: u16
  roi_enable :: u32

record command_transceiver =
  tc_id :: u8
  tc_fd :: int
  tc_connfd :: int
  tc_port :: string
  tc_rxbuffer :: "awoke_buffchunk option"

record uartcmder =
  uc_tcvrs :: "command_transceiver list"
  uc_nr_tcvrs :: int
  uc_nuc_checksum :: u8
  uc_nucaddr :: u32
  uc_txqueue :: awoke_minpq
  uc_workqueue :: awoke_minpq
  uc_regaddr :: u16
  uc_regvalue :: u8
  uc_config :: cmder_config
  uc_temp_cap_en :: u8
  uc_roi0 :: roi_struct
  uc_lq_stream :: "awoke_buffchunk option"
  uc_heap :: "nat \<Rightarrow> awoke_buffchunk option"
  uc_brk :: nat
  uc_ids :: u16
  uc_sent :: "(u8 \<times> bytes) list"

text \<open>The numbers of the error codes in \<open>awoke_error.h\<close>, as far as it declares them.\<close>

definition err_enumerators :: "(err_type \<times> nat) list" where
  "err_enumerators =
    [(et_ok, 0), (et_finish, 1), (et_unfinished, 2), (et_yield, 3), (et_noneed, 4), (et_reboot, 5), (et_killed, 6), (et_oneed, 7),
     (err_common, 10), (err_param, 11), (err_range, 12), (err_oom, 13), (err_exist, 14), (err_notfind, 15), (err_full, 16),
     (err_empty, 17), (err_timeout, 18), (err_locked, 19), (err_notready, 20), (err_notsupport, 21), (err_match, 22),
     (err_checksum, 23), (err_fail, 24), (err_open, 25), (err_send, 26), (err_unfinished, 27), (err_incomplete, 28),
     (err_sock_creat, 29)]"

definition err_value :: "err_type \<Rightarrow> nat option" where
  "err_value e = map_of err_enumerators e"

section \<open>Transceivers\<close>

definition cmder_find_tcvr_byid :: "uartcmder \<Rightarrow> u8 \<Rightarrow> command_transceiver option" where
  "cmder_find_tcvr_byid c i = List.find (\<lambda>p. tc_id p = i) (uc_tcvrs c)"

text \<open>The arguments that may be null are options; the callbacks of the transceiver are not part of the state.\<close>

definition cmder_tcvr_register :: "allocator \<Rightarrow> uartcmder option \<Rightarrow> u8 \<Rightarrow> string option \<Rightarrow> bool \<Rightarrow> bool \<Rightarrow> int \<Rightarrow> err_type \<times> uartcmder option" where
  "cmder_tcvr_register alloc c i port rx tx bufsize = (case (c, port) of
      (Some uc, Some name) \<Rightarrow>
        (if \<not> rx \<or> \<not> tx then (err_param, c)
         else if \<exists>p \<in> set (uc_tcvrs uc). tc_id p = i then (err_exist, c)
         else if \<not> alloc 64 then (err_oom, c)
         else if bufsize = 0 then
           (et_ok, Some (uc\<lparr>uc_nr_tcvrs := uc_nr_tcvrs uc + 1, uc_tcvrs := uc_tcvrs uc @
              [\<lparr>tc_id = i, tc_fd = -1, tc_connfd = 0, tc_port = name, tc_rxbuffer = None\<rparr>]\<rparr>))
         else (case awoke_buffchunk_create alloc (uc_ids uc) bufsize of
            (None, ids) \<Rightarrow> (err_oom, Some (uc\<lparr>uc_ids := ids\<rparr>))
          | (Some b, ids) \<Rightarrow> (et_ok, Some (uc\<lparr>uc_ids := ids, uc_nr_tcvrs := uc_nr_tcvrs uc + 1, uc_tcvrs := uc_tcvrs uc @
              [\<lparr>tc_id = i, tc_fd = -1, tc_connfd = 0, tc_port = name, tc_rxbuffer = Some b\<rparr>]\<rparr>))))
    | _ \<Rightarrow> (err_param, c))"

definition set_first :: "('a \<Rightarrow> bool) \<Rightarrow> ('a \<Rightarrow> 'a) \<Rightarrow> 'a list \<Rightarrow> 'a list" where
  "set_first P f xs = takeWhile (\<lambda>x. \<not> P x) xs @ (case dropWhile (\<lambda>x. \<not> P x) xs of [] \<Rightarrow> [] | x # ys \<Rightarrow> f x # ys)"

text \<open>Opening a serial port, with the descriptor that \<open>uart_claim\<close> returns.\<close>

definition cmder_uart_tcvr_claim :: "int \<Rightarrow> uartcmder \<Rightarrow> u8 \<Rightarrow> err_type \<times> uartcmder" where
  "cmder_uart_tcvr_claim fd c i = (case cmder_find_tcvr_byid c i of
      None \<Rightarrow> (err_notfind, c)
    | Some p \<Rightarrow>
        (if tc_fd p \<noteq> -1 then (et_noneed, c)
         else if fd < 0 then (err_open, c)
         else (et_ok, c\<lparr>uc_tcvrs := set_first (\<lambda>p. tc_id p = i) (\<lambda>p. p\<lparr>tc_fd := fd\<rparr>) (uc_tcvrs c)\<rparr>)))"

text \<open>The TCP variant does not test that it found the transceiver: at the end of the list its pointer is none.\<close>

definition cmder_tcp_tcvr_claim :: "int \<Rightarrow> uartcmder \<Rightarrow> u8 \<Rightarrow> (err_type \<times> uartcmder) option" where
  "cmder_tcp_tcvr_claim fd c i =
     (if fd < 0 then Some (err_sock_creat, c)
      else case cmder_find_tcvr_byid c i of
        None \<Rightarrow> None
      | Some p \<Rightarrow> Some (et_ok, c\<lparr>uc_tcvrs := set_first (\<lambda>p. tc_id p = i) (\<lambda>p. p\<lparr>tc_fd := fd, tc_connfd := -1\<rparr>) (uc_tcvrs c)\<rparr>))"

text \<open>Handing \<open>len\<close> bytes to a transceiver: \<open>uc_sent\<close> records what its \<open>tx\<close> gives to \<open>write\<close> or \<open>send\<close>. How much of that the
  descriptor takes is not part of the state: \<open>uart_tx\<close> and \<open>tcp_tx\<close> count a part as success and do not send the rest.\<close>

definition uartcmder_senddata :: "uartcmder \<Rightarrow> u8 \<Rightarrow> bytes \<Rightarrow> int \<Rightarrow> uartcmder option" where
  "uartcmder_senddata c tid buf len = do {
     p \<leftarrow> cmder_find_tcvr_byid c tid;
     x \<leftarrow> mem_read buf 0 (size_t len);
     Some (c\<lparr>uc_sent := uc_sent c @ [(tc_id p, x)]\<rparr>) }"

section \<open>The queue of chunks to send\<close>

definition ptr_bytes :: "nat \<Rightarrow> bytes" where "ptr_bytes a = le_bytes 8 a"

definition tx_insert :: "allocator \<Rightarrow> uartcmder \<Rightarrow> awoke_buffchunk \<Rightarrow> int \<Rightarrow> (err_type \<times> uartcmder) option" where
  "tx_insert alloc c chunk prior = do {
     (ret, q) \<leftarrow> awoke_minpq_insert alloc (uc_txqueue c) (ptr_bytes (uc_brk c)) prior;
     Some (ret, c\<lparr>uc_txqueue := q, uc_heap := (uc_heap c)(uc_brk c := Some chunk), uc_brk := uc_brk c + 1\<rparr>) }"

definition uartcmder_senddata_async :: "allocator \<Rightarrow> uartcmder \<Rightarrow> awoke_buffchunk \<Rightarrow> u8 \<Rightarrow> (err_type \<times> uartcmder) option" where
  "uartcmder_senddata_async alloc c chunk tid = tx_insert alloc c chunk (uint tid)"

text \<open>One chunk per turn of the main loop; \<open>sent\<close> says whether the transceiver reports success.\<close>

definition cmder_command_send :: "allocator \<Rightarrow> bool \<Rightarrow> uartcmder \<Rightarrow> (err_type \<times> uartcmder) option" where
  "cmder_command_send alloc sent c =
     (if awoke_minpq_empty (uc_txqueue c) then Some (et_ok, c)
      else do {
        (_, item, q) \<leftarrow> awoke_minpq_delmin alloc (uc_txqueue c);
        (ptr, _) \<leftarrow> item;
        let a = le_nat ptr;
        chunk \<leftarrow> uc_heap c a;
        c1 \<leftarrow> uartcmder_senddata (c\<lparr>uc_txqueue := q\<rparr>) (ucast (bc_id chunk)) (bc_block chunk) (bc_length chunk);
        Some (if sent then et_ok else err_send, c1\<lparr>uc_heap := (uc_heap c1)(a := None)\<rparr>) })"

section \<open>The queue of works\<close>

text \<open>A work is a handler and the time it is due: the handler as an address, four bytes of milliseconds, and
  the fields \<open>data\<close> and \<open>flags\<close>, which the code leaves uninitialised and never reads: they are zero here.\<close>

definition work_node :: "nat \<Rightarrow> u32 \<Rightarrow> bytes" where
  "work_node handle ms = le_bytes 8 handle @ le_bytes 4 (unat ms) @ zeros 20"

definition work_handle :: "bytes \<Rightarrow> nat" where "work_handle w = le_nat (take 8 w)"
definition work_ms :: "bytes \<Rightarrow> u32" where "work_ms w = of_nat (le_nat (take 4 (drop 8 w)))"

definition work_ms_comparator :: "bytes \<Rightarrow> bytes \<Rightarrow> bool" where
  "work_ms_comparator w1 w2 \<longleftrightarrow> work_ms w1 > work_ms w2"

text \<open>The milliseconds of a time of seconds and microseconds, in 32 bits.\<close>

definition now_ms :: "int \<times> int \<Rightarrow> u32" where
  "now_ms tv = of_int (fst tv * 1000 + snd tv div 1000)"

definition cmder_work_schedule :: "allocator \<Rightarrow> int \<times> int \<Rightarrow> uartcmder \<Rightarrow> nat \<Rightarrow> u32 \<Rightarrow> (err_type \<times> uartcmder) option" where
  "cmder_work_schedule alloc tv c cb ms = do {
     (ret, q) \<leftarrow> awoke_minpq_insert alloc (uc_workqueue c) (work_node cb (ms + now_ms tv)) 0;
     Some (ret, c\<lparr>uc_workqueue := q\<rparr>) }"

text \<open>One due work per call; the handlers are a parameter, by their address.\<close>

definition cmder_workqueue_service ::
  "allocator \<Rightarrow> int \<times> int \<Rightarrow> (nat \<Rightarrow> uartcmder \<Rightarrow> uartcmder option) \<Rightarrow> uartcmder \<Rightarrow> (u32 \<times> uartcmder) option" where
  "cmder_workqueue_service alloc tv run c =
     (if awoke_minpq_empty (uc_workqueue c) then Some (0, c)
      else do {
        (_, item) \<leftarrow> awoke_minpq_get (uc_workqueue c) 1;
        (w, _) \<leftarrow> item;
        if work_ms w > now_ms tv then Some (work_ms w - now_ms tv, c)
        else do {
          (_, item, q) \<leftarrow> awoke_minpq_delmin alloc (uc_workqueue c);
          (w, _) \<leftarrow> item;
          c \<leftarrow> run (work_handle w) (c\<lparr>uc_workqueue := q\<rparr>);
          Some (0, c) } })"

section \<open>Sending\<close>

text \<open>A chunk that can be handed to a transceiver, and what a queue of them stands for.\<close>

definition sendable :: "uartcmder \<Rightarrow> awoke_buffchunk \<Rightarrow> bool" where
  "sendable c ch \<longleftrightarrow> 0 \<le> bc_length ch \<and> bc_length ch \<le> int (length (bc_block ch)) \<and> bc_length ch < 2147483648 \<and>
     cmder_find_tcvr_byid c (ucast (bc_id ch)) \<noteq> None"

definition tx_chunk :: "uartcmder \<Rightarrow> int \<times> bytes \<Rightarrow> int \<times> awoke_buffchunk" where
  "tx_chunk c e = (fst e, the (uc_heap c (le_nat (snd e))))"

definition tx_pending :: "uartcmder \<Rightarrow> (int \<times> awoke_buffchunk) multiset" where
  "tx_pending c = image_mset (tx_chunk c) (pq_mset (uc_txqueue c))"

definition tx_ok :: "uartcmder \<Rightarrow> bool" where
  "tx_ok c \<longleftrightarrow> pq_inv (uc_txqueue c) \<and> pq_nodesize (uc_txqueue c) = 8 \<and> comparator (uc_txqueue c) = None \<and>
     \<not> mask_exst (pq_flags (uc_txqueue c)) AWOKE_MINPQ_F_RES \<and> uc_brk c \<le> 2 ^ 64 \<and>
     (\<forall>e \<in># pq_mset (uc_txqueue c). \<exists>a < uc_brk c. snd e = ptr_bytes a \<and> (\<exists>ch. uc_heap c a = Some ch \<and> sendable c ch)) \<and>
     (\<forall>u. count (image_mset snd (pq_mset (uc_txqueue c))) u \<le> 1)"

lemma ptr_round_trip: "a < 2 ^ 64 \<Longrightarrow> le_nat (ptr_bytes a) = a"
  by (simp add: ptr_bytes_def le_nat_bytes)

lemma ptr_bytes_length [simp]: "length (ptr_bytes a) = 8"
  by (simp add: ptr_bytes_def)

lemma tx_ok_mem:
  assumes "tx_ok c" "e \<in># pq_mset (uc_txqueue c)"
  shows "\<exists>a ch. a < uc_brk c \<and> snd e = ptr_bytes a \<and> le_nat (snd e) = a \<and> uc_heap c a = Some ch \<and> sendable c ch"
proof -
  obtain a ch where "a < uc_brk c" "snd e = ptr_bytes a" "uc_heap c a = Some ch" "sendable c ch" "uc_brk c \<le> 2 ^ 64"
    using assms unfolding tx_ok_def by blast
  then show ?thesis using ptr_round_trip[of a] by auto
qed

lemma sendable_updates [simp]:
  "sendable (c\<lparr>uc_txqueue := q\<rparr>) = sendable c" "sendable (c\<lparr>uc_heap := h\<rparr>) = sendable c"
  "sendable (c\<lparr>uc_brk := n\<rparr>) = sendable c" "sendable (c\<lparr>uc_sent := x\<rparr>) = sendable c"
  by (simp_all add: fun_eq_iff sendable_def cmder_find_tcvr_byid_def)

text \<open>Inserting a chunk adds it to what is pending.\<close>

lemma tx_insert_ok:
  assumes c: "tx_ok c" and room: "pq_nr (uc_txqueue c) < pq_cap (uc_txqueue c)" and al: "alloc 8"
    and brk: "uc_brk c < 2 ^ 64" and ch: "sendable c chunk"
  shows "\<exists>c'. tx_insert alloc c chunk prior = Some (et_ok, c') \<and> tx_ok c' \<and>
    tx_pending c' = add_mset (prior, chunk) (tx_pending c) \<and> uc_tcvrs c' = uc_tcvrs c \<and> uc_sent c' = uc_sent c \<and>
    uc_brk c' = uc_brk c + 1 \<and> pq_nr (uc_txqueue c') = pq_nr (uc_txqueue c) + 1 \<and> pq_cap (uc_txqueue c') = pq_cap (uc_txqueue c)"
proof -
  let ?q = "uc_txqueue c" and ?u = "ptr_bytes (uc_brk c)"
  have q: "pq_inv ?q" "pq_nodesize ?q = 8" "comparator ?q = None" "\<not> mask_exst (pq_flags ?q) AWOKE_MINPQ_F_RES"
    using c by (simp_all add: tx_ok_def)
  obtain q' where q': "awoke_minpq_insert alloc ?q ?u prior = Some (et_ok, q')" "pq_inv q'"
      "pq_mset q' = add_mset (prior, ?u) (pq_mset ?q)" "pq_nr q' = pq_nr ?q + 1" "pq_cap q' = pq_cap ?q"
      "pq_nodesize q' = 8" "pq_flags q' = pq_flags ?q" "comparator q' = None"
    using awoke_minpq_insert_room[of ?q ?u alloc prior] q room al by auto
  let ?c = "c\<lparr>uc_txqueue := q', uc_heap := (uc_heap c)(uc_brk c := Some chunk), uc_brk := uc_brk c + 1\<rparr>"
  have fresh: "le_nat (snd e) \<noteq> uc_brk c" "snd e \<noteq> ?u" if "e \<in># pq_mset ?q" for e
    using tx_ok_mem[OF c that] ptr_round_trip[OF brk] by auto
  have "image_mset (tx_chunk ?c) (pq_mset ?q) = image_mset (tx_chunk c) (pq_mset ?q)"
    by (rule image_mset_cong) (simp add: tx_chunk_def fresh(1))
  then have pend: "tx_pending ?c = add_mset (prior, chunk) (tx_pending c)"
    by (simp add: tx_pending_def q'(3) tx_chunk_def ptr_round_trip[OF brk])
  have "\<exists>a < uc_brk c + 1. snd e = ptr_bytes a \<and> (\<exists>ch. uc_heap ?c a = Some ch \<and> sendable ?c ch)" if e: "e \<in># pq_mset q'" for e
  proof (cases "e \<in># pq_mset ?q")
    case True
    obtain a h where a: "a < uc_brk c" "snd e = ptr_bytes a" "uc_heap c a = Some h" "sendable c h" using tx_ok_mem[OF c True] by blast
    then show ?thesis by (intro exI[of _ a]) simp
  next
    case False
    then have "snd e = ?u" using e q'(3) by auto
    then show ?thesis using ch by (intro exI[of _ "uc_brk c"]) simp
  qed
  moreover have "count (image_mset snd (pq_mset q')) u \<le> 1" for u
  proof (cases "u = ?u")
    case True
    have "?u \<notin># image_mset snd (pq_mset ?q)" using fresh(2) by force
    then have "count (image_mset snd (pq_mset ?q)) ?u = 0" by (rule not_in_iff[THEN iffD1])
    then show ?thesis using True by (simp add: q'(3))
  next
    case False
    then show ?thesis using c by (simp add: q'(3) tx_ok_def)
  qed
  ultimately have "tx_ok ?c" using q'(2,6,7,8) q(4) brk unfolding tx_ok_def by simp
  with pend q'(1,4,5) show ?thesis by (intro exI[of _ ?c]) (simp add: tx_insert_def)
qed

text \<open>Sending takes one of the most urgent chunks out and hands its bytes to its transceiver.\<close>

lemma command_send_ok:
  assumes c: "tx_ok c" and ne: "0 < pq_nr (uc_txqueue c)" and al: "alloc 8"
  shows "\<exists>c' p ch. cmder_command_send alloc True c = Some (et_ok, c') \<and> tx_ok c' \<and> (p, ch) \<in># tx_pending c \<and>
    (\<forall>e \<in># tx_pending c. p \<le> fst e) \<and> tx_pending c' = tx_pending c - {#(p, ch)#} \<and>
    uc_sent c' = uc_sent c @ [(ucast (bc_id ch), bc_data ch)] \<and> uc_tcvrs c' = uc_tcvrs c \<and>
    pq_nr (uc_txqueue c') = pq_nr (uc_txqueue c) - 1"
proof -
  let ?q = "uc_txqueue c"
  have q: "pq_inv ?q" "pq_nodesize ?q = 8" "comparator ?q = None" "\<not> mask_exst (pq_flags ?q) AWOKE_MINPQ_F_RES"
    using c by (simp_all add: tx_ok_def)
  obtain u p q' where q': "awoke_minpq_delmin alloc ?q = Some (et_ok, Some (u, p), q')" "pq_inv q'"
      "(p, u) \<in># pq_mset ?q" "\<forall>e \<in># pq_mset ?q. \<not> pq_gt ?q (p, u) e" "pq_mset q' = pq_mset ?q - {#(p, u)#}"
      "pq_nr q' = pq_nr ?q - 1" "pq_nodesize q' = 8" "pq_flags q' = pq_flags ?q" "comparator q' = None"
    using awoke_minpq_delmin_ok[of ?q alloc] q ne al by auto
  obtain a ch where a: "a < uc_brk c" "u = ptr_bytes a" "le_nat u = a" "uc_heap c a = Some ch" "sendable c ch"
    using tx_ok_mem[OF c q'(3)] by auto
  obtain t where t: "cmder_find_tcvr_byid c (ucast (bc_id ch)) = Some t" using a(5) by (auto simp: sendable_def)
  then have tid: "tc_id t = ucast (bc_id ch)" by (auto simp: cmder_find_tcvr_byid_def find_Some_iff)
  let ?c = "c\<lparr>uc_txqueue := q', uc_heap := (uc_heap c)(a := None), uc_sent := uc_sent c @ [(tc_id t, bc_data ch)]\<rparr>"
  have "mem_read (bc_block ch) 0 (size_t (bc_length ch)) = Some (bc_data ch)"
    using a(5) by (auto simp: sendable_def mem_read_def bc_data_def size_t_id)
  then have run: "cmder_command_send alloc True c = Some (et_ok, ?c)"
    using q'(1) a(3,4) t ne by (simp add: cmder_command_send_def awoke_minpq_empty_def uartcmder_senddata_def
        cmder_find_tcvr_byid_def)
  have one: "count (image_mset snd (pq_mset ?q)) u \<le> 1" using c by (simp add: tx_ok_def)
  have out: "snd e \<noteq> u" if "e \<in># pq_mset q'" for e
  proof
    assume "snd e = u"
    with that have "u \<in># image_mset snd (pq_mset q')" by auto
    then have nz: "count (image_mset snd (pq_mset q')) u \<noteq> 0" unfolding count_eq_zero_iff by simp
    have "image_mset snd (pq_mset ?q) = add_mset u (image_mset snd (pq_mset q'))"
      using q'(3,5) by (metis image_mset_add_mset insert_DiffM snd_conv)
    with one have "count (image_mset snd (pq_mset q')) u = 0" by (metis count_add_mset One_nat_def Suc_le_mono le_zero_eq)
    with nz show False by (rule notE)
  qed
  have sub: "e \<in># pq_mset ?q" if "e \<in># pq_mset q'" for e using that q'(5) by (metis in_diffD)
  have other: "le_nat (snd e) \<noteq> a" if e: "e \<in># pq_mset q'" for e
    using tx_ok_mem[OF c sub[OF e]] out[OF e] a(2) by auto
  have "image_mset (tx_chunk ?c) (pq_mset q') = image_mset (tx_chunk c) (pq_mset q')"
    by (rule image_mset_cong) (simp add: tx_chunk_def other)
  moreover have tc: "tx_chunk c (p, u) = (p, ch)" by (simp add: tx_chunk_def a(3,4))
  ultimately have pend: "tx_pending ?c = tx_pending c - {#(p, ch)#}"
    using q'(3,5) by (simp add: tx_pending_def image_mset_Diff tc)
  have "\<exists>b < uc_brk c. snd e = ptr_bytes b \<and> (\<exists>h. uc_heap ?c b = Some h \<and> sendable ?c h)" if e: "e \<in># pq_mset q'" for e
  proof -
    obtain b h where b: "b < uc_brk c" "snd e = ptr_bytes b" "le_nat (snd e) = b" "uc_heap c b = Some h" "sendable c h"
      using tx_ok_mem[OF c sub[OF e]] by blast
    then show ?thesis using other[OF e] by (intro exI[of _ b]) simp
  qed
  moreover have "count (image_mset snd (pq_mset q')) v \<le> 1" for v
  proof -
    have "count (image_mset snd (pq_mset q')) v \<le> count (image_mset snd (pq_mset ?q)) v"
      unfolding q'(5) by (intro mset_subset_eq_count image_mset_subseteq_mono) simp
    then show ?thesis using c unfolding tx_ok_def by (meson order_trans)
  qed
  ultimately have ok: "tx_ok ?c" using q'(2,7,8,9) q(4) c unfolding tx_ok_def by simp
  have mem: "(p, ch) \<in># tx_pending c" unfolding tx_pending_def using imageI[OF q'(3), of "tx_chunk c"] tc by simp
  have least: "\<forall>e \<in># tx_pending c. p \<le> fst e"
    using q'(4) q(3) by (auto simp: tx_pending_def tx_chunk_def cmp_gt_def not_less)
  show ?thesis using run ok mem least pend tid q'(6)
    by (intro exI[of _ ?c]; intro exI[of _ p]; intro exI[of _ ch]) simp
qed

text \<open>A session: chunks are inserted with their priorities, then \<open>n\<close> turns of the main loop send.\<close>

fun tx_insert_all :: "allocator \<Rightarrow> uartcmder \<Rightarrow> (int \<times> awoke_buffchunk) list \<Rightarrow> uartcmder option" where
  "tx_insert_all alloc c [] = Some c"
| "tx_insert_all alloc c (x # xs) = do { (_, c) \<leftarrow> tx_insert alloc c (snd x) (fst x); tx_insert_all alloc c xs }"

primrec tx_send_n :: "allocator \<Rightarrow> nat \<Rightarrow> uartcmder \<Rightarrow> uartcmder option" where
  "tx_send_n alloc 0 c = Some c"
| "tx_send_n alloc (Suc n) c = do { (_, c) \<leftarrow> cmder_command_send alloc True c; tx_send_n alloc n c }"

lemma tx_insert_all_ok:
  assumes "tx_ok c" "pq_nr (uc_txqueue c) + int (length xs) \<le> pq_cap (uc_txqueue c)" "alloc 8"
    and "uc_brk c + length xs \<le> 2 ^ 64" "\<forall>x \<in> set xs. sendable c (snd x)"
  shows "\<exists>c'. tx_insert_all alloc c xs = Some c' \<and> tx_ok c' \<and> tx_pending c' = tx_pending c + mset xs \<and>
    uc_sent c' = uc_sent c \<and> uc_tcvrs c' = uc_tcvrs c \<and> pq_nr (uc_txqueue c') = pq_nr (uc_txqueue c) + int (length xs)"
  using assms
proof (induction xs arbitrary: c)
  case (Cons x xs)
  obtain c1 where c1: "tx_insert alloc c (snd x) (fst x) = Some (et_ok, c1)" "tx_ok c1"
      "tx_pending c1 = add_mset x (tx_pending c)" "uc_tcvrs c1 = uc_tcvrs c" "uc_sent c1 = uc_sent c" "uc_brk c1 = uc_brk c + 1"
      "pq_nr (uc_txqueue c1) = pq_nr (uc_txqueue c) + 1" "pq_cap (uc_txqueue c1) = pq_cap (uc_txqueue c)"
    using tx_insert_ok[of c alloc "snd x" "fst x"] Cons.prems by auto
  have s: "sendable c1 = sendable c" by (simp add: fun_eq_iff sendable_def cmder_find_tcvr_byid_def c1(4))
  obtain c2 where "tx_insert_all alloc c1 xs = Some c2" "tx_ok c2" "tx_pending c2 = tx_pending c1 + mset xs"
      "uc_sent c2 = uc_sent c1" "uc_tcvrs c2 = uc_tcvrs c1" "pq_nr (uc_txqueue c2) = pq_nr (uc_txqueue c1) + int (length xs)"
    using Cons.IH[OF c1(2)] Cons.prems c1(6,7,8) s by auto
  then show ?case using c1 by simp
qed simp

lemma tx_send_n_ok:
  assumes "tx_ok c" "pq_nr (uc_txqueue c) = int n" "alloc 8"
  shows "\<exists>c' es. tx_send_n alloc n c = Some c' \<and> mset es = tx_pending c \<and> sorted (map fst es) \<and>
    uc_sent c' = uc_sent c @ map (\<lambda>(p, ch). (ucast (bc_id ch), bc_data ch)) es \<and> awoke_minpq_empty (uc_txqueue c')"
  using assms
proof (induction n arbitrary: c)
  case 0
  have "tx_pending c = {#}" using 0(2) by (simp add: tx_pending_def pq_mset_def heap_mset_def)
  then show ?case using 0 by (intro exI[of _ c] exI[of _ "[]"]) (simp add: awoke_minpq_empty_def)
next
  case (Suc n)
  obtain c1 p ch where c1: "cmder_command_send alloc True c = Some (et_ok, c1)" "tx_ok c1" "(p, ch) \<in># tx_pending c"
      "\<forall>e \<in># tx_pending c. p \<le> fst e" "tx_pending c1 = tx_pending c - {#(p, ch)#}"
      "uc_sent c1 = uc_sent c @ [(ucast (bc_id ch), bc_data ch)]" "pq_nr (uc_txqueue c1) = pq_nr (uc_txqueue c) - 1"
    using command_send_ok[of c alloc] Suc.prems by auto
  obtain c' es where c': "tx_send_n alloc n c1 = Some c'" "mset es = tx_pending c1" "sorted (map fst es)"
      "uc_sent c' = uc_sent c1 @ map (\<lambda>(p, ch). (ucast (bc_id ch), bc_data ch)) es" "awoke_minpq_empty (uc_txqueue c')"
    using Suc.IH[OF c1(2)] c1(7) Suc.prems(2,3) by auto
  have "\<forall>e \<in> set es. p \<le> fst e" using c1(4,5) c'(2) by (metis in_diffD set_mset_mset)
  then have "sorted (map fst ((p, ch) # es))" using c'(3) by simp
  moreover have "mset ((p, ch) # es) = tx_pending c" using c'(2) c1(3,5) by simp
  ultimately show ?case using c1(1,6) c' by (intro exI[of _ c'] exI[of _ "(p, ch) # es"]) simp
qed

section \<open>Works\<close>

lemma work_cmp_order: "cmp_order work_ms_comparator"
  by (auto simp: cmp_order_def work_ms_comparator_def)

lemma work_node_fields [simp]: "a < 2 ^ 64 \<Longrightarrow> work_handle (work_node a ms) = a" "work_ms (work_node a ms) = ms"
  "length (work_node a ms) = 32"
  using unat_u32_less[of ms] by (simp_all add: work_handle_def work_ms_def work_node_def le_nat_bytes)

text \<open>What \<open>delmin\<close> takes out is what \<open>get\<close> shows at the first position.\<close>

lemma delmin_get: "awoke_minpq_delmin alloc q = Some (e, Some (u, p), q') \<Longrightarrow> awoke_minpq_get q 1 = Some (et_ok, Some (u, p))"
  by (auto simp: awoke_minpq_delmin_def minpq_remove_def awoke_minpq_get_def Let_def split: if_splits bind_splits prod.splits)

definition wq_ok :: "uartcmder \<Rightarrow> bool" where
  "wq_ok c \<longleftrightarrow> pq_inv (uc_workqueue c) \<and> comparator (uc_workqueue c) = Some work_ms_comparator \<and>
     pq_nodesize (uc_workqueue c) = 32 \<and> \<not> mask_exst (pq_flags (uc_workqueue c)) AWOKE_MINPQ_F_RES"

lemma wq_delmin:
  assumes "wq_ok c" "\<not> awoke_minpq_empty (uc_workqueue c)" "alloc 32"
  shows "\<exists>w p q'. awoke_minpq_delmin alloc (uc_workqueue c) = Some (et_ok, Some (w, p), q') \<and>
    awoke_minpq_get (uc_workqueue c) 1 = Some (et_ok, Some (w, p)) \<and> (p, w) \<in># pq_mset (uc_workqueue c) \<and>
    (\<forall>e \<in># pq_mset (uc_workqueue c). work_ms w \<le> work_ms (snd e)) \<and> pq_mset q' = pq_mset (uc_workqueue c) - {#(p, w)#} \<and>
    wq_ok (c\<lparr>uc_workqueue := q'\<rparr>)"
proof -
  let ?q = "uc_workqueue c"
  have q: "pq_inv ?q" "comparator ?q = Some work_ms_comparator" "pq_nodesize ?q = 32" "\<not> mask_exst (pq_flags ?q) AWOKE_MINPQ_F_RES"
    using assms(1) by (simp_all add: wq_ok_def)
  have "0 < pq_nr ?q" using assms(2) q(1) by (simp add: awoke_minpq_empty_def pq_inv_def pq_mem_ok_def)
  then obtain w p q' where d: "awoke_minpq_delmin alloc ?q = Some (et_ok, Some (w, p), q')" "pq_inv q'" "(p, w) \<in># pq_mset ?q"
      "\<forall>e \<in># pq_mset ?q. \<not> pq_gt ?q (p, w) e" "pq_mset q' = pq_mset ?q - {#(p, w)#}"
      "pq_nodesize q' = 32" "pq_flags q' = pq_flags ?q" "comparator q' = comparator ?q"
    using awoke_minpq_delmin_ok[of ?q alloc] q assms(3) by auto
  have "\<forall>e \<in># pq_mset ?q. work_ms w \<le> work_ms (snd e)"
    using d(4) by (simp add: cmp_gt_def q(2) work_ms_comparator_def not_less)
  then show ?thesis using d delmin_get[OF d(1)] q
    by (intro exI[of _ w]; intro exI[of _ p]; intro exI[of _ q']) (simp add: wq_ok_def)
qed

section \<open>Properties\<close>

text \<open>C33: what is queued is sent. When up to sixteen chunks are put into the fresh send queue, each for a transceiver
  that is registered, as many turns of the main loop whose \<open>tx\<close> reports success hand the bytes of every chunk to its transceiver exactly once,
  in ascending order of priority, and leave the queue empty.\<close>

theorem cmder_tx_delivers:
  assumes "awoke_minpq_create (\<lambda>_. True) 8 16 None 0 = Some (Some (uc_txqueue c))" "length xs \<le> 16" "uc_brk c + length xs \<le> 2 ^ 64"
    and "\<forall>x \<in> set xs. sendable c (snd x)"
  shows "\<exists>c1 c2 es. tx_insert_all (\<lambda>_. True) c xs = Some c1 \<and> tx_send_n (\<lambda>_. True) (length xs) c1 = Some c2 \<and>
    mset es = mset xs \<and> sorted (map fst es) \<and>
    uc_sent c2 = uc_sent c @ map (\<lambda>(p, ch). (ucast (bc_id ch), bc_data ch)) es \<and> awoke_minpq_empty (uc_txqueue c2)"
proof -
  have q: "pq_inv (uc_txqueue c)" "pq_mset (uc_txqueue c) = {#}" "pq_cap (uc_txqueue c) = 16" "pq_nodesize (uc_txqueue c) = 8"
      "comparator (uc_txqueue c) = None"
    using awoke_minpq_create_ok[of 8 16 "\<lambda>_. True" None 0] assms(1) by auto
  have "uc_txqueue c = the (the (awoke_minpq_create (\<lambda>_. True) 8 16 None 0))" unfolding assms(1) by simp
  then have fl: "\<not> mask_exst (pq_flags (uc_txqueue c)) AWOKE_MINPQ_F_RES" and nr: "pq_nr (uc_txqueue c) = 0"
    by (simp_all add: awoke_minpq_create_def minpq_allocnr_def Let_def mask_push_def mask_exst_def)
  have ok: "tx_ok c" using q fl assms(3) by (simp add: tx_ok_def)
  obtain c1 where c1: "tx_insert_all (\<lambda>_. True) c xs = Some c1" "tx_ok c1" "tx_pending c1 = tx_pending c + mset xs"
      "uc_sent c1 = uc_sent c" "pq_nr (uc_txqueue c1) = int (length xs)"
    using tx_insert_all_ok[OF ok, of xs "\<lambda>_. True"] nr q(3) assms(2-4) by auto
  have "tx_pending c1 = mset xs" using c1(3) q(2) by (simp add: tx_pending_def)
  with tx_send_n_ok[OF c1(2,5), of "\<lambda>_. True"] c1(1,4) show ?thesis by auto
qed

definition idle_cmder :: uartcmder where
  "idle_cmder = \<lparr>uc_tcvrs = [\<lparr>tc_id = 0, tc_fd = 3, tc_connfd = 4, tc_port = ''localhost'', tc_rxbuffer = None\<rparr>], uc_nr_tcvrs = 1,
     uc_nuc_checksum = 0, uc_nucaddr = 0,
     uc_txqueue = \<lparr>pq_nr = 0, pq_cap = 16, pq_nodesize = 8, pq_p = replicate 17 0, pq_q = zeros 136, pq_flags = 0, comparator = None\<rparr>,
     uc_workqueue = \<lparr>pq_nr = 0, pq_cap = 8, pq_nodesize = 32, pq_p = replicate 9 0, pq_q = zeros 288, pq_flags = 1,
       comparator = Some work_ms_comparator\<rparr>,
     uc_regaddr = 0, uc_regvalue = 0,
     uc_config = \<lparr>goal_min = 0, goal_max = 0, expo = 0, expo_min = 0, expo_max = 0, gain = 0, gain_min = 0, gain_max = 0, fps = 0,
       fps_min = 0, fps_max = 0, hinvs = 0, vinvs = 0, ae_frame = 0, tec_target = 0, tec_target_min = 0, tec_target_max = 0,
       iff_th = 0, iff_div = 0, ae_enable = 0, ae_expo_enable = 0, ae_gain_enable = 0, crossview_enable = 0, tec_enable = 0,
       cltest_enable = 0, frtest_enable = 0, dpc_enable = 0, psnu_enable = 0, iff_enable = 0, gamm_en = 0, cross_x = 0, cross_y = 0,
       iffparam = 0, LQ_single_test = 0\<rparr>,
     uc_temp_cap_en = 0, uc_roi0 = \<lparr>roi_x = 0, roi_y = 0, roi_w = 0, roi_h = 0, roi_enable = 0\<rparr>, uc_lq_stream = None,
     uc_heap = (\<lambda>_. None), uc_brk = 0, uc_ids = 0, uc_sent = []\<rparr>"

definition tx_example :: "u8 \<Rightarrow> awoke_buffchunk" where
  "tx_example x = \<lparr>bc_id = 0, bc_p = Some [x, 0], bc_size = 2, bc_length = 1\<rparr>"

lemma idle_tx_queue: "awoke_minpq_create (\<lambda>_. True) 8 16 None 0 = Some (Some (uc_txqueue idle_cmder))"
  by (simp add: idle_cmder_def awoke_minpq_create_def minpq_allocnr_def mask_push_def)

lemma idle_sendable: "sendable idle_cmder (tx_example x)"
  by (simp add: idle_cmder_def tx_example_def sendable_def cmder_find_tcvr_byid_def bc_block_def)

theorem cmder_tx_delivers_witness:
  "\<exists>c1 c2 es. tx_insert_all (\<lambda>_. True) idle_cmder [(2, tx_example 7), (1, tx_example 8)] = Some c1 \<and>
     tx_send_n (\<lambda>_. True) 2 c1 = Some c2 \<and> mset es = {#(2 :: int, tx_example 7), (1, tx_example 8)#} \<and> sorted (map fst es) \<and>
     uc_sent c2 = map (\<lambda>(p, ch). (ucast (bc_id ch), bc_data ch)) es"
proof -
  let ?xs = "[(2 :: int, tx_example 7), (1, tx_example 8)]"
  have "length ?xs \<le> 16" "uc_brk idle_cmder + length ?xs \<le> 2 ^ 64" "\<forall>x \<in> set ?xs. sendable idle_cmder (snd x)"
    using idle_sendable by (simp_all add: idle_cmder_def)
  then obtain c1 c2 es where h: "tx_insert_all (\<lambda>_. True) idle_cmder ?xs = Some c1" "tx_send_n (\<lambda>_. True) (length ?xs) c1 = Some c2"
      "mset es = mset ?xs" "sorted (map fst es)" "uc_sent c2 = uc_sent idle_cmder @ map (\<lambda>(p, ch). (ucast (bc_id ch), bc_data ch)) es"
    using cmder_tx_delivers[OF idle_tx_queue] by blast
  have n: "length ?xs = 2" "uc_sent idle_cmder = []" by (simp_all add: idle_cmder_def)
  show ?thesis
    by (rule exI[of _ c1], rule exI[of _ c2], rule exI[of _ es])
      (use h(1,3,4) h(2)[unfolded n] h(5)[unfolded n] in \<open>simp del: tx_insert_all.simps\<close>)
qed

text \<open>C34: the works run in the order of their times. A call of \<open>cmder_workqueue_service\<close> looks at a work that is due no
  later than any other one: when its time has not come, the call returns the milliseconds that are left and changes
  nothing, otherwise it takes exactly that work out of the queue and runs its handler.\<close>

theorem cmder_work_service_correct:
  assumes "wq_ok c" "\<not> awoke_minpq_empty (uc_workqueue c)" "alloc 32"
  shows "\<exists>p w q'. (p, w) \<in># pq_mset (uc_workqueue c) \<and> (\<forall>e \<in># pq_mset (uc_workqueue c). work_ms w \<le> work_ms (snd e)) \<and>
    pq_mset q' = pq_mset (uc_workqueue c) - {#(p, w)#} \<and> wq_ok (c\<lparr>uc_workqueue := q'\<rparr>) \<and>
    cmder_workqueue_service alloc tv run c =
      (if now_ms tv < work_ms w then Some (work_ms w - now_ms tv, c)
       else map_option (Pair 0) (run (work_handle w) (c\<lparr>uc_workqueue := q'\<rparr>)))"
proof -
  obtain w p q' where d: "awoke_minpq_delmin alloc (uc_workqueue c) = Some (et_ok, Some (w, p), q')"
      "awoke_minpq_get (uc_workqueue c) 1 = Some (et_ok, Some (w, p))" "(p, w) \<in># pq_mset (uc_workqueue c)"
      "\<forall>e \<in># pq_mset (uc_workqueue c). work_ms w \<le> work_ms (snd e)"
      "pq_mset q' = pq_mset (uc_workqueue c) - {#(p, w)#}" "wq_ok (c\<lparr>uc_workqueue := q'\<rparr>)"
    using wq_delmin[of c alloc] assms by blast
  have "cmder_workqueue_service alloc tv run c =
      (if now_ms tv < work_ms w then Some (work_ms w - now_ms tv, c)
       else map_option (Pair 0) (run (work_handle w) (c\<lparr>uc_workqueue := q'\<rparr>)))"
    using assms(2) by (cases "run (work_handle w) (c\<lparr>uc_workqueue := q'\<rparr>)")
      (simp_all add: cmder_workqueue_service_def d(1,2))
  then show ?thesis using d(3-6) by (intro exI[of _ p]; intro exI[of _ w]; intro exI[of _ q']) simp
qed

definition busy_cmder :: uartcmder where
  "busy_cmder = idle_cmder\<lparr>uc_workqueue := (uc_workqueue idle_cmder)\<lparr>pq_nr := 1, pq_q := zeros 32 @ work_node 5 100 @ zeros 224\<rparr>\<rparr>"

lemma busy_cmder_ok: "wq_ok busy_cmder" "\<not> awoke_minpq_empty (uc_workqueue busy_cmder)"
  by (simp_all add: wq_ok_def busy_cmder_def idle_cmder_def pq_inv_def pq_mem_ok_def pq_ordered_def work_cmp_order heap_ok_upto upt_rec
      awoke_minpq_empty_def mask_exst_def AWOKE_MINPQ_F_RES_def)

theorem cmder_work_service_correct_witness:
  "\<exists>p w q'. (p, w) \<in># pq_mset (uc_workqueue busy_cmder) \<and>
    cmder_workqueue_service (\<lambda>_. True) (0, 150000) (\<lambda>h c. Some c) busy_cmder =
      (if now_ms (0, 150000) < work_ms w then Some (work_ms w - now_ms (0, 150000), busy_cmder)
       else Some (0, busy_cmder\<lparr>uc_workqueue := q'\<rparr>))"
proof -
  obtain p w q' where "(p, w) \<in># pq_mset (uc_workqueue busy_cmder)"
      "cmder_workqueue_service (\<lambda>_. True) (0, 150000) (\<lambda>h c. Some c) busy_cmder =
      (if now_ms (0, 150000) < work_ms w then Some (work_ms w - now_ms (0, 150000), busy_cmder)
       else map_option (Pair 0) (Some (busy_cmder\<lparr>uc_workqueue := q'\<rparr>)))"
    using cmder_work_service_correct[OF busy_cmder_ok, of "\<lambda>_. True" "(0, 150000)" "\<lambda>h c. Some c"] by blast
  then show ?thesis by (intro exI[of _ p]; intro exI[of _ w]; intro exI[of _ q']) (simp only: option.map simp_thms)
qed

end
