(* ===== verification/Proto_Xfer.thy ===== *)
theory Proto_Xfer
  imports Cmder_Context
begin

text \<open>
  The register protocol, \<open>application/cmder/proto-xfer.c\<close>: packets with a header of eight bytes, the data of a write,
  a code and the byte \<open>0xFF\<close>. Only the space of the micro-controller is served; for every other space, and for the
  boot addresses, the code answers with a variable that was never set, which is undefined. The handlers of the
  addresses work on the state of the commander; those that only log a value still read it from the packet.
\<close>

section \<open>Packets\<close>

definition XFER_PREFIX :: u8 where "XFER_PREFIX = 0xAA"
definition XFER_POSFIX :: u8 where "XFER_POSFIX = 0xFF"
definition XFER_CMD_RD :: u8 where "XFER_CMD_RD = 1"
definition XFER_CMD_WR :: u8 where "XFER_CMD_WR = 2"
definition XFER_SPACE_MCU :: u8 where "XFER_SPACE_MCU = 0"

definition XFER_MCU_PARAMS_BASE :: u32 where "XFER_MCU_PARAMS_BASE = 0x00001000"
definition XFER_MCU_ALGORITHM_BASE :: u32 where "XFER_MCU_ALGORITHM_BASE = 0x00020000"

text \<open>The structure \<open>xfer_head\<close> and its layout: the three fields of the second byte share it from the low bits on.\<close>

record xfer_head =
  xh_mark :: u8
  xh_cmd :: u8
  xh_seq :: u8
  xh_space :: u8
  xh_len :: u16
  xh_addr :: u32

definition sizeof_xfer_head :: int where "sizeof_xfer_head = 8"
definition sizeof_xfer_tail :: int where "sizeof_xfer_tail = 2"

definition xfer_head_bytes :: "xfer_head \<Rightarrow> bytes" where
  "xfer_head_bytes h = u8_bytes (xh_mark h) @ u8_bytes (xh_cmd h OR push_bit 2 (xh_seq h) OR push_bit 4 (xh_space h)) @
     u16_bytes (xh_len h) @ u32_bytes (xh_addr h)"

definition xfer_head_at :: "bytes \<Rightarrow> xfer_head option" where
  "xfer_head_at m = do {
     (mark, _) \<leftarrow> pkg_pull_byte m 0;
     (b, _) \<leftarrow> pkg_pull_byte m 1;
     (len, _) \<leftarrow> pkg_pull_word m 2;
     (addr, _) \<leftarrow> pkg_pull_dwrd m 4;
     Some \<lparr>xh_mark = mark, xh_cmd = b AND 3, xh_seq = drop_bit 2 b AND 3, xh_space = drop_bit 4 b, xh_len = len, xh_addr = addr\<rparr> }"

definition xfer_match :: "bytes \<Rightarrow> int \<Rightarrow> int \<Rightarrow> (err_type \<times> int) option" where
  "xfer_match m len rlen =
     (if int (size_t len) < sizeof_xfer_head + sizeof_xfer_tail then Some (err_unfinished, rlen)
      else do {
        head \<leftarrow> xfer_head_at m;
        if xh_mark head \<noteq> XFER_PREFIX then Some (err_match, 1)
        else do {
          let n = sizeof_xfer_head + sizeof_xfer_tail + (if xh_cmd head = XFER_CMD_WR then uint (xh_len head) else 0);
          if len < n then Some (err_unfinished, rlen)
          else do {
            last \<leftarrow> arr_get m (n - 1);
            if last \<noteq> XFER_POSFIX then Some (err_match, 1) else Some (et_ok, n) } } })"

text \<open>The search starts where the variable of the caller says.\<close>

primrec byte_scan :: "bytes \<Rightarrow> int \<Rightarrow> nat \<Rightarrow> int option option" where
  "byte_scan m i 0 = Some None"
| "byte_scan m i (Suc n) = do {
     b \<leftarrow> arr_get m i;
     if b = XFER_PREFIX then Some (Some i) else byte_scan m (i + 1) n }"

definition xfer_scan :: "bytes \<Rightarrow> int \<Rightarrow> int \<Rightarrow> (err_type \<times> int) option" where
  "xfer_scan m len rlen = do {
     found \<leftarrow> byte_scan m rlen (nat (len - rlen));
     case found of Some i \<Rightarrow> Some (et_ok, i) | None \<Rightarrow> Some (err_match, len) }"

section \<open>Responses\<close>

text \<open>The header of the answer: that of the request, without a length when no data follows.\<close>

definition rsp_head :: "xfer_head \<Rightarrow> u8 \<Rightarrow> xfer_head" where
  "rsp_head head code = (if xh_cmd head \<noteq> XFER_CMD_RD \<or> code \<noteq> 0 then head\<lparr>xh_len := 0\<rparr> else head)"

definition xfer_pack_header :: "awoke_buffchunk \<Rightarrow> xfer_head \<Rightarrow> u8 \<Rightarrow> (err_type \<times> awoke_buffchunk) option" where
  "xfer_pack_header rsp head code = do {
     m \<leftarrow> mem_write (bc_block rsp) 0 (xfer_head_bytes (rsp_head head code));
     (m, _) \<leftarrow> pkg_push_all m (sizeof_xfer_head + bc_length rsp) [u8_bytes code, u8_bytes XFER_POSFIX];
     Some (et_ok, rsp\<lparr>bc_p := map_option (\<lambda>_. m) (bc_p rsp), bc_length := bc_length rsp + sizeof_xfer_head + sizeof_xfer_tail\<rparr>) }"

definition xfer_pack_data :: "awoke_buffchunk \<Rightarrow> xfer_head \<Rightarrow> bytes \<Rightarrow> int \<Rightarrow> u8 \<Rightarrow> (err_type \<times> awoke_buffchunk) option" where
  "xfer_pack_data rsp head buf len pad =
     (if xh_cmd head = XFER_CMD_RD then do {
        let hl = uint (xh_len head);
        let datalen = (if hl \<le> len then hl else len);
        let padding = (if hl > len then hl - len else 0);
        x \<leftarrow> mem_read buf 0 (size_t datalen);
        (m, pos) \<leftarrow> pkg_push_all (bc_block rsp) sizeof_xfer_head [x, replicate (nat padding) pad];
        Some (et_ok, rsp\<lparr>bc_p := map_option (\<lambda>_. m) (bc_p rsp), bc_length := pos - sizeof_xfer_head\<rparr>) }
      else Some (et_ok, rsp\<lparr>bc_length := 0\<rparr>))"

section \<open>The addresses of the micro-controller\<close>

type_synonym xfer_set_fn = "uartcmder \<Rightarrow> bytes \<Rightarrow> int \<Rightarrow> (err_type \<times> uartcmder) option"
type_synonym xfer_get_fn = "uartcmder \<Rightarrow> xfer_head \<Rightarrow> awoke_buffchunk \<Rightarrow> (err_type \<times> uartcmder \<times> awoke_buffchunk) option"

text \<open>The setters get the data behind the header. Those that only log pull a value of four bytes.\<close>

definition logged_set :: xfer_set_fn where
  "logged_set ctx inp len = do { (_, _) \<leftarrow> pkg_pull_dwrd inp 0; Some (et_ok, ctx) }"

definition value_get :: "u32 \<Rightarrow> xfer_get_fn" where
  "value_get data ctx head rsp = do {
     (ret, rsp) \<leftarrow> xfer_pack_data rsp head (u32_bytes data) (uint (xh_len head)) 0;
     Some (ret, ctx, rsp) }"

definition xfer_bitwidth_get :: xfer_get_fn where "xfer_bitwidth_get = value_get 10"
definition xfer_fps_set :: xfer_set_fn where "xfer_fps_set = logged_set"
definition xfer_fps_get :: xfer_get_fn where "xfer_fps_get = value_get 100"
definition xfer_fpsmin_set :: xfer_set_fn where "xfer_fpsmin_set = logged_set"
definition xfer_fpsmin_get :: xfer_get_fn where "xfer_fpsmin_get = value_get 1"
definition xfer_fpsmax_set :: xfer_set_fn where "xfer_fpsmax_set = logged_set"
definition xfer_fpsmax_get :: xfer_get_fn where "xfer_fpsmax_get = value_get 1"
definition xfer_trigger_set :: xfer_set_fn where "xfer_trigger_set = logged_set"
definition xfer_trigger_get :: xfer_get_fn where "xfer_trigger_get = value_get 0"
definition xfer_invs_en_set :: xfer_set_fn where "xfer_invs_en_set = logged_set"
definition xfer_invs_en_get :: xfer_get_fn where "xfer_invs_en_get = value_get 0"
definition xfer_config_save :: xfer_set_fn where "xfer_config_save ctx inp len = Some (et_ok, ctx)"
definition xfer_config_restore :: xfer_set_fn where "xfer_config_restore ctx inp len = Some (et_ok, ctx)"

definition xfer_lqit_set :: xfer_set_fn where
  "xfer_lqit_set ctx inp len = do {
     (data, _) \<leftarrow> pkg_pull_dwrd inp 0;
     Some (et_ok, ctx\<lparr>uc_config := (uc_config ctx)\<lparr>LQ_single_test := data\<rparr>\<rparr>) }"

definition xfer_lqit_get :: xfer_get_fn where
  "xfer_lqit_get ctx = value_get (LQ_single_test (uc_config ctx)) ctx"

text \<open>The stream register keeps the data of the first write until it is read.\<close>

definition xfer_lqst_set :: "allocator \<Rightarrow> xfer_set_fn" where
  "xfer_lqst_set alloc ctx inp len = (case uc_lq_stream ctx of
      Some _ \<Rightarrow> Some (et_ok, ctx)
    | None \<Rightarrow> (case awoke_buffchunk_create alloc (uc_ids ctx) len of
        (None, _) \<Rightarrow> None
      | (Some chunk, ids) \<Rightarrow> do {
          (_, chunk) \<leftarrow> awoke_buffchunk_write chunk (Some inp) len False;
          Some (et_ok, ctx\<lparr>uc_lq_stream := Some chunk, uc_ids := ids\<rparr>) }))"

definition xfer_lqst_get :: xfer_get_fn where
  "xfer_lqst_get ctx head rsp = (case uc_lq_stream ctx of
      None \<Rightarrow> Some (err_notfind, ctx, rsp)
    | Some chunk \<Rightarrow> do {
        (_, rsp) \<leftarrow> xfer_pack_data rsp head (bc_block chunk) (uint (xh_len head)) 0;
        Some (et_ok, ctx\<lparr>uc_lq_stream := None\<rparr>, rsp) })"

record xfer_mcu_req =
  mr_address :: u32
  mr_set :: "xfer_set_fn option"
  mr_get :: "xfer_get_fn option"

definition xfer_mcu_reqtab :: "allocator \<Rightarrow> xfer_mcu_req list" where
  "xfer_mcu_reqtab alloc =
    [\<lparr>mr_address = 0x00001000, mr_set = None, mr_get = Some xfer_bitwidth_get\<rparr>,
     \<lparr>mr_address = 0x00001010, mr_set = Some xfer_fps_set, mr_get = Some xfer_fps_get\<rparr>,
     \<lparr>mr_address = 0x00001014, mr_set = Some xfer_fpsmin_set, mr_get = Some xfer_fpsmin_get\<rparr>,
     \<lparr>mr_address = 0x00001018, mr_set = Some xfer_fpsmax_set, mr_get = Some xfer_fpsmax_get\<rparr>,
     \<lparr>mr_address = 0x00001030, mr_set = Some xfer_trigger_set, mr_get = Some xfer_trigger_get\<rparr>,
     \<lparr>mr_address = 0x00001040, mr_set = Some xfer_invs_en_set, mr_get = Some xfer_invs_en_get\<rparr>,
     \<lparr>mr_address = 0x00002000, mr_set = Some xfer_config_save, mr_get = None\<rparr>,
     \<lparr>mr_address = 0x00002004, mr_set = Some xfer_config_restore, mr_get = None\<rparr>,
     \<lparr>mr_address = 0x02000000, mr_set = Some xfer_lqit_set, mr_get = Some xfer_lqit_get\<rparr>,
     \<lparr>mr_address = 0x02000020, mr_set = Some (xfer_lqst_set alloc), mr_get = Some xfer_lqst_get\<rparr>]"

text \<open>A handler that is not in the table is a null pointer.\<close>

definition xfer_mcu_params_process ::
  "allocator \<Rightarrow> uartcmder \<Rightarrow> xfer_head \<Rightarrow> bytes \<Rightarrow> awoke_buffchunk \<Rightarrow> (err_type \<times> uartcmder \<times> awoke_buffchunk) option" where
  "xfer_mcu_params_process alloc ctx head rpos rsp = (case List.find (\<lambda>p. mr_address p = xh_addr head) (xfer_mcu_reqtab alloc) of
      None \<Rightarrow> Some (err_notfind, ctx, rsp)
    | Some p \<Rightarrow>
        (if xh_cmd head = XFER_CMD_WR then do {
           set_fn \<leftarrow> mr_set p;
           (ret, ctx) \<leftarrow> set_fn ctx rpos (uint (xh_len head));
           Some (ret, ctx, rsp) }
         else if xh_cmd head = XFER_CMD_RD then do { get_fn \<leftarrow> mr_get p; get_fn ctx head rsp }
         else Some (err_notsupport, ctx, rsp)))"

datatype xfer_addr_range = XFER_ADDR_RANGE_BOOTINFO | XFER_ADDR_RANGE_PARAMS | XFER_ADDR_RANGE_ALGORITHM

definition xfer_mcu_range :: "u32 \<Rightarrow> xfer_addr_range" where
  "xfer_mcu_range addr =
     (if addr \<ge> XFER_MCU_ALGORITHM_BASE then XFER_ADDR_RANGE_ALGORITHM
      else if addr \<ge> XFER_MCU_PARAMS_BASE then XFER_ADDR_RANGE_PARAMS
      else XFER_ADDR_RANGE_BOOTINFO)"

text \<open>The boot range leaves the result unset; the label of the algorithm range is one the switch never takes, and its
  addresses go through the default.\<close>

definition xfer_mcu_process ::
  "allocator \<Rightarrow> uartcmder \<Rightarrow> xfer_head \<Rightarrow> bytes \<Rightarrow> awoke_buffchunk \<Rightarrow> (err_type \<times> uartcmder \<times> awoke_buffchunk) option" where
  "xfer_mcu_process alloc ctx head rpos rsp = (case xfer_mcu_range (xh_addr head) of
      XFER_ADDR_RANGE_BOOTINFO \<Rightarrow> None
    | _ \<Rightarrow> xfer_mcu_params_process alloc ctx head rpos rsp)"

section \<open>Reading a packet\<close>

text \<open>The private data of the protocol, its response buffer, is there once the protocol is initialised.\<close>

record xfer_state =
  xs_response :: "awoke_buffchunk option"
  xs_ctx :: uartcmder

definition xfer_init :: "allocator \<Rightarrow> xfer_state \<Rightarrow> (awoke_buffchunk \<times> xfer_state) option" where
  "xfer_init alloc st = (case xs_response st of
      Some rsp \<Rightarrow> Some (rsp, st)
    | None \<Rightarrow> (if \<not> alloc 8 then None else
        case awoke_buffchunk_create alloc (uc_ids (xs_ctx st)) 512 of
          (None, _) \<Rightarrow> None
        | (Some rsp, ids) \<Rightarrow> Some (rsp, st\<lparr>xs_response := Some rsp, xs_ctx := (xs_ctx st)\<lparr>uc_ids := ids\<rparr>\<rparr>)))"

text \<open>A response larger than the buffer gets a chunk of its own, which is released afterwards.\<close>

definition xfer_rsp_chunk :: "allocator \<Rightarrow> xfer_head \<Rightarrow> awoke_buffchunk \<Rightarrow> xfer_state \<Rightarrow> (bool \<times> awoke_buffchunk \<times> xfer_state) option" where
  "xfer_rsp_chunk alloc head rsp st =
     (if xh_cmd head = XFER_CMD_RD \<and> uint (xh_len head) > bc_size rsp then
        (case awoke_buffchunk_create alloc (uc_ids (xs_ctx st)) (sizeof_xfer_head + sizeof_xfer_tail + uint (xh_len head)) of
           (None, _) \<Rightarrow> None
         | (Some big, ids) \<Rightarrow> Some (True, big, st\<lparr>xs_ctx := (xs_ctx st)\<lparr>uc_ids := ids\<rparr>\<rparr>))
      else Some (False, rsp, st))"

definition xfer_read :: "allocator \<Rightarrow> xfer_state \<Rightarrow> bytes \<Rightarrow> int \<Rightarrow> (err_type \<times> xfer_state) option" where
  "xfer_read alloc st m len = do {
     (rsp, st) \<leftarrow> xfer_init alloc st;
     head \<leftarrow> xfer_head_at m;
     (realloc, rsp, st) \<leftarrow> xfer_rsp_chunk alloc head rsp st;
     (ret, ctx, rsp) \<leftarrow> (if xh_space head = XFER_SPACE_MCU
        then xfer_mcu_process alloc (xs_ctx st) head (drop (nat sizeof_xfer_head) m) rsp else None);
     code \<leftarrow> (if ret \<noteq> et_ok then map_option of_nat (err_value ret) else Some 0);
     (_, rsp) \<leftarrow> xfer_pack_header rsp head code;
     (ctx, rsp) \<leftarrow> (if bc_length rsp \<noteq> 0 then do {
         ctx \<leftarrow> uartcmder_senddata ctx 0 (bc_block rsp) (bc_length rsp);
         rsp \<leftarrow> awoke_buffchunk_clear rsp;
         Some (ctx, rsp) } else Some (ctx, rsp));
     Some (et_ok, st\<lparr>xs_ctx := ctx, xs_response := (if realloc then xs_response st else Some rsp)\<rparr>) }"

definition xfer_protocol :: "allocator \<Rightarrow> xfer_state cmder_protocol" where
  "xfer_protocol alloc = \<lparr>pr_match = xfer_match, pr_scan = xfer_scan, pr_read = xfer_read alloc\<rparr>"

section \<open>The layout\<close>

text \<open>A header whose small fields fit into their bits.\<close>

definition head_fits :: "xfer_head \<Rightarrow> bool" where
  "head_fits h \<longleftrightarrow> take_bit 2 (xh_cmd h) = xh_cmd h \<and> take_bit 2 (xh_seq h) = xh_seq h \<and> take_bit 4 (xh_space h) = xh_space h"

lemma bitfields:
  fixes c s p :: u8
  assumes "take_bit 2 c = c" "take_bit 2 s = s" "take_bit 4 p = p"
  shows "(c OR push_bit 2 s OR push_bit 4 p) AND 3 = c"
    "drop_bit 2 (c OR push_bit 2 s OR push_bit 4 p) AND 3 = s"
    "drop_bit 4 (c OR push_bit 2 s OR push_bit 4 p) = p"
proof -
  have three: "x AND 3 = take_bit 2 x" for x :: u8 by (simp add: take_bit_eq_mask mask_eq_exp_minus_1)
  have c: "bit c n \<Longrightarrow> n < 2" for n by (metis assms(1) bit_take_bit_iff)
  have s: "bit s n \<Longrightarrow> n < 2" for n by (metis assms(2) bit_take_bit_iff)
  have p: "bit p n \<Longrightarrow> n < 4" for n by (metis assms(3) bit_take_bit_iff)
  show "(c OR push_bit 2 s OR push_bit 4 p) AND 3 = c" unfolding three
    by (rule bit_eqI) (auto simp: bit_simps dest: c)
  show "drop_bit 2 (c OR push_bit 2 s OR push_bit 4 p) AND 3 = s" unfolding three
    by (rule bit_eqI) (auto simp: bit_simps dest: c s p)
  show "drop_bit 4 (c OR push_bit 2 s OR push_bit 4 p) = p"
    by (rule bit_eqI) (auto simp: bit_simps dest: c s p)
qed

lemma xfer_head_bytes_length [simp]: "length (xfer_head_bytes h) = 8"
  by (simp add: xfer_head_bytes_def)

lemma xfer_head_round_trip:
  assumes "head_fits h"
  shows "xfer_head_at (xfer_head_bytes h @ y) = Some h"
proof -
  let ?b = "xh_cmd h OR push_bit 2 (xh_seq h) OR push_bit 4 (xh_space h)"
  have pulls: "pkg_pull_byte (xfer_head_bytes h @ y) 0 = Some (xh_mark h, 1)" "pkg_pull_byte (xfer_head_bytes h @ y) 1 = Some (?b, 2)"
      "pkg_pull_word (xfer_head_bytes h @ y) 2 = Some (xh_len h, 4)" "pkg_pull_dwrd (xfer_head_bytes h @ y) 4 = Some (xh_addr h, 8)"
    using pull_byte_append[of 0 "[]" "xh_mark h"] pull_byte_append[of 1 "u8_bytes (xh_mark h)" ?b]
      pull_word_append[of 2 "u8_bytes (xh_mark h) @ u8_bytes ?b" "xh_len h"]
      pull_dwrd_append[of 4 "u8_bytes (xh_mark h) @ u8_bytes ?b @ u16_bytes (xh_len h)" "xh_addr h"]
    by (simp_all add: xfer_head_bytes_def)
  show ?thesis using assms bitfields[of "xh_cmd h" "xh_seq h" "xh_space h"]
    by (simp add: xfer_head_at_def pulls head_fits_def del: bit_simps)
qed

text \<open>A request: the header, the data of a write, the code and the closing byte.\<close>

record xfer_req =
  rq_head :: xfer_head
  rq_data :: bytes
  rq_code :: u8

definition xfer_frame :: "xfer_req \<Rightarrow> bytes" where
  "xfer_frame r = xfer_head_bytes (rq_head r) @ rq_data r @ [rq_code r, XFER_POSFIX]"

definition xfer_wf :: "xfer_req \<Rightarrow> bool" where
  "xfer_wf r \<longleftrightarrow> head_fits (rq_head r) \<and> xh_mark (rq_head r) = XFER_PREFIX \<and>
     length (rq_data r) = (if xh_cmd (rq_head r) = XFER_CMD_WR then unat (xh_len (rq_head r)) else 0)"

lemma xfer_frame_length: "length (xfer_frame r) = length (rq_data r) + 10"
  by (simp add: xfer_frame_def)

lemma xfer_frame_head: "xfer_wf r \<Longrightarrow> xfer_head_at (xfer_frame r @ y) = Some (rq_head r)"
  using xfer_head_round_trip[of "rq_head r" "rq_data r @ [rq_code r, XFER_POSFIX] @ y"] by (simp add: xfer_wf_def xfer_frame_def)

lemma xfer_frame_last: "arr_get (xfer_frame r @ y) (int (length (rq_data r)) + 9) = Some XFER_POSFIX"
proof -
  have n: "nat (int (length (rq_data r)) + 9) = length (xfer_head_bytes (rq_head r) @ rq_data r @ [rq_code r])" by simp
  have "(xfer_frame r @ y) ! length (xfer_head_bytes (rq_head r) @ rq_data r @ [rq_code r]) = XFER_POSFIX"
    unfolding xfer_frame_def by (simp add: nth_append)
  then show ?thesis unfolding arr_get_def n by (simp add: xfer_frame_length)
qed

lemma xfer_match_frame:
  assumes "xfer_wf r" "length (xfer_frame r) \<le> n" "n < 2147483648"
  shows "xfer_match (xfer_frame r @ y) (int n) rlen = Some (et_ok, int (length (xfer_frame r)))"
proof -
  have d: "(if xh_cmd (rq_head r) = XFER_CMD_WR then uint (xh_len (rq_head r)) else 0) = int (length (rq_data r))"
    using assms(1) by (simp add: xfer_wf_def)
  have mk: "xh_mark (rq_head r) = XFER_PREFIX" using assms(1) by (simp add: xfer_wf_def)
  have sz: "size_t (int n) = n" using assms(3) by (simp add: size_t_id)
  have "10 + length (rq_data r) \<le> n" using assms(2) by (simp add: xfer_frame_length)
  then show ?thesis using xfer_frame_last[of r y]
    by (simp add: xfer_match_def sizeof_xfer_head_def sizeof_xfer_tail_def sz xfer_frame_head[OF assms(1)] mk d xfer_frame_length add.commute)
qed

interpretation xfer: framing xfer_match xfer_frame xfer_wf
  by unfold_locales (auto simp: xfer_match_frame, auto simp: xfer_frame_def)

lemma bitfields_join:
  fixes b :: u8
  shows "(b AND 3) OR push_bit 2 (drop_bit 2 b AND 3) OR push_bit 4 (drop_bit 4 b) = b"
    "take_bit 2 (b AND 3) = b AND 3" "take_bit 2 (drop_bit 2 b AND 3) = drop_bit 2 b AND 3" "take_bit 4 (drop_bit 4 b) = drop_bit 4 b"
proof -
  have three: "x AND 3 = take_bit 2 x" for x :: u8 by (simp add: take_bit_eq_mask mask_eq_exp_minus_1)
  show "(b AND 3) OR push_bit 2 (drop_bit 2 b AND 3) OR push_bit 4 (drop_bit 4 b) = b" unfolding three
  proof (rule bit_eqI)
    fix n assume "possible_bit TYPE(u8) n"
    then have "n < 8" by simp
    have e: "\<not> n < 2 \<Longrightarrow> Suc (Suc (n - 2)) = n" by simp
    from \<open>n < 8\<close> show "bit (take_bit 2 b OR push_bit 2 (take_bit 2 (drop_bit 2 b)) OR push_bit 4 (drop_bit 4 b)) n = bit b n"
      by (cases "n < 2"; cases "n < 4") (auto simp: bit_simps e)
  qed
  show "take_bit 2 (b AND 3) = b AND 3" "take_bit 2 (drop_bit 2 b AND 3) = drop_bit 2 b AND 3" unfolding three by simp_all
  show "take_bit 4 (drop_bit 4 b) = drop_bit 4 b"
    by (rule bit_eqI) (auto simp: bit_simps dest: bit_imp_le_length)
qed

text \<open>Any eight bytes are a header.\<close>

lemma xfer_head_of_bytes:
  assumes "8 \<le> length m"
  shows "\<exists>h. xfer_head_at m = Some h \<and> head_fits h \<and> xfer_head_bytes h = take 8 m"
proof -
  have "m \<noteq> []" using assms by auto
  then have at: "pkg_pull_byte m 0 = Some (m ! 0, 1)" "pkg_pull_byte m 1 = Some (m ! 1, 2)"
      "pkg_pull_word m 2 = Some (of_nat (le_nat (take 2 (drop 2 m))), 4)" "pkg_pull_dwrd m 4 = Some (of_nat (le_nat (take 4 (drop 4 m))), 8)"
    using assms pull_byte_at[of 0 m] pull_byte_at[of 1 m] pull_word_at[of 2 m] pull_dwrd_at[of 4 m] by auto
  have bytes: "take 8 m = [m ! 0, m ! 1] @ take 2 (drop 2 m) @ take 4 (drop 4 m)"
  proof -
    have "take 8 m = take 2 m @ take 2 (drop 2 m) @ take 4 (drop 4 m)"
      using take_add[of 2 6 m] take_add[of 2 4 "drop 2 m"] by simp
    moreover have "take 2 m = [m ! 0, m ! 1]" using assms by (cases m; cases "tl m") (auto simp: numeral_2_eq_2)
    ultimately show ?thesis by simp
  qed
  define h where "h = \<lparr>xh_mark = m ! 0, xh_cmd = m ! 1 AND 3, xh_seq = drop_bit 2 (m ! 1) AND 3, xh_space = drop_bit 4 (m ! 1),
    xh_len = of_nat (le_nat (take 2 (drop 2 m))), xh_addr = of_nat (le_nat (take 4 (drop 4 m)))\<rparr>"
  have "xfer_head_at m = Some h" by (simp add: xfer_head_at_def at h_def)
  moreover have "head_fits h" unfolding head_fits_def h_def xfer_head.simps by (intro conjI bitfields_join)
  moreover have "xfer_head_bytes h = take 8 m" unfolding xfer_head_bytes_def h_def xfer_head.simps bitfields_join(1) bytes
    using assms by (simp add: u8_bytes_def u16_bytes_of u32_bytes_of)
  ultimately show ?thesis by blast
qed

text \<open>Acceptance means that there is a request.\<close>

lemma xfer_match_sound:
  assumes "n \<le> length m" "n < 2147483648" "xfer_match m (int n) rlen = Some (et_ok, k)"
  shows "\<exists>r. xfer_wf r \<and> take (nat k) m = xfer_frame r \<and> k = int (length (xfer_frame r)) \<and> length (xfer_frame r) \<le> n"
proof -
  have sz: "size_t (int n) = n" using assms(2) by (simp add: size_t_id)
  have n10: "10 \<le> n" using assms(3) by (auto simp: xfer_match_def sz sizeof_xfer_head_def sizeof_xfer_tail_def split: if_splits)
  obtain h where h: "xfer_head_at m = Some h" "head_fits h" "xfer_head_bytes h = take 8 m"
    using xfer_head_of_bytes[of m] assms(1) n10 by auto
  define d where "d = (if xh_cmd h = XFER_CMD_WR then unat (xh_len h) else 0)"
  have dd: "(if xh_cmd h = XFER_CMD_WR then uint (xh_len h) else 0) = int d" by (simp add: d_def)
  have ok: "xh_mark h = XFER_PREFIX" "d + 10 \<le> n" "arr_get m (int d + 9) = Some XFER_POSFIX" "k = int d + 10"
    using assms(3) n10 by (auto simp: xfer_match_def sz sizeof_xfer_head_def sizeof_xfer_tail_def h(1) dd Let_def add.commute
        split: if_splits bind_splits)
  define r where "r = \<lparr>rq_head = h, rq_data = take d (drop 8 m), rq_code = m ! (d + 8)\<rparr>"
  have last: "m ! (d + 9) = XFER_POSFIX" using ok(2,3) assms(1) by (simp add: arr_get_def nat_add_distrib split: if_splits)
  have "take (d + 10) m = take 8 m @ take d (drop 8 m) @ [m ! (d + 8), m ! (d + 9)]"
  proof -
    have "take (d + 10) m = take 8 m @ take (d + 2) (drop 8 m)" using take_add[of 8 "d + 2" m] by (simp add: add.commute)
    also have "take (d + 2) (drop 8 m) = take d (drop 8 m) @ take 2 (drop (d + 8) m)"
      using take_add[of d 2 "drop 8 m"] by (simp add: add.commute)
    also have "take 2 (drop (d + 8) m) = [m ! (d + 8), m ! (d + 9)]"
      using ok(2) assms(1) by (simp add: numeral_2_eq_2 take_Suc_conv_app_nth nth_drop add.commute)
    finally show ?thesis by simp
  qed
  then have fr: "take (d + 10) m = xfer_frame r" by (simp add: xfer_frame_def r_def h(3) last)
  have len: "length (rq_data r) = d" using ok(2) assms(1) by (simp add: r_def)
  have "xfer_wf r" using h(2) ok(1) len by (simp add: xfer_wf_def r_def d_def)
  then show ?thesis using fr ok(2,4) len by (intro exI[of _ r]) (simp add: xfer_frame_length nat_add_distrib)
qed

section \<open>Answers\<close>

text \<open>The response buffer between two packets.\<close>

definition fresh_rsp :: "u16 \<Rightarrow> awoke_buffchunk" where
  "fresh_rsp i = \<lparr>bc_id = i, bc_p = Some (zeros 512), bc_size = 512, bc_length = 0\<rparr>"

definition xfer_serves :: "xfer_state \<Rightarrow> bool" where
  "xfer_serves st \<longleftrightarrow> (\<exists>i. xs_response st = Some (fresh_rsp i)) \<and> (\<exists>p. cmder_find_tcvr_byid (xs_ctx st) 0 = Some p)"

definition xfer_send :: "bytes \<Rightarrow> uartcmder \<Rightarrow> uartcmder" where
  "xfer_send x ctx = ctx\<lparr>uc_sent := uc_sent ctx @ [(0, x)]\<rparr>"

lemma senddata_zero:
  assumes "cmder_find_tcvr_byid ctx 0 = Some p" "length x < 2147483648"
  shows "uartcmder_senddata ctx 0 (x @ y) (int (length x)) = Some (xfer_send x ctx)"
proof -
  have "tc_id p = 0" using assms(1) by (auto simp: cmder_find_tcvr_byid_def find_Some_iff)
  then show ?thesis using assms by (simp add: uartcmder_senddata_def mem_read_def size_t_id xfer_send_def)
qed

lemma pack_header_reply:
  assumes "bc_p rsp = Some (x @ d @ zeros n)" "length x = 8" "bc_length rsp = int (length d)" "2 \<le> n"
  shows "xfer_pack_header rsp head code = Some (et_ok, rsp\<lparr>bc_p := Some (
      (xfer_head_bytes (rsp_head head code) @ d @ [code, XFER_POSFIX]) @ zeros (n - 2)), bc_length := int (length d) + 10\<rparr>)"
proof -
  let ?h = "xfer_head_bytes (rsp_head head code)"
  have w: "mem_write (x @ d @ zeros n) 0 ?h = Some (?h @ d @ zeros n)" using assms(2) by (simp add: mem_write_def)
  have p: "pkg_push_all (?h @ d @ zeros n) (8 + int (length d)) [u8_bytes code, u8_bytes XFER_POSFIX] =
      Some ((?h @ d @ [code, XFER_POSFIX]) @ zeros (n - 2), int (8 + length d) + 2)"
    using pkg_push_all_ok[of "8 + length d" "[u8_bytes code, u8_bytes XFER_POSFIX]" "?h @ d @ zeros n"] assms(4)
    by (simp add: u8_bytes_def)
  show ?thesis using assms
    by (simp add: xfer_pack_header_def bc_block_def w p sizeof_xfer_head_def sizeof_xfer_tail_def Let_def
        del: pkg_push_all.simps)
qed

text \<open>The buffer after the answer was sent: cleared, it is the one before.\<close>

lemma answer_sent:
  assumes st: "xfer_serves st" "xs_response st = Some (fresh_rsp i)" and d: "length d \<le> 502" "length x = 8"
    and ctx: "uc_tcvrs ctx = uc_tcvrs (xs_ctx st)"
  shows "do {
      (_, rsp) \<leftarrow> xfer_pack_header ((fresh_rsp i)\<lparr>bc_p := Some (x @ d @ zeros (504 - length d)), bc_length := int (length d)\<rparr>) head code;
      (ctx, rsp) \<leftarrow> (if bc_length rsp \<noteq> 0 then do {
         ctx \<leftarrow> uartcmder_senddata ctx 0 (bc_block rsp) (bc_length rsp);
         rsp \<leftarrow> awoke_buffchunk_clear rsp;
         Some (ctx, rsp) } else Some (ctx, rsp));
      Some (et_ok, st\<lparr>xs_ctx := ctx, xs_response := Some rsp\<rparr>) } =
    Some (et_ok, st\<lparr>xs_ctx := xfer_send (xfer_head_bytes (rsp_head head code) @ d @ [code, XFER_POSFIX]) ctx\<rparr>)"
proof -
  let ?a = "xfer_head_bytes (rsp_head head code) @ d @ [code, XFER_POSFIX]"
  let ?ra = "(fresh_rsp i)\<lparr>bc_p := Some (x @ d @ zeros (504 - length d)), bc_length := int (length d)\<rparr>"
  let ?rb = "?ra\<lparr>bc_p := Some (?a @ zeros (502 - length d)), bc_length := int (length d) + 10\<rparr>"
  have p: "xfer_pack_header ?ra head code = Some (et_ok, ?rb)"
    using pack_header_reply[of ?ra x d "504 - length d" head code] d by (simp add: diff_diff_left)
  obtain t where "cmder_find_tcvr_byid ctx 0 = Some t" using st(1) ctx by (auto simp: xfer_serves_def cmder_find_tcvr_byid_def)
  from senddata_zero[OF this, of ?a "zeros (502 - length d)"] d(1)
  have s: "uartcmder_senddata ctx 0 (bc_block ?rb) (bc_length ?rb) = Some (xfer_send ?a ctx)"
    by (simp add: bc_block_def add.commute)
  have c: "awoke_buffchunk_clear ?rb = Some (fresh_rsp i)"
    using d(1) by (simp add: awoke_buffchunk_clear_def mem_write_def bc_block_def fresh_rsp_def size_t_def)
  have "bc_length ?rb \<noteq> 0" by simp
  then show ?thesis unfolding p using s c st(2) by simp
qed

section \<open>Writes\<close>

definition writable :: "u32 list" where
  "writable = [0x00001010, 0x00001014, 0x00001018, 0x00001030, 0x00001040, 0x00002000, 0x00002004, 0x02000000]"

definition write_request :: "xfer_req \<Rightarrow> bool" where
  "write_request r \<longleftrightarrow> xfer_wf r \<and> xh_cmd (rq_head r) = XFER_CMD_WR \<and> xh_space (rq_head r) = XFER_SPACE_MCU \<and>
     xh_addr (rq_head r) \<in> set writable \<and> 4 \<le> length (rq_data r)"

definition write_effect :: "xfer_req \<Rightarrow> uartcmder \<Rightarrow> uartcmder" where
  "write_effect r ctx = (if xh_addr (rq_head r) = 0x02000000
     then ctx\<lparr>uc_config := (uc_config ctx)\<lparr>LQ_single_test := of_nat (le_nat (take 4 (rq_data r)))\<rparr>\<rparr> else ctx)"

definition write_step :: "xfer_req \<Rightarrow> xfer_state \<Rightarrow> xfer_state" where
  "write_step r st = st\<lparr>xs_ctx := xfer_send (xfer_head_bytes ((rq_head r)\<lparr>xh_len := 0\<rparr>) @ [0, XFER_POSFIX]) (write_effect r (xs_ctx st))\<rparr>"

lemma write_effect_tcvrs [simp]: "uc_tcvrs (write_effect r ctx) = uc_tcvrs ctx"
  by (simp add: write_effect_def)

lemma process_write:
  assumes "write_request r"
  shows "xfer_mcu_process alloc ctx (rq_head r) (rq_data r @ y) rsp = Some (et_ok, write_effect r ctx, rsp)"
proof -
  have pull: "pkg_pull_dwrd (rq_data r @ y) 0 = Some (of_nat (le_nat (take 4 (rq_data r))), 4)"
    using assms pull_dwrd_at[of 0 "rq_data r @ y"] by (simp add: write_request_def)
  have w: "xh_cmd (rq_head r) = XFER_CMD_WR" "xh_addr (rq_head r) \<in> set writable" using assms by (simp_all add: write_request_def)
  have log: "logged_set ctx (rq_data r @ y) n = Some (et_ok, ctx)" for n by (simp add: logged_set_def pull)
  have lq: "xfer_lqit_set ctx (rq_data r @ y) n =
      Some (et_ok, ctx\<lparr>uc_config := (uc_config ctx)\<lparr>LQ_single_test := of_nat (le_nat (take 4 (rq_data r)))\<rparr>\<rparr>)" for n
    by (simp add: xfer_lqit_set_def pull)
  show ?thesis using w(2) unfolding writable_def
    by (auto simp: xfer_mcu_process_def xfer_mcu_range_def XFER_MCU_ALGORITHM_BASE_def XFER_MCU_PARAMS_BASE_def
        xfer_mcu_params_process_def xfer_mcu_reqtab_def w(1) write_effect_def log lq xfer_fps_set_def xfer_fpsmin_set_def
        xfer_fpsmax_set_def xfer_trigger_set_def xfer_invs_en_set_def xfer_config_save_def xfer_config_restore_def)
qed

lemma xfer_read_write:
  assumes "write_request r" "xfer_serves st"
  shows "xfer_read alloc st (xfer_frame r @ y) len = Some (et_ok, write_step r st)"
proof -
  obtain i where i: "xs_response st = Some (fresh_rsp i)" using assms(2) by (auto simp: xfer_serves_def)
  have r: "xh_cmd (rq_head r) \<noteq> XFER_CMD_RD" "xh_space (rq_head r) = XFER_SPACE_MCU" "xfer_wf r"
    using assms(1) by (simp_all add: write_request_def XFER_CMD_RD_def XFER_CMD_WR_def)
  have h: "xfer_head_at (xfer_frame r @ y) = Some (rq_head r)" by (rule xfer_frame_head[OF r(3)])
  have d: "drop (nat sizeof_xfer_head) (xfer_frame r @ y) = rq_data r @ [rq_code r, XFER_POSFIX] @ y"
    by (simp add: sizeof_xfer_head_def xfer_frame_def)
  have z: "fresh_rsp i = (fresh_rsp i)\<lparr>bc_p := Some (zeros 8 @ [] @ zeros (504 - length ([] :: bytes))), bc_length := int (length ([] :: bytes))\<rparr>"
    by (simp add: fresh_rsp_def flip: replicate_add)
  have "xfer_read alloc st (xfer_frame r @ y) len = do {
      (_, rsp) \<leftarrow> xfer_pack_header (fresh_rsp i) (rq_head r) 0;
      (ctx, rsp) \<leftarrow> (if bc_length rsp \<noteq> 0 then do {
         ctx \<leftarrow> uartcmder_senddata (write_effect r (xs_ctx st)) 0 (bc_block rsp) (bc_length rsp);
         rsp \<leftarrow> awoke_buffchunk_clear rsp;
         Some (ctx, rsp) } else Some (write_effect r (xs_ctx st), rsp));
      Some (et_ok, st\<lparr>xs_ctx := ctx, xs_response := Some rsp\<rparr>) }"
    unfolding xfer_read_def by (simp add: xfer_init_def i h xfer_rsp_chunk_def r(1,2) d process_write[OF assms(1)] del: drop_append)
  also have "\<dots> = Some (et_ok, st\<lparr>xs_ctx := xfer_send (xfer_head_bytes (rsp_head (rq_head r) 0) @ [] @ [0, XFER_POSFIX])
      (write_effect r (xs_ctx st))\<rparr>)"
    by (subst z, rule answer_sent[OF assms(2) i]) simp_all
  finally show ?thesis using r(1) by (simp add: write_step_def rsp_head_def)
qed

lemma write_step_serves: "xfer_serves st \<Longrightarrow> xfer_serves (write_step r st)"
  by (auto simp: xfer_serves_def write_step_def xfer_send_def cmder_find_tcvr_byid_def)

interpretation xfer_writes: framed_reader xfer_match xfer_frame write_request "xfer_read alloc" xfer_serves write_step
proof unfold_locales
  show "xfer_match (xfer_frame r @ y) (int n) rlen = Some (et_ok, int (length (xfer_frame r)))"
    if "write_request r" "length (xfer_frame r) \<le> n" "n < 2147483648" for r y n rlen
    using that xfer_match_frame by (simp add: write_request_def)
  show "xfer_frame r \<noteq> []" for r by (simp add: xfer_frame_def)
  show "\<exists>ret. xfer_read alloc s (xfer_frame r @ y) (int (length (xfer_frame r))) = Some (ret, write_step r s)"
    if "write_request r" "xfer_serves s" for r s y using xfer_read_write[OF that] by blast
  show "xfer_serves (write_step r s)" if "xfer_serves s" for r s by (rule write_step_serves[OF that])
qed

section \<open>Reads\<close>

definition register_value :: "uartcmder \<Rightarrow> u32 \<Rightarrow> u32 option" where
  "register_value ctx = map_of [(0x00001000, 10), (0x00001010, 100), (0x00001014, 1), (0x00001018, 1), (0x00001030, 0), (0x00001040, 0),
     (0x02000000, LQ_single_test (uc_config ctx))]"

definition read_request :: "xfer_req \<Rightarrow> bool" where
  "read_request r \<longleftrightarrow> xfer_wf r \<and> xh_cmd (rq_head r) = XFER_CMD_RD \<and> xh_space (rq_head r) = XFER_SPACE_MCU"


lemma process_read:
  assumes "xh_cmd h = XFER_CMD_RD" "register_value ctx (xh_addr h) = Some v"
  shows "xfer_mcu_process alloc ctx h x rsp = value_get v ctx h rsp"
proof -
  have "XFER_CMD_RD \<noteq> XFER_CMD_WR" by (simp add: XFER_CMD_RD_def XFER_CMD_WR_def)
  then show ?thesis using assms(2)
    by (auto simp: xfer_mcu_process_def xfer_mcu_range_def XFER_MCU_ALGORITHM_BASE_def XFER_MCU_PARAMS_BASE_def register_value_def
        xfer_mcu_params_process_def xfer_mcu_reqtab_def assms(1) xfer_fps_get_def xfer_fpsmin_get_def xfer_bitwidth_get_def
        xfer_fpsmax_get_def xfer_trigger_get_def xfer_invs_en_get_def xfer_lqit_get_def split: if_splits)
qed


section \<open>Properties\<close>

text \<open>C27: \<open>xfer_match\<close> accepts exactly the packets of the protocol: on the bytes received it reports success with a length
  exactly when they begin with a well-formed packet of that length: the mark, as many data bytes as a write
  announces and none for other commands, a code and the closing byte.\<close>

theorem xfer_match_exact:
  assumes "n \<le> length m" "n < 2147483648"
  shows "xfer_match m (int n) rlen = Some (et_ok, k) \<longleftrightarrow>
    (\<exists>r. xfer_wf r \<and> k = int (length (xfer_frame r)) \<and> length (xfer_frame r) \<le> n \<and> take (nat k) m = xfer_frame r)"
proof
  show "\<exists>r. xfer_wf r \<and> k = int (length (xfer_frame r)) \<and> length (xfer_frame r) \<le> n \<and> take (nat k) m = xfer_frame r"
    if "xfer_match m (int n) rlen = Some (et_ok, k)" using xfer_match_sound[OF assms that] by blast
next
  assume "\<exists>r. xfer_wf r \<and> k = int (length (xfer_frame r)) \<and> length (xfer_frame r) \<le> n \<and> take (nat k) m = xfer_frame r"
  then obtain r where r: "xfer_wf r" "k = int (length (xfer_frame r))" "length (xfer_frame r) \<le> n" "take (nat k) m = xfer_frame r"
    by blast
  have "m = xfer_frame r @ drop (nat k) m" using r(4) by (metis append_take_drop_id)
  with xfer_match_frame[OF r(1,3) assms(2), of "drop (nat k) m" rlen] r(2) show "xfer_match m (int n) rlen = Some (et_ok, k)" by simp
qed

definition lq_head :: "u8 \<Rightarrow> xfer_head" where
  "lq_head cmd = \<lparr>xh_mark = XFER_PREFIX, xh_cmd = cmd, xh_seq = 1, xh_space = XFER_SPACE_MCU, xh_len = 4, xh_addr = 0x02000000\<rparr>"

definition lq_write :: "u32 \<Rightarrow> xfer_req" where
  "lq_write v = \<lparr>rq_head = lq_head XFER_CMD_WR, rq_data = u32_bytes v, rq_code = 0\<rparr>"

definition lq_read :: xfer_req where
  "lq_read = \<lparr>rq_head = lq_head XFER_CMD_RD, rq_data = [], rq_code = 0\<rparr>"

lemma lq_requests: "write_request (lq_write v)" "read_request lq_read"
  by (simp_all add: write_request_def read_request_def lq_write_def lq_read_def lq_head_def xfer_wf_def head_fits_def XFER_CMD_WR_def
      XFER_CMD_RD_def XFER_SPACE_MCU_def writable_def)

theorem xfer_match_exact_witness:
  "\<exists>r. xfer_wf r \<and> take 10 (xfer_frame lq_read @ [1]) = xfer_frame r"
proof -
  have "xfer_wf lq_read" "length (xfer_frame lq_read) = 10"
    using lq_requests(2) by (simp_all add: read_request_def xfer_frame_length lq_read_def)
  then have "xfer_match (xfer_frame lq_read @ [1]) (int 11) 0 = Some (et_ok, 10)" using xfer_match_frame[of lq_read 11 "[1]" 0] by simp
  then show ?thesis using xfer_match_exact[of 11 "xfer_frame lq_read @ [1]" 0 10] \<open>length (xfer_frame lq_read) = 10\<close> by auto
qed







definition xfer_example :: xfer_state where
  "xfer_example = \<lparr>xs_response = Some (fresh_rsp 0), xs_ctx = idle_cmder\<rparr>"

lemma xfer_example_serves: "xfer_serves xfer_example"
  by (auto simp: xfer_serves_def xfer_example_def idle_cmder_def cmder_find_tcvr_byid_def)


text \<open>What the polls are meant to do, on a buffer with readable memory behind it (which no created chunk has): the packets
  that lie in the receive buffer are handled in their order, one per poll. When the buffer holds write
  packets of at least four bytes of data for registers other than the stream and nothing else, as many polls of the serial line make the effects of all the writes on the registers, one
  after the other, send one acknowledgement for each of them in the same order, and leave the buffer empty.\<close>

theorem xfer_writes_processed:
  assumes "xfer_serves st" "\<forall>r \<in> set rs. write_request r \<and> length (xfer_frame r) \<le> k" "rx_holds b k (concat (map xfer_frame rs))"
  shows "\<exists>b' st'. uart_polls [xfer_protocol alloc] rlen (length rs) st b = Some (st', b') \<and> rx_holds b' k [] \<and>
    uc_config (xs_ctx st') = uc_config (fold write_effect rs (xs_ctx st)) \<and>
    uc_sent (xs_ctx st') = uc_sent (xs_ctx st) @
      map (\<lambda>r. (0, xfer_head_bytes ((rq_head r)\<lparr>xh_len := 0\<rparr>) @ [0, XFER_POSFIX])) rs"
proof -
  have p: "pr_match (xfer_protocol alloc) = xfer_match" "pr_read (xfer_protocol alloc) = xfer_read alloc"
    by (simp_all add: xfer_protocol_def)
  obtain b' where b': "uart_polls [xfer_protocol alloc] rlen (length rs) st b = Some (fold write_step rs st, b')" "rx_holds b' k []"
    using xfer_writes.uart_polls_frames[OF p assms] by blast
  have eff: "uc_config (write_effect r c) = uc_config (write_effect r c')" if "uc_config c = uc_config c'" for r c c'
    using that by (simp add: write_effect_def)
  have step: "uc_config (xs_ctx (write_step r s)) = uc_config (write_effect r (xs_ctx s))"
      "uc_sent (xs_ctx (write_step r s)) = uc_sent (xs_ctx s) @ [(0, xfer_head_bytes ((rq_head r)\<lparr>xh_len := 0\<rparr>) @ [0, XFER_POSFIX])]" for r s
    by (simp_all add: write_step_def xfer_send_def write_effect_def)
  have cfg: "uc_config (xs_ctx s) = uc_config c \<Longrightarrow> uc_config (xs_ctx (fold write_step rs s)) = uc_config (fold write_effect rs c)" for s c
  proof (induction rs arbitrary: s c)
    case (Cons r rs)
    have "uc_config (xs_ctx (write_step r s)) = uc_config (write_effect r c)" unfolding step(1) by (rule eff[OF Cons.prems])
    then show ?case using Cons.IH by simp
  qed simp
  have snt: "uc_sent (xs_ctx (fold write_step rs s)) = uc_sent (xs_ctx s) @
      map (\<lambda>r. (0, xfer_head_bytes ((rq_head r)\<lparr>xh_len := 0\<rparr>) @ [0, XFER_POSFIX])) rs" for s
    by (induction rs arbitrary: s) (simp_all add: step(2))
  show ?thesis by (rule exI[of _ b'], rule exI[of _ "fold write_step rs st"]) (simp add: b' cfg snt)
qed

definition rx_two_writes :: awoke_buffchunk where
  "rx_two_writes = \<lparr>bc_id = 0, bc_p = Some (xfer_frame (lq_write 7) @ xfer_frame (lq_write 9) @ zeros 32), bc_size = 32, bc_length = 28\<rparr>"

theorem xfer_writes_processed_witness:
  "\<exists>b' st'. uart_polls [xfer_protocol (\<lambda>_. True)] (\<lambda>_. 0) 2 xfer_example rx_two_writes = Some (st', b') \<and> rx_holds b' 14 [] \<and>
    LQ_single_test (uc_config (xs_ctx st')) = 9"
proof -
  let ?rs = "[lq_write 7, lq_write 9]"
  have len: "length (xfer_frame (lq_write v)) = 14" for v by (simp add: xfer_frame_length lq_write_def)
  have h: "rx_holds rx_two_writes 14 (concat (map xfer_frame ?rs))"
    by (simp add: rx_holds_def rx_two_writes_def len)
  have w: "\<forall>r \<in> set ?rs. write_request r \<and> length (xfer_frame r) \<le> 14" using lq_requests(1) len by simp
  have n: "length ?rs = 2" by simp
  have v: "LQ_single_test (uc_config (fold write_effect ?rs (xs_ctx xfer_example))) = 9"
    by (simp add: write_effect_def lq_write_def lq_head_def)
  from xfer_writes_processed[OF xfer_example_serves w h, of "\<lambda>_. True" "\<lambda>_. 0", unfolded n] v show ?thesis by metis
qed

section \<open>Limits\<close>

text \<open>A part of a packet is not kept: with less than a header and a tail in the buffer the search finds the mark at
  its start, the poll takes this for nothing found, and drops the bytes. So a packet that arrives in two reads, the
  first of them short, is lost.\<close>

lemma xfer_part_dropped:
  assumes "rx_holds b k x" "x = XFER_PREFIX # y" "length x < 10" "bc_size b = int (length (bc_block b)) - int k"
  shows "\<exists>b'. uart_rxpoll [xfer_protocol alloc] 0 None st b = Some (et_ok, st, b') \<and> bc_length b' = 0"
proof -
  have len: "bc_length b = int (length x)" "x \<noteq> []" using rx_holds_length[OF assms(1)] assms(2) by simp_all
  have m: "take (length x) (bc_block b) = x" using rx_holds_prefix[of b k x "[]"] assms(1) by simp
  then have hd: "arr_get (bc_block b) 0 = Some XFER_PREFIX"
    using assms(2) by (cases "bc_block b") (auto simp: arr_get_def)
  have mt: "xfer_match (bc_block b) (bc_length b) 0 = Some (err_unfinished, 0)"
    using assms(3) by (simp add: xfer_match_def len size_t_id sizeof_xfer_head_def sizeof_xfer_tail_def)
  have sc: "xfer_scan (bc_block b) (bc_length b) 0 = Some (et_ok, 0)"
  proof -
    have "nat (bc_length b - 0) = Suc (length y)" using len(1) assms(2) by simp
    then show ?thesis by (simp add: xfer_scan_def hd)
  qed
  have sz: "size_t (bc_size b) = nat (bc_size b)" "bc_size b \<le> int (length (bc_block b))"
    using assms(1,4) by (auto simp: rx_holds_def size_t_id)
  have fit: "nat (bc_size b) \<le> length (bc_block b)" using sz(2) by simp
  obtain b' where "awoke_buffchunk_clear b = Some b'" "bc_length b' = 0"
    by (auto simp: awoke_buffchunk_clear_def mem_write_def sz(1) fit)
  then show ?thesis using len mt sc
    by (simp add: uart_rxpoll_def rx_store_def poll_repeat.simps xfer_protocol_def)
qed

text \<open>Reading more than four bytes of a register copies what lies behind the variable on the stack; writing the width,
  reading a command register and any access to another space or to the boot addresses are undefined.\<close>

lemma xfer_read_too_long:
  assumes "xh_cmd h = XFER_CMD_RD" "register_value ctx (xh_addr h) = Some v" "4 < unat (xh_len h)"
  shows "xfer_mcu_process alloc ctx h x rsp = None"
proof -
  define n where "n = unat (xh_len h)"
  have n: "uint (xh_len h) = int n" "4 < n" "n < 65536" using assms(3) unat_u16_less[of "xh_len h"] by (simp_all add: n_def)
  then have "mem_read (u32_bytes v) 0 (size_t (int n)) = None" by (simp add: mem_read_def size_t_id)
  then show ?thesis unfolding process_read[OF assms(1,2)] by (simp add: value_get_def xfer_pack_data_def assms(1) n(1) Let_def)
qed

lemma xfer_null_handlers:
  "xh_addr h = 0x00001000 \<Longrightarrow> xh_cmd h = XFER_CMD_WR \<Longrightarrow> xfer_mcu_process alloc ctx h x rsp = None"
  "xh_addr h = 0x00002000 \<Longrightarrow> xh_cmd h = XFER_CMD_RD \<Longrightarrow> xfer_mcu_process alloc ctx h x rsp = None"
  by (simp_all add: xfer_mcu_process_def xfer_mcu_range_def XFER_MCU_ALGORITHM_BASE_def XFER_MCU_PARAMS_BASE_def
      xfer_mcu_params_process_def xfer_mcu_reqtab_def XFER_CMD_WR_def XFER_CMD_RD_def)

lemma xfer_other_space: "xfer_head_at m = Some h \<Longrightarrow> xh_space h \<noteq> XFER_SPACE_MCU \<Longrightarrow> xfer_read alloc st m len = None"
  by (simp add: xfer_read_def split: bind_split)

end
