(* ===== verification/Cmder_Command.thy ===== *)
theory Cmder_Command
  imports Cmder_Context Proto_Litetalk
begin

text \<open>
  The LiteTalk commands of the camera, \<open>application/cmder/cmder.c\<close>: each command type has a handler that stores the
  fields of a packet into the state, and one that packs the state into an answer. A setter gets the memory and
  the offset of the data, a getter the chunk to build the answer in. The times of \<open>gettimeofday\<close> (\<open>tv\<close>), the value of
  a variable that is sent without having been set (\<open>junk\<close>) and the random temperature (\<open>temp\<close>) are arguments.
\<close>

section \<open>Setters and getters\<close>

type_synonym ltk_set_fn = "uartcmder \<Rightarrow> bytes \<Rightarrow> int \<Rightarrow> (err_type \<times> uartcmder) option"
type_synonym ltk_get_fn = "uartcmder \<Rightarrow> litetalk_cmdinfo \<Rightarrow> awoke_buffchunk \<Rightarrow> (err_type \<times> awoke_buffchunk) option"

text \<open>The common end of the getters: the command, a code and the fields behind the header.\<close>

definition ltk_reply :: "u8 \<Rightarrow> litetalk_cmdinfo \<Rightarrow> awoke_buffchunk \<Rightarrow> bytes list \<Rightarrow> (err_type \<times> awoke_buffchunk) option" where
  "ltk_reply code info chunk xs = do {
     chunk \<leftarrow> litk_build chunk LITETALK_CATEGORY_COMMAND (u8_bytes (ci_cmdtype info) # u8_bytes code # xs);
     Some (et_ok, chunk) }"

definition ltk_sensor_reg_set :: ltk_set_fn where
  "ltk_sensor_reg_set uc m pos = do {
     (addr, pos) \<leftarrow> pkg_pull_word m pos;
     (v, pos) \<leftarrow> pkg_pull_byte m pos;
     Some (et_ok, uc\<lparr>uc_regaddr := htons16 addr, uc_regvalue := v\<rparr>) }"

definition ltk_sensor_reg_get :: ltk_get_fn where
  "ltk_sensor_reg_get uc info chunk = ltk_reply 0 info chunk [u16_bytes (htons16 (uc_regaddr uc)), u8_bytes (uc_regvalue uc)]"

definition str_bytes :: "string \<Rightarrow> bytes" where "str_bytes s = map of_char s"

definition ltk_devinfo_get :: ltk_get_fn where
  "ltk_devinfo_get uc info chunk = ltk_reply 0 info chunk
     [u8_bytes 9, u8_bytes 6, u8_bytes 11, u8_bytes 11, u8_bytes 8,
      str_bytes ''Cobra2000'', str_bytes ''Luster'', u32_bytes 0, u32_bytes 0, str_bytes ''SONY-IMX990'',
      u32_bytes (push_bit 16 1), u32_bytes (push_bit 16 1),
      u32_bytes (push_bit 28 1 OR push_bit 16 0x21 OR push_bit 8 0x6 OR 0x4),
      str_bytes ''May 19 2021'', str_bytes ''15:13:12'']"

text \<open>The limits in the packet are skipped, the goals and the frame count are read and not stored.\<close>

definition ltk_exposure_set :: ltk_set_fn where
  "ltk_exposure_set uc m pos = do {
     (g, pos) \<leftarrow> pkg_pull_word m pos;
     (e, pos) \<leftarrow> pkg_pull_dwrd m (pos + 4);
     (ae, pos) \<leftarrow> pkg_pull_byte m (pos + 8);
     (_, pos) \<leftarrow> pkg_pull_byte m pos;
     (_, pos) \<leftarrow> pkg_pull_byte m pos;
     (_, pos) \<leftarrow> pkg_pull_byte m pos;
     let cfg = uc_config uc;
     let cfg = (if htons16 g \<noteq> gain cfg then cfg\<lparr>gain := htons16 g\<rparr> else cfg);
     let cfg = (if htonl32 e \<noteq> expo cfg then cfg\<lparr>expo := htonl32 e\<rparr> else cfg);
     let cfg = (if ucast (ae_enable cfg) \<noteq> ae then cfg\<lparr>ae_enable := ucast ae\<rparr> else cfg);
     Some (et_ok, uc\<lparr>uc_config := cfg\<rparr>) }"

definition ltk_exposure_get :: ltk_get_fn where
  "ltk_exposure_get uc info chunk = (let cfg = uc_config uc in ltk_reply 0 info chunk
     [u16_bytes (htons16 (gain cfg)), u16_bytes (htons16 (gain_min cfg)), u16_bytes (htons16 (gain_max cfg)),
      u32_bytes (htonl32 (expo cfg)), u32_bytes (htonl32 (expo_min cfg)), u32_bytes (htonl32 (expo_max cfg)),
      u8_bytes (ucast (ae_enable cfg)), u8_bytes (ucast (goal_max cfg)), u8_bytes (ucast (goal_min cfg)), u8_bytes (ae_frame cfg)])"

text \<open>The range of the exposure follows the frame rate; a rate of zero divides by zero.\<close>

definition fps_change :: "u8 \<Rightarrow> cmder_config \<Rightarrow> cmder_config option" where
  "fps_change f cfg =
     (if fps cfg \<noteq> f then
        (if f = 0 then None
         else Some (cfg\<lparr>fps := f, expo_min := of_int (936 div uint f + 7), expo_max := of_int (936 * 1053 div uint f + 7)\<rparr>))
      else Some cfg)"

definition ltk_display_set :: ltk_set_fn where
  "ltk_display_set uc m pos = do {
     (f, pos) \<leftarrow> pkg_pull_byte m pos;
     (_, pos) \<leftarrow> pkg_pull_byte m pos;
     (_, pos) \<leftarrow> pkg_pull_byte m pos;
     (cl, pos) \<leftarrow> pkg_pull_byte m pos;
     (front, pos) \<leftarrow> pkg_pull_byte m pos;
     (cross, pos) \<leftarrow> pkg_pull_byte m pos;
     (cp, pos) \<leftarrow> pkg_pull_dwrd m pos;
     (v, pos) \<leftarrow> pkg_pull_byte m pos;
     (h, pos) \<leftarrow> pkg_pull_byte m pos;
     cfg \<leftarrow> fps_change f (uc_config uc);
     Some (et_ok, uc\<lparr>uc_config := cfg\<lparr>cltest_enable := ucast cl, frtest_enable := ucast front, crossview_enable := ucast cross,
       cross_x := ucast (drop_bit 16 (htonl32 cp)), cross_y := ucast (htonl32 cp AND 0xffff), vinvs := v, hinvs := h\<rparr>\<rparr>) }"

text \<open>The column is shifted as a signed integer, which is undefined when its highest bit is set.\<close>

definition ltk_display_get :: ltk_get_fn where
  "ltk_display_get uc info chunk = (let cfg = uc_config uc in
     if 0x8000 \<le> cross_x cfg then None
     else ltk_reply 0 info chunk
       [u8_bytes (fps cfg), u8_bytes (fps_min cfg), u8_bytes (fps_max cfg), u8_bytes (ucast (cltest_enable cfg)),
        u8_bytes (ucast (frtest_enable cfg)), u8_bytes (ucast (crossview_enable cfg)),
        u32_bytes (htonl32 (push_bit 16 (ucast (cross_x cfg)) OR ucast (cross_y cfg))), u8_bytes (vinvs cfg), u8_bytes (hinvs cfg)])"

definition bit_change :: "1 word \<Rightarrow> u8 \<Rightarrow> 1 word" where
  "bit_change old new = (if ucast old \<noteq> new then (if new = 1 then 1 else 0) else old)"

definition ltk_isp_set :: ltk_set_fn where
  "ltk_isp_set uc m pos = do {
     (dpc, pos) \<leftarrow> pkg_pull_byte m pos;
     (psnu, pos) \<leftarrow> pkg_pull_byte m pos;
     (iff_b, pos) \<leftarrow> pkg_pull_byte m pos;
     (th, pos) \<leftarrow> pkg_pull_word m pos;
     (dv, pos) \<leftarrow> pkg_pull_word m pos;
     (_, pos) \<leftarrow> pkg_pull_byte m pos;
     (_, pos) \<leftarrow> pkg_pull_byte m pos;
     let cfg = uc_config uc;
     Some (et_ok, uc\<lparr>uc_config := cfg\<lparr>dpc_enable := bit_change (dpc_enable cfg) dpc, psnu_enable := bit_change (psnu_enable cfg) psnu,
       iff_enable := bit_change (iff_enable cfg) iff_b, iff_th := htons16 th, iff_div := htons16 dv\<rparr>\<rparr>) }"

definition ltk_isp_get :: "u8 \<Rightarrow> ltk_get_fn" where
  "ltk_isp_get junk uc info chunk = (let cfg = uc_config uc in ltk_reply 0 info chunk
     [u8_bytes (ucast (dpc_enable cfg)), u8_bytes (ucast (psnu_enable cfg)), u8_bytes (ucast (iff_enable cfg)),
      u16_bytes (ucast (drop_bit 16 (iffparam cfg) AND 0xffff)), u16_bytes (ucast (iffparam cfg AND 0xffff)),
      u8_bytes (ucast (gamm_en cfg)), u8_bytes junk])"

definition ltk_roi0_set :: ltk_set_fn where
  "ltk_roi0_set uc m pos = do {
     (x, pos) \<leftarrow> pkg_pull_word m pos;
     (y, pos) \<leftarrow> pkg_pull_word m pos;
     (w, pos) \<leftarrow> pkg_pull_word m pos;
     (h, pos) \<leftarrow> pkg_pull_word m pos;
     (en, pos) \<leftarrow> pkg_pull_byte m pos;
     Some (et_ok, uc\<lparr>uc_roi0 := \<lparr>roi_x = x, roi_y = y, roi_w = w, roi_h = h, roi_enable = ucast en\<rparr>\<rparr>) }"

definition ltk_roi0_get :: ltk_get_fn where
  "ltk_roi0_get uc info chunk = (let r = uc_roi0 uc in ltk_reply 0 info chunk
     [u16_bytes (roi_x r), u16_bytes (roi_y r), u16_bytes (roi_w r), u16_bytes (roi_h r), u8_bytes (ucast (roi_enable r))])"

definition LITETALK_CMD_TEMP_CAP :: u8 where "LITETALK_CMD_TEMP_CAP = 10"

text \<open>The periodic report of the temperature, by the address of its handler in the queue of works.\<close>

definition work_temp_cap_addr :: nat where "work_temp_cap_addr = 1"

definition work_temp_cap :: "allocator \<Rightarrow> int \<times> int \<Rightarrow> u32 \<Rightarrow> uartcmder \<Rightarrow> (err_type \<times> uartcmder) option" where
  "work_temp_cap alloc tv temp uc =
     (if uc_temp_cap_en uc = 0 then Some (et_ok, uc)
      else (case awoke_buffchunk_create alloc (uc_ids uc) 64 of
        (None, _) \<Rightarrow> None
      | (Some chunk, ids) \<Rightarrow> do {
          chunk \<leftarrow> litk_build chunk LITETALK_CATEGORY_COMMAND
            [u8_bytes LITETALK_CMD_TEMP_CAP, u8_bytes 0, u32_bytes (htonl32 (of_int (fst tv))), u32_bytes (htonl32 temp)];
          (_, uc) \<leftarrow> tx_insert alloc (uc\<lparr>uc_ids := ids\<rparr>) (chunk\<lparr>bc_id := 0\<rparr>) 0;
          cmder_work_schedule alloc tv uc work_temp_cap_addr 1000 }))"

definition ltk_temp_cap_set :: "allocator \<Rightarrow> int \<times> int \<Rightarrow> ltk_set_fn" where
  "ltk_temp_cap_set alloc tv uc m pos = do {
     (cap, pos) \<leftarrow> pkg_pull_byte m pos;
     (tec, pos) \<leftarrow> pkg_pull_byte m pos;
     (target, pos) \<leftarrow> pkg_pull_byte m pos;
     uc \<leftarrow> (if cap \<noteq> uc_temp_cap_en uc then
              (if cap \<noteq> 0 then do {
                 (_, uc) \<leftarrow> cmder_work_schedule alloc tv (uc\<lparr>uc_temp_cap_en := cap\<rparr>) work_temp_cap_addr 1000;
                 Some uc }
               else Some (uc\<lparr>uc_temp_cap_en := cap\<rparr>))
            else Some uc);
     let cfg = uc_config uc;
     let cfg = (if tec \<noteq> ucast (tec_enable cfg) then cfg\<lparr>tec_enable := ucast tec\<rparr> else cfg);
     let cfg = (if ucast target \<noteq> tec_target cfg then cfg\<lparr>tec_target := ucast target\<rparr> else cfg);
     Some (et_ok, uc\<lparr>uc_config := cfg\<rparr>) }"

definition ltk_temp_cap_get :: ltk_get_fn where
  "ltk_temp_cap_get uc info chunk = (let cfg = uc_config uc in ltk_reply 0 info chunk
     [u8_bytes (uc_temp_cap_en uc), u8_bytes (ucast (tec_enable cfg)), u8_bytes (ucast (tec_target cfg)),
      u8_bytes (ucast (tec_target_min cfg)), u8_bytes (ucast (tec_target_max cfg))])"

definition ltk_config_get :: ltk_get_fn where
  "ltk_config_get uc info chunk = ltk_reply 1 info chunk []"

definition cmder_static_init :: "uartcmder \<Rightarrow> uartcmder" where
  "cmder_static_init c = (let f = (100 :: u8) in c\<lparr>uc_config := (uc_config c)\<lparr>
     ae_enable := 0, ae_expo_enable := 0, ae_gain_enable := 0, gain := 0, gain_min := 0, gain_max := 500, expo := 1600,
     goal_max := 85, goal_min := 65, ae_frame := 4, fps := f, expo_min := of_int (936 div uint f + 7),
     expo_max := of_int (936 * 1053 div uint f + 7), fps_min := 1, fps_max := 125, cltest_enable := 0, frtest_enable := 0,
     crossview_enable := 0, cross_x := 640, cross_y := 540, vinvs := 0, hinvs := 0, iff_enable := 0, iff_th := 16, iff_div := 0,
     tec_enable := 0, tec_target := 15, tec_target_min := 0, tec_target_max := 30\<rparr>\<rparr>)"

section \<open>The table of commands\<close>

record litetalk_cmd =
  lc_type :: u8
  lc_set :: "ltk_set_fn option"
  lc_get :: ltk_get_fn

definition litetalk_cmd_array :: "allocator \<Rightarrow> int \<times> int \<Rightarrow> u8 \<Rightarrow> litetalk_cmd list" where
  "litetalk_cmd_array alloc tv junk =
    [\<lparr>lc_type = 4, lc_set = None, lc_get = ltk_devinfo_get\<rparr>,
     \<lparr>lc_type = 5, lc_set = Some ltk_sensor_reg_set, lc_get = ltk_sensor_reg_get\<rparr>,
     \<lparr>lc_type = 6, lc_set = Some ltk_exposure_set, lc_get = ltk_exposure_get\<rparr>,
     \<lparr>lc_type = 7, lc_set = Some ltk_display_set, lc_get = ltk_display_get\<rparr>,
     \<lparr>lc_type = 8, lc_set = Some ltk_isp_set, lc_get = ltk_isp_get junk\<rparr>,
     \<lparr>lc_type = 9, lc_set = Some (ltk_temp_cap_set alloc tv), lc_get = ltk_temp_cap_get\<rparr>,
     \<lparr>lc_type = 11, lc_set = None, lc_get = ltk_config_get\<rparr>,
     \<lparr>lc_type = 12, lc_set = Some ltk_roi0_set, lc_get = ltk_roi0_get\<rparr>]"

definition LITETALK_CMD_F_WRITE :: u8 where "LITETALK_CMD_F_WRITE = 1"

text \<open>A write is followed by the answer of the getter, or by an error packet when the setter fails.\<close>

definition litetalk_command_process ::
  "allocator \<Rightarrow> int \<times> int \<Rightarrow> u8 \<Rightarrow> uartcmder \<Rightarrow> litetalk_cmdinfo \<Rightarrow> bytes \<Rightarrow> int \<Rightarrow> (err_type \<times> uartcmder) option" where
  "litetalk_command_process alloc tv junk uc info m pos = (case awoke_buffchunk_create alloc (uc_ids uc) 256 of
      (None, _) \<Rightarrow> None
    | (Some txpkt, ids) \<Rightarrow> do {
        let uc = uc\<lparr>uc_ids := ids\<rparr>;
        (uc, txpkt) \<leftarrow> (case List.find (\<lambda>p. ci_cmdtype info = lc_type p) (litetalk_cmd_array alloc tv junk) of
            None \<Rightarrow> Some (uc, txpkt)
          | Some p \<Rightarrow>
              (if ci_flag info AND LITETALK_CMD_F_WRITE \<noteq> 0 then do {
                 set_fn \<leftarrow> lc_set p;
                 (ret, uc) \<leftarrow> set_fn uc m pos;
                 if ret \<noteq> et_ok then do {
                   v \<leftarrow> err_value ret;
                   (n, x) \<leftarrow> litetalk_build_cmderr (bc_block txpkt) info (of_nat v);
                   Some (uc, txpkt\<lparr>bc_p := map_option (\<lambda>_. x) (bc_p txpkt), bc_length := n\<rparr>) }
                 else do { (_, txpkt) \<leftarrow> lc_get p uc info txpkt; Some (uc, txpkt) } }
               else do { (_, txpkt) \<leftarrow> lc_get p uc info txpkt; Some (uc, txpkt) }));
        if bc_length txpkt \<noteq> 0 then do {
          (_, uc) \<leftarrow> tx_insert alloc uc (txpkt\<lparr>bc_id := 0\<rparr>) 0;
          Some (et_ok, uc) }
        else Some (et_ok, uc) })"

section \<open>Answers\<close>

definition command_packet :: "litetalk_cmdinfo \<Rightarrow> u8 \<Rightarrow> bytes \<Rightarrow> litk_packet" where
  "command_packet info code x = \<lparr>pk_category = LITETALK_CATEGORY_COMMAND, pk_flag = 0, pk_content = ci_cmdtype info # code # x\<rparr>"

lemma ltk_reply_ok:
  assumes "bc_p chunk = Some m" "length (concat xs) + 12 \<le> length m"
  shows "ltk_reply code info chunk xs = Some (et_ok, chunk\<lparr>bc_p := Some (litk_frame (command_packet info code (concat xs)) @
    drop (length (concat xs) + 12) m), bc_length := int (length (concat xs)) + 12\<rparr>)"
  using litk_build_ok[of chunk m "u8_bytes (ci_cmdtype info) # u8_bytes code # xs" LITETALK_CATEGORY_COMMAND] assms
  by (simp add: ltk_reply_def command_packet_def u8_bytes_def add.commute del: length_concat)

text \<open>A write that the setter accepts puts one packet, the answer of the getter, into the send queue.\<close>

lemma command_write_ok:
  assumes find: "List.find (\<lambda>p. ci_cmdtype info = lc_type p) (litetalk_cmd_array (\<lambda>_. True) tv junk) = Some p"
    and fl: "ci_flag info AND LITETALK_CMD_F_WRITE \<noteq> 0" and st: "lc_set p = Some set_fn"
    and run: "set_fn (uc\<lparr>uc_ids := uc_ids uc + 1\<rparr>) m pos = Some (et_ok, uc2)"
    and gt: "\<And>chunk. lc_get p uc2 info chunk = ltk_reply 0 info chunk xs" and len: "length (concat xs) \<le> 244"
    and tx: "tx_ok uc2" "pq_nr (uc_txqueue uc2) < pq_cap (uc_txqueue uc2)" "uc_brk uc2 < 2 ^ 64" "cmder_find_tcvr_byid uc2 0 \<noteq> None"
  shows "\<exists>uc' chunk. litetalk_command_process (\<lambda>_. True) tv junk uc info m pos = Some (et_ok, uc') \<and> tx_ok uc' \<and>
    tx_pending uc' = add_mset (0, chunk) (tx_pending uc2) \<and> bc_data chunk = litk_frame (command_packet info 0 (concat xs)) \<and>
    bc_id chunk = 0 \<and> uc_config uc' = uc_config uc2 \<and> uc_regaddr uc' = uc_regaddr uc2 \<and> uc_regvalue uc' = uc_regvalue uc2 \<and>
    uc_roi0 uc' = uc_roi0 uc2"
proof -
  define c0 where "c0 = \<lparr>bc_id = uc_ids uc, bc_p = Some (zeros 256), bc_size = 256, bc_length = 0\<rparr>"
  have cr: "awoke_buffchunk_create (\<lambda>_. True) (uc_ids uc) 256 = (Some c0, uc_ids uc + 1)"
    by (simp add: awoke_buffchunk_create_def AWOKE_BUFFCHUNK_LIMIT_def buffchunk_id_def size_t_def c0_def)
  let ?f = "litk_frame (command_packet info 0 (concat xs))"
  let ?c1 = "c0\<lparr>bc_p := Some (?f @ zeros (244 - length (concat xs))), bc_length := int (length (concat xs)) + 12\<rparr>"
  have rp: "ltk_reply 0 info c0 xs = Some (et_ok, ?c1)"
    using ltk_reply_ok[of c0 "zeros 256" xs 0 info] len by (simp add: c0_def del: length_concat)
  have fl_len: "length ?f = length (concat xs) + 12" by (simp add: litk_frame_length command_packet_def del: length_concat)
  have data: "bc_data (?c1\<lparr>bc_id := 0\<rparr>) = ?f" by (simp add: bc_data_def bc_block_def fl_len nat_add_distrib del: length_concat)
  have "sendable uc2 (?c1\<lparr>bc_id := 0\<rparr>)"
    using tx(4) len by (simp add: sendable_def bc_block_def fl_len del: length_concat)
  then obtain uc' where ins: "tx_insert (\<lambda>_. True) uc2 (?c1\<lparr>bc_id := 0\<rparr>) 0 = Some (et_ok, uc')" "tx_ok uc'"
      "tx_pending uc' = add_mset (0, ?c1\<lparr>bc_id := 0\<rparr>) (tx_pending uc2)"
    using tx_insert_ok[OF tx(1,2) _ tx(3), of "\<lambda>_. True"] by blast
  have cfg: "uc_config uc' = uc_config uc2 \<and> uc_regaddr uc' = uc_regaddr uc2 \<and> uc_regvalue uc' = uc_regvalue uc2 \<and> uc_roi0 uc' = uc_roi0 uc2"
    using ins(1) by (auto simp: tx_insert_def split: bind_splits)
  have "litetalk_command_process (\<lambda>_. True) tv junk uc info m pos = Some (et_ok, uc')"
    unfolding litetalk_command_process_def cr using fl by (simp add: find st run gt rp ins(1) Let_def del: length_concat)
  then show ?thesis using ins(2,3) data cfg by (intro exI[of _ uc'] exI[of _ "?c1\<lparr>bc_id := 0\<rparr>"]) simp
qed

text \<open>The setters read back what was packed.\<close>

lemma sensor_reg_set_ok:
  "ltk_sensor_reg_set uc (h @ u16_bytes (htons16 a) @ u8_bytes v @ y) (int (length h)) =
    Some (et_ok, uc\<lparr>uc_regaddr := a, uc_regvalue := v\<rparr>)"
proof -
  let ?m = "h @ u16_bytes (htons16 a) @ u8_bytes v @ y" and ?n = "int (length h)"
  have "pkg_pull_word ?m ?n = Some (htons16 a, ?n + 2)" "pkg_pull_byte ?m (?n + 2) = Some (v, ?n + 3)"
    using pull_word_append[of ?n h "htons16 a"] pull_byte_append[of "?n + 2" "h @ u16_bytes (htons16 a)" v] by simp_all
  then show ?thesis by (simp add: ltk_sensor_reg_set_def)
qed

lemma roi0_set_ok:
  "ltk_roi0_set uc (h @ u16_bytes (roi_x r) @ u16_bytes (roi_y r) @ u16_bytes (roi_w r) @ u16_bytes (roi_h r) @ u8_bytes e @ y) (int (length h)) =
    Some (et_ok, uc\<lparr>uc_roi0 := r\<lparr>roi_enable := ucast e\<rparr>\<rparr>)"
proof -
  let ?m = "h @ u16_bytes (roi_x r) @ u16_bytes (roi_y r) @ u16_bytes (roi_w r) @ u16_bytes (roi_h r) @ u8_bytes e @ y"
  let ?n = "int (length h)"
  have p: "pkg_pull_word ?m ?n = Some (roi_x r, ?n + 2)" "pkg_pull_word ?m (?n + 2) = Some (roi_y r, ?n + 4)"
      "pkg_pull_word ?m (?n + 4) = Some (roi_w r, ?n + 6)" "pkg_pull_word ?m (?n + 6) = Some (roi_h r, ?n + 8)"
      "pkg_pull_byte ?m (?n + 8) = Some (e, ?n + 9)"
    using pull_word_append[of ?n h "roi_x r"] pull_word_append[of "?n + 2" "h @ u16_bytes (roi_x r)" "roi_y r"]
      pull_word_append[of "?n + 4" "h @ u16_bytes (roi_x r) @ u16_bytes (roi_y r)" "roi_w r"]
      pull_word_append[of "?n + 6" "h @ u16_bytes (roi_x r) @ u16_bytes (roi_y r) @ u16_bytes (roi_w r)" "roi_h r"]
      pull_byte_append[of "?n + 8" "h @ u16_bytes (roi_x r) @ u16_bytes (roi_y r) @ u16_bytes (roi_w r) @ u16_bytes (roi_h r)" e]
    by simp_all
  show ?thesis by (cases r) (use p in \<open>simp add: ltk_roi0_set_def\<close>)
qed

definition same_tx :: "uartcmder \<Rightarrow> uartcmder \<Rightarrow> bool" where
  "same_tx c c' \<longleftrightarrow> uc_txqueue c' = uc_txqueue c \<and> uc_brk c' = uc_brk c \<and> uc_heap c' = uc_heap c \<and> uc_tcvrs c' = uc_tcvrs c"

lemma same_tx_facts:
  assumes "same_tx c c'"
  shows "tx_ok c' = tx_ok c" "tx_pending c' = tx_pending c" "cmder_find_tcvr_byid c' = cmder_find_tcvr_byid c"
proof -
  show f: "cmder_find_tcvr_byid c' = cmder_find_tcvr_byid c" using assms by (simp add: fun_eq_iff cmder_find_tcvr_byid_def same_tx_def)
  then have "sendable c' = sendable c" by (simp add: fun_eq_iff sendable_def)
  then show "tx_ok c' = tx_ok c" using assms by (simp add: tx_ok_def same_tx_def)
  show "tx_pending c' = tx_pending c" using assms by (simp add: tx_pending_def tx_chunk_def[abs_def] same_tx_def)
qed

text \<open>A commander that can take one more packet for the first transceiver.\<close>

definition can_answer :: "uartcmder \<Rightarrow> bool" where
  "can_answer c \<longleftrightarrow> tx_ok c \<and> pq_nr (uc_txqueue c) < pq_cap (uc_txqueue c) \<and> uc_brk c < 2 ^ 64 \<and> cmder_find_tcvr_byid c 0 \<noteq> None"

lemma can_answer_same: "same_tx c c' \<Longrightarrow> can_answer c' = can_answer c"
  by (simp add: can_answer_def same_tx_facts) (simp add: same_tx_def)

section \<open>The exposure range\<close>

definition expo_follows_fps :: "cmder_config \<Rightarrow> bool" where
  "expo_follows_fps cfg \<longleftrightarrow> fps cfg \<noteq> 0 \<and> uint (expo_min cfg) = 936 div uint (fps cfg) + 7 \<and>
     uint (expo_max cfg) = 936 * 1053 div uint (fps cfg) + 7"

lemma range_values:
  assumes "0 \<le> n" "n < 2 ^ 32"
  shows "uint (of_int n :: u32) = n"
  using assms by (simp add: uint_word_of_int_eq take_bit_int_eq_self)

lemma fps_quotient: "0 \<le> k \<Longrightarrow> k \<le> 985608 \<Longrightarrow> 0 \<le> k div uint (f :: u8) + 7 \<and> k div uint f + 7 < 2 ^ 32"
proof -
  assume k: "0 \<le> k" "k \<le> 985608"
  have "0 \<le> k div uint f" using k by (simp add: pos_imp_zdiv_nonneg_iff div_int_pos_iff)
  moreover have "k div uint f \<le> k" 
  proof (cases "uint f = 0")
    case False
    then have "1 \<le> uint f" using uint_ge_0[of f] by linarith
    then show ?thesis using zdiv_mono2[of k 1 "uint f"] k by simp
  qed (use k in simp)
  ultimately show ?thesis using k by simp
qed

lemma fps_change_range:
  assumes "fps_change f cfg = Some cfg'" "expo_follows_fps cfg"
  shows "expo_follows_fps cfg'"
  using assms range_values[of "936 div uint f + 7"] range_values[of "936 * 1053 div uint f + 7"]
    fps_quotient[of 936 f] fps_quotient[of "936 * 1053" f]
  by (auto simp: fps_change_def expo_follows_fps_def split: if_splits)

lemma static_init_range: "expo_follows_fps (uc_config (cmder_static_init c))"
  by (simp add: cmder_static_init_def expo_follows_fps_def)

text \<open>The setters other than the one of the display leave the rate and the range alone.\<close>

definition keeps_range :: "cmder_config \<Rightarrow> cmder_config \<Rightarrow> bool" where
  "keeps_range a b \<longleftrightarrow> fps b = fps a \<and> expo_min b = expo_min a \<and> expo_max b = expo_max a"

lemma keeps_range_follows: "keeps_range a b \<Longrightarrow> expo_follows_fps b = expo_follows_fps a"
  by (simp add: keeps_range_def expo_follows_fps_def)

lemma schedule_config: "cmder_work_schedule alloc tv c cb ms = Some (r, c') \<Longrightarrow> uc_config c' = uc_config c"
  by (auto simp: cmder_work_schedule_def split: bind_splits)

lemma setters_range:
  "ltk_sensor_reg_set uc m pos = Some (r, uc') \<Longrightarrow> keeps_range (uc_config uc) (uc_config uc')"
  "ltk_exposure_set uc m pos = Some (r, uc') \<Longrightarrow> keeps_range (uc_config uc) (uc_config uc')"
  "ltk_isp_set uc m pos = Some (r, uc') \<Longrightarrow> keeps_range (uc_config uc) (uc_config uc')"
  "ltk_roi0_set uc m pos = Some (r, uc') \<Longrightarrow> keeps_range (uc_config uc) (uc_config uc')"
  by (auto simp: keeps_range_def ltk_sensor_reg_set_def ltk_exposure_set_def ltk_isp_set_def ltk_roi0_set_def Let_def split: bind_splits)

lemma temp_cap_range:
  "ltk_temp_cap_set alloc tv uc m pos = Some (r, uc') \<Longrightarrow> keeps_range (uc_config uc) (uc_config uc')"
  by (auto simp: keeps_range_def ltk_temp_cap_set_def Let_def schedule_config split: bind_splits if_splits dest!: schedule_config)

lemma display_range:
  assumes "ltk_display_set uc m pos = Some (r, uc')" "expo_follows_fps (uc_config uc)"
  shows "expo_follows_fps (uc_config uc')"
proof -
  obtain f cfg where c: "fps_change f (uc_config uc) = Some cfg" "keeps_range cfg (uc_config uc')"
    using assms(1) by (auto simp: ltk_display_set_def keeps_range_def split: bind_splits)
  from fps_change_range[OF c(1) assms(2)] keeps_range_follows[OF c(2)] show ?thesis by simp
qed

lemma table_setters_range:
  assumes "List.find (\<lambda>p. t = lc_type p) (litetalk_cmd_array alloc tv junk) = Some p" "lc_set p = Some set_fn"
    and "set_fn uc m pos = Some (r, uc')" "expo_follows_fps (uc_config uc)"
  shows "expo_follows_fps (uc_config uc')"
  using assms setters_range[of uc m pos r uc'] temp_cap_range[of alloc tv uc m pos r uc'] display_range[of uc m pos r uc'] keeps_range_follows
  by (auto simp: litetalk_cmd_array_def split: if_splits)

lemma tx_insert_config: "tx_insert alloc c ch p = Some (r, c') \<Longrightarrow> uc_config c' = uc_config c"
  by (auto simp: tx_insert_def split: bind_splits)

section \<open>Properties\<close>

text \<open>C31: the exposure range follows the frame rate. It does after the static initialisation, and every command packet,
  whatever its type, flag and data, keeps it so when its processing is defined: the rate is not zero and the smallest
  and the largest exposure are those the rate allows.\<close>

theorem litetalk_command_keeps_range:
  "expo_follows_fps (uc_config (cmder_static_init c)) \<and>
   (expo_follows_fps (uc_config uc) \<longrightarrow> litetalk_command_process alloc tv junk uc info m pos = Some (r, uc') \<longrightarrow>
      expo_follows_fps (uc_config uc'))"
proof (intro conjI impI)
  assume ok: "expo_follows_fps (uc_config uc)" and run: "litetalk_command_process alloc tv junk uc info m pos = Some (r, uc')"
  obtain txpkt ids where cr: "awoke_buffchunk_create alloc (uc_ids uc) 256 = (Some txpkt, ids)"
    using run by (auto simp: litetalk_command_process_def split: prod.splits option.splits)
  let ?uc = "uc\<lparr>uc_ids := ids\<rparr>" and ?find = "List.find (\<lambda>p. ci_cmdtype info = lc_type p) (litetalk_cmd_array alloc tv junk)"
  have run': "do {
        (uc, txpkt) \<leftarrow> (case ?find of
            None \<Rightarrow> Some (?uc, txpkt)
          | Some p \<Rightarrow>
              (if ci_flag info AND LITETALK_CMD_F_WRITE \<noteq> 0 then do {
                 set_fn \<leftarrow> lc_set p;
                 (ret, uc) \<leftarrow> set_fn ?uc m pos;
                 if ret \<noteq> et_ok then do {
                   v \<leftarrow> err_value ret;
                   (n, x) \<leftarrow> litetalk_build_cmderr (bc_block txpkt) info (of_nat v);
                   Some (uc, txpkt\<lparr>bc_p := map_option (\<lambda>_. x) (bc_p txpkt), bc_length := n\<rparr>) }
                 else do { (_, txpkt) \<leftarrow> lc_get p uc info txpkt; Some (uc, txpkt) } }
               else do { (_, txpkt) \<leftarrow> lc_get p ?uc info txpkt; Some (?uc, txpkt) }));
        if bc_length txpkt \<noteq> 0 then do { (_, uc) \<leftarrow> tx_insert alloc uc (txpkt\<lparr>bc_id := 0\<rparr>) 0; Some (et_ok, uc) }
        else Some (et_ok, uc) } = Some (r, uc')"
    using run unfolding litetalk_command_process_def cr by (simp add: Let_def)
  have "expo_follows_fps (uc_config ?uc)" using ok by simp
  note table_setters_range[OF _ _ _ this, of "ci_cmdtype info" alloc tv junk]
  with run' ok show "expo_follows_fps (uc_config uc')"
    by (auto split: option.splits bind_splits if_splits dest!: tx_insert_config)
qed (rule static_init_range)

lemma idle_can_answer: "can_answer idle_cmder"
proof -
  have "tx_ok idle_cmder"
    by (simp add: tx_ok_def idle_cmder_def pq_inv_def pq_mem_ok_def pq_ordered_def heap_ok_def mask_exst_def pq_mset_def heap_mset_def)
  then show ?thesis by (simp add: can_answer_def idle_cmder_def cmder_find_tcvr_byid_def)
qed

text \<open>The static configuration with a display command that asks for 50 frames per second.\<close>

definition display_request :: bytes where
  "display_request = [50, 0, 0, 0, 0, 0, 0, 0, 0, 0, 0, 0]"

lemma display_request_set:
  "\<exists>cfg. ltk_display_set uc display_request 0 = Some (et_ok, uc\<lparr>uc_config := cfg\<rparr>) \<and> fps cfg = 50 \<and> cross_x cfg = 0"
proof -
  have p: "pkg_pull_byte display_request 0 = Some (50, 1)" "pkg_pull_byte display_request 1 = Some (0, 2)"
    "pkg_pull_byte display_request 2 = Some (0, 3)" "pkg_pull_byte display_request 3 = Some (0, 4)"
    "pkg_pull_byte display_request 4 = Some (0, 5)" "pkg_pull_byte display_request 5 = Some (0, 6)"
    "pkg_pull_dwrd display_request 6 = Some (0, 10)" "pkg_pull_byte display_request 10 = Some (0, 11)"
    "pkg_pull_byte display_request 11 = Some (0, 12)" "htonl32 0 = 0"
    by code_simp+
  show ?thesis by (cases "fps (uc_config uc) = 50") (simp_all add: ltk_display_set_def p fps_change_def, fastforce+)
qed

theorem litetalk_command_keeps_range_witness:
  "\<exists>uc'. litetalk_command_process (\<lambda>_. True) (0, 0) 0 (cmder_static_init idle_cmder) \<lparr>ci_cmdtype = 7, ci_flag = 1\<rparr> display_request 0 =
      Some (et_ok, uc') \<and> fps (uc_config uc') = 50 \<and> uint (expo_min (uc_config uc')) = 25 \<and> uint (expo_max (uc_config uc')) = 19719"
proof -
  let ?i = "\<lparr>ci_cmdtype = 7, ci_flag = 1\<rparr>" and ?c = "cmder_static_init idle_cmder"
  let ?uc = "?c\<lparr>uc_ids := uc_ids ?c + 1\<rparr>"
  obtain cfg where set: "ltk_display_set ?uc display_request 0 = Some (et_ok, ?uc\<lparr>uc_config := cfg\<rparr>)" "fps cfg = 50" "cross_x cfg = 0"
    using display_request_set by blast
  let ?uc2 = "?uc\<lparr>uc_config := cfg\<rparr>"
  have same: "same_tx idle_cmder ?uc2" by (simp add: same_tx_def cmder_static_init_def)
  have tx: "tx_ok ?uc2" "pq_nr (uc_txqueue ?uc2) < pq_cap (uc_txqueue ?uc2)" "uc_brk ?uc2 < 2 ^ 64" "cmder_find_tcvr_byid ?uc2 0 \<noteq> None"
    using idle_can_answer can_answer_same[OF same] unfolding can_answer_def by simp_all
  from command_write_ok[where info = ?i and tv = "(0, 0)" and junk = 0 and uc = ?c and m = display_request and pos = 0
      and p = "\<lparr>lc_type = 7, lc_set = Some ltk_display_set, lc_get = ltk_display_get\<rparr>" and set_fn = ltk_display_set
      and xs = "[u8_bytes (fps cfg), u8_bytes (fps_min cfg), u8_bytes (fps_max cfg), u8_bytes (ucast (cltest_enable cfg)),
        u8_bytes (ucast (frtest_enable cfg)), u8_bytes (ucast (crossview_enable cfg)),
        u32_bytes (htonl32 (push_bit 16 (ucast (cross_x cfg)) OR ucast (cross_y cfg))), u8_bytes (vinvs cfg), u8_bytes (hinvs cfg)]",
      OF _ _ _ set(1) _ _ tx] set(3)
  obtain uc' where run: "litetalk_command_process (\<lambda>_. True) (0, 0) 0 ?c ?i display_request 0 = Some (et_ok, uc')" "uc_config uc' = cfg"
    by (auto simp: litetalk_cmd_array_def ltk_display_get_def LITETALK_CMD_F_WRITE_def)
  have "expo_follows_fps (uc_config uc')"
    using litetalk_command_keeps_range[of idle_cmder ?c "\<lambda>_. True" "(0, 0)" 0 ?i display_request 0 et_ok uc'] run(1) by blast
  then show ?thesis using run set(2) by (intro exI[of _ uc']) (simp add: expo_follows_fps_def)
qed

text \<open>C32: a command that sets the sensor register or the region of interest is answered with what was set. The state
  holds the values of the packet, and the send queue gets exactly one packet more, for the first transceiver, whose
  content is the command, code zero and the data of the request, byte for byte.\<close>

theorem litetalk_command_echo:
  fixes r :: roi_struct
  assumes "can_answer uc" "ci_flag info AND LITETALK_CMD_F_WRITE \<noteq> 0"
    and "ci_cmdtype info = 5 \<and> data = u16_bytes (htons16 a) @ u8_bytes v \<or>
      ci_cmdtype info = 12 \<and> data = u16_bytes (roi_x r) @ u16_bytes (roi_y r) @ u16_bytes (roi_w r) @ u16_bytes (roi_h r) @ u8_bytes e"
  shows "\<exists>uc' chunk. litetalk_command_process (\<lambda>_. True) tv junk uc info (h @ data @ y) (int (length h)) = Some (et_ok, uc') \<and>
    tx_ok uc' \<and> tx_pending uc' = add_mset (0, chunk) (tx_pending uc) \<and> bc_id chunk = 0 \<and>
    bc_data chunk = litk_frame (command_packet info 0 data) \<and>
    (ci_cmdtype info = 5 \<longrightarrow> uc_regaddr uc' = a \<and> uc_regvalue uc' = v) \<and>
    (ci_cmdtype info = 12 \<longrightarrow> uc_roi0 uc' = r\<lparr>roi_enable := ucast e\<rparr>)"
proof (rule disjE[OF assms(3)])
  let ?uc = "uc\<lparr>uc_ids := uc_ids uc + 1\<rparr>"
  assume t: "ci_cmdtype info = 5 \<and> data = u16_bytes (htons16 a) @ u8_bytes v"
  let ?uc2 = "?uc\<lparr>uc_regaddr := a, uc_regvalue := v\<rparr>"
  have same: "same_tx uc ?uc2" by (simp add: same_tx_def)
  have tx: "tx_ok ?uc2" "pq_nr (uc_txqueue ?uc2) < pq_cap (uc_txqueue ?uc2)" "uc_brk ?uc2 < 2 ^ 64" "cmder_find_tcvr_byid ?uc2 0 \<noteq> None"
    using assms(1) can_answer_same[OF same] unfolding can_answer_def by simp_all
  from command_write_ok[where info = info and tv = tv and junk = junk and uc = uc and m = "h @ data @ y" and pos = "int (length h)"
      and p = "\<lparr>lc_type = 5, lc_set = Some ltk_sensor_reg_set, lc_get = ltk_sensor_reg_get\<rparr>" and set_fn = ltk_sensor_reg_set
      and xs = "[u16_bytes (htons16 a), u8_bytes v]", OF _ assms(2) _ _ _ _ tx]
    t sensor_reg_set_ok[of ?uc h a v y] same_tx_facts(2)[OF same]
  show ?thesis by (auto simp: litetalk_cmd_array_def ltk_sensor_reg_get_def)
next
  let ?uc = "uc\<lparr>uc_ids := uc_ids uc + 1\<rparr>"
  assume t: "ci_cmdtype info = 12 \<and> data = u16_bytes (roi_x r) @ u16_bytes (roi_y r) @ u16_bytes (roi_w r) @ u16_bytes (roi_h r) @ u8_bytes e"
  let ?uc2 = "?uc\<lparr>uc_roi0 := r\<lparr>roi_enable := ucast e\<rparr>\<rparr>"
  have e: "ucast (ucast e :: u32) = e" by (rule bit_eqI) (simp add: bit_simps)
  have same: "same_tx uc ?uc2" by (simp add: same_tx_def)
  have tx: "tx_ok ?uc2" "pq_nr (uc_txqueue ?uc2) < pq_cap (uc_txqueue ?uc2)" "uc_brk ?uc2 < 2 ^ 64" "cmder_find_tcvr_byid ?uc2 0 \<noteq> None"
    using assms(1) can_answer_same[OF same] unfolding can_answer_def by simp_all
  from command_write_ok[where info = info and tv = tv and junk = junk and uc = uc and m = "h @ data @ y" and pos = "int (length h)"
      and p = "\<lparr>lc_type = 12, lc_set = Some ltk_roi0_set, lc_get = ltk_roi0_get\<rparr>" and set_fn = ltk_roi0_set
      and xs = "[u16_bytes (roi_x r), u16_bytes (roi_y r), u16_bytes (roi_w r), u16_bytes (roi_h r), u8_bytes e]", OF _ assms(2) _ _ _ _ tx]
    t roi0_set_ok[of ?uc h r e y] same_tx_facts(2)[OF same]
  show ?thesis by (auto simp: litetalk_cmd_array_def ltk_roi0_get_def e)
qed

theorem litetalk_command_echo_witness:
  "\<exists>uc' chunk. litetalk_command_process (\<lambda>_. True) (0, 0) 0 idle_cmder \<lparr>ci_cmdtype = 5, ci_flag = 1\<rparr>
      ([] @ (u16_bytes (htons16 0x3012) @ u8_bytes 9) @ []) 0 = Some (et_ok, uc') \<and>
    uc_regaddr uc' = 0x3012 \<and> uc_regvalue uc' = 9 \<and>
    bc_data chunk = litk_frame (command_packet \<lparr>ci_cmdtype = 5, ci_flag = 1\<rparr> 0 (u16_bytes (htons16 0x3012) @ u8_bytes 9))"
  using litetalk_command_echo[OF idle_can_answer, of "\<lparr>ci_cmdtype = 5, ci_flag = 1\<rparr>" "u16_bytes (htons16 0x3012) @ u8_bytes 9"
      "0x3012" 9 "uc_roi0 idle_cmder" 0 "(0, 0)" 0 "[]" "[]"]
  by (auto simp: LITETALK_CMD_F_WRITE_def)

text \<open>The thresholds that the image command stores are not those it answers with: the getter reads another field.\<close>

lemma isp_get_ignores_thresholds:
  "ltk_isp_get junk (uc\<lparr>uc_config := (uc_config uc)\<lparr>iff_th := th, iff_div := dv\<rparr>\<rparr>) info chunk = ltk_isp_get junk uc info chunk"
  by (simp add: ltk_isp_get_def Let_def)

text \<open>A frame rate of zero, unless it is set already, divides by zero.\<close>

lemma display_zero_rate: "0 \<le> pos \<Longrightarrow> arr_get m pos = Some 0 \<Longrightarrow> fps (uc_config uc) \<noteq> 0 \<Longrightarrow> ltk_display_set uc m pos = None"
proof -
  assume a: "0 \<le> pos" "arr_get m pos = Some 0" "fps (uc_config uc) \<noteq> 0"
  then have "pkg_pull_byte m pos = Some (0, pos + 1)" using pull_byte_at[of "nat pos" m] by (auto simp: arr_get_def split: if_splits)
  then show ?thesis using a(3) by (simp add: ltk_display_set_def fps_change_def split: bind_split)
qed

end
