(* ===== verification/Cmder_Stream.thy ===== *)
theory Cmder_Stream
  imports Cmder_Command
begin

text \<open>
  Downloads over LiteTalk, \<open>application/cmder/cmder.c\<close>: the pieces of a stream are collected in a pool of chunks, and
  merged when the pool is full or the stream is complete; every piece is acknowledged. The callback of the protocol
  (\<open>litetalk_service_callback\<close>) passes commands and streams on. The jump back to \<open>stream_transmit_start\<close> is a
  loop; \<open>None\<close> stands for not returning as well.
\<close>

section \<open>Model\<close>




record litk_private =
  lp_streampool :: awoke_buffchunk_pool
  lp_streaminfo :: litk_streaminfo




text \<open>The flash address of the next sector.\<close>

definition nuc_next :: "u32 \<Rightarrow> u32" where
  "nuc_next a = (if a \<ge> 0x0000C000 + 4096 * 1280 * 4 then 0x0000C000 else if a \<noteq> 0 then a + 0x1000 else 0x0000C000)"

partial_function (option) stream_transmit_start ::
  "uartcmder \<Rightarrow> litk_private \<Rightarrow> litk_streaminfo \<Rightarrow> (uartcmder \<times> litk_private) option" where
  "stream_transmit_start uc priv info =
     (let p = lp_streaminfo priv in
      if si_id p = 0 then
        Some (uc\<lparr>uc_nucaddr := nuc_next (uc_nucaddr uc), uc_nuc_checksum := 0\<rparr>, priv\<lparr>lp_streaminfo := info\<lparr>si_recvbytes := 0\<rparr>\<rparr>)
      else if si_id p \<noteq> si_id info \<or> si_media p \<noteq> si_media info then
        stream_transmit_start uc (priv\<lparr>lp_streampool := awoke_buffchunk_pool_clean (lp_streampool priv)\<rparr>) info
      else Some (uc, priv))"







section \<open>Starting and acknowledging\<close>



text \<open>A piece of another stream while one is in progress: the code clears the pool and tries again without having
  changed what it compares, for ever.\<close>

definition other_stream :: "litk_private \<Rightarrow> litk_streaminfo \<Rightarrow> bool" where
  "other_stream priv info \<longleftrightarrow> si_id (lp_streaminfo priv) \<noteq> 0 \<and>
     (si_id (lp_streaminfo priv) \<noteq> si_id info \<or> si_media (lp_streaminfo priv) \<noteq> si_media info)"

lemma stream_start_other:
  assumes "other_stream priv info"
  shows "stream_transmit_start uc priv info = None"
proof -
  have "\<not> other_stream priv info" if "stream_transmit_start uc priv info = Some r" for uc priv info r
    using that
  proof (rule stream_transmit_start.raw_induct[where P = "\<lambda>uc priv info r. \<not> other_stream priv info", rotated], intro notI)
    fix f uc priv info r
    assume IH: "\<And>uc priv info r. f uc priv info = Some r \<Longrightarrow> \<not> other_stream priv info" and o: "other_stream priv info"
      and run: "(let p = lp_streaminfo priv in
        if si_id p = 0 then
          Some (uc\<lparr>uc_nucaddr := nuc_next (uc_nucaddr uc), uc_nuc_checksum := 0\<rparr>, priv\<lparr>lp_streaminfo := info\<lparr>si_recvbytes := 0\<rparr>\<rparr>)
        else if si_id p \<noteq> si_id info \<or> si_media p \<noteq> si_media info then
          f uc (priv\<lparr>lp_streampool := awoke_buffchunk_pool_clean (lp_streampool priv)\<rparr>) info
        else Some (uc, priv)) = Some r"
    have "f uc (priv\<lparr>lp_streampool := awoke_buffchunk_pool_clean (lp_streampool priv)\<rparr>) info = Some r"
      using run o by (simp add: Let_def other_stream_def)
    from IH[OF this] o show False by (simp add: other_stream_def)
  qed
  then show ?thesis using assms by (cases "stream_transmit_start uc priv info") blast+
qed



definition ack_packet :: "litk_streaminfo \<Rightarrow> u8 \<Rightarrow> litk_packet" where
  "ack_packet info code = \<lparr>pk_category = LITETALK_CATEGORY_STREAM, pk_flag = 0,
     pk_content = LITETALK_STREAM_ST_ACK # si_id info # u16_bytes (htons16 (si_index info)) @ [code]\<rparr>"

definition ack_chunk :: "u16 \<Rightarrow> litk_streaminfo \<Rightarrow> u8 \<Rightarrow> awoke_buffchunk" where
  "ack_chunk i info code = \<lparr>bc_id = i, bc_p = Some (litk_frame (ack_packet info code) @ zeros 17), bc_size = 32, bc_length = 15\<rparr>"



lemma ack_chunk_data: "bc_data (ack_chunk i info code) = litk_frame (ack_packet info code)"
  by (simp add: bc_data_def ack_chunk_def bc_block_def litk_frame_length ack_packet_def)





section \<open>Collecting the pieces\<close>









section \<open>Whole streams\<close>



















end
