(* ===== verification/Spec2Isabelle.thy ===== *)
theory Spec2Isabelle
  imports Prelude Awoke_List Awoke_Queue Awoke_Fifo Awoke_Minpq Awoke_Bitmap Awoke_Buffer Sec_Base64
    Awoke_String Awoke_Package Vin_Parser Awoke_Tcp Http_Client Awoke_Worker Awoke_Lock Awoke_Waitev Condition_Action
    Awoke_Tree Sec_Padding Awoke_Rtmsg Fix_Math Proto_Ecmd Proto_Litetalk Proto_Xfer
    Cmder_Command Cmder_Stream
begin

text \<open>
  \<^bold>\<open>Verification of the awoke framework\<close>

  awoke is a framework for Linux applications in C: a library of containers, buffers and text helpers
  (\<open>lib/libutil\<close>), an event loop (\<open>lib/libevent\<close>), an HTTP client (\<open>lib/libhttp\<close>), messages between
  processes (\<open>lib/librtmsg\<close>), conditions and actions (\<open>lib/libpattern\<close>), encodings (\<open>lib/libsecurity\<close>) and a
  parser of vehicle numbers (\<open>lib/libvinparser\<close>), with applications on top of it. This development models the
  libraries, and of the applications the fixed-point arithmetic and the commander of a camera, and proves what each
  part promises.

  \<^bold>\<open>Conventions\<close> (\<open>Prelude\<close>). Unsigned integers are words and wrap around; a signed \<open>int\<close> is an integer, and
  where its range matters the model tests it. A block of memory is the list of its bytes. An operation
  returns an \<open>option\<close> whenever its code can be undefined: \<open>None\<close> stands for an access outside of a block, a null
  pointer, a division by zero, a signed overflow, a use after a release, and for a loop that does not return.
  A theorem that states \<open>f x = Some y\<close> thus states that the code stays defined and returns. Error codes are the
  values of \<open>err_type\<close>. Allocation (\<open>alloc\<close>), the contents of fresh memory (\<open>junk\<close>), system calls and callbacks
  are arguments; what a theorem needs of them is a named hypothesis (\<open>select_ok\<close>, \<open>honest\<close>, \<open>delivers\<close>, \<open>compares\<close>).

  \<^bold>\<open>Theories and sources\<close>
    \<^item> \<open>Awoke_List\<close>: \<open>include/awoke_list.h\<close>, the intrusive list over an explicit store of links. Appending and
      unlinking change the traversal by exactly one entry.
    \<^item> \<open>Fifo_Spec\<close>, \<open>Awoke_Queue\<close>, \<open>Awoke_Fifo\<close>: \<open>lib/libutil/src/awoke_queue.c\<close>, the array queue, the ring buffer and the
      array FIFO. The locale of \<open>Fifo_Spec\<close> is the contract of a bounded queue; the three implementations are
      interpretations of it, so every sequence of operations returns what a bounded list returns.
    \<^item> \<open>Heap_Order\<close>, \<open>Awoke_Minpq\<close>: the priority queue of the same file. Insertion and removal keep the heap order,
      filling and draining sorts.
    \<^item> \<open>Awoke_Bitmap\<close>, \<open>Awoke_Buffer\<close>, \<open>C_String\<close>, \<open>Awoke_String\<close>, \<open>Awoke_Package\<close>: \<open>awoke_bitmap.c\<close>, \<open>awoke_buffer.c\<close>,
      \<open>awoke_string.c\<close>, \<open>awoke_package.c\<close>. Ranges of bits, buffer chunks and pools, hexadecimal and decimal texts,
      checksums; the table-driven CRC equals the bitwise one.
    \<^item> \<open>Awoke_Tree\<close>: \<open>awoke_tree.c\<close>, the binary search tree; the locale \<open>ordered_set\<close> is its contract.
    \<^item> \<open>Sec_Base64\<close>, \<open>Sec_Padding\<close>: \<open>lib/libsecurity\<close>. Decoding inverts encoding and never writes outside of its
      destination; padding.
    \<^item> \<open>Vin_Tables\<close>, \<open>Vin_Parser\<close>: \<open>lib/libvinparser\<close>, the tables and the parser.
    \<^item> \<open>Awoke_Tcp\<close>, \<open>Http_Uri\<close>, \<open>Http_Header\<close>, \<open>Http_Response\<close>, \<open>Http_Receive\<close>, \<open>Http_Request\<close>, \<open>Http_Client\<close>: \<open>awoke_tcp.c\<close>
      and \<open>lib/libhttp/src/awoke_http.c\<close>, from the address to the whole exchange: the address parser is total and inverts
      printing, a response in one read is received and parsed, a client that holds one connection at a time leaks no descriptor.
    \<^item> \<open>Awoke_Event\<close>: \<open>lib/libevent/src/awoke_event.c\<close>. The loop holds exactly what is registered, and waiting reports
      exactly the ready descriptors.
    \<^item> \<open>Awoke_Worker\<close>, \<open>Awoke_Lock\<close>, \<open>Awoke_Waitev\<close>: \<open>awoke_worker.c\<close>, \<open>awoke_lock.c\<close>, \<open>awoke_waitev.c\<close>. Threads are step relations
      with all interleavings: no lost wake-up for workers that run the loop of the library, mutual exclusion for mutexes and,
      without signals, for semaphores. The scheduler of the timers keeps time when it is called as it is declared, which
      the loop of a worker does not do.
    \<^item> \<open>Condition_Action\<close>: \<open>lib/libpattern\<close>. Triggering runs the attached actions in order, a refinement of a table from
      types to lists of actions.
    \<^item> \<open>Awoke_Rtmsg\<close>: \<open>lib/librtmsg\<close>. A message that is sent is received, however the stream cuts its data.
    \<^item> \<open>Fix_Math\<close>: \<open>application/fix_math\<close>. Root, quotient and product against exact arithmetic, the cache of the arc
      tangent against the computation without it.
    \<^item> \<open>Pkg_Cursor\<close>: the macros of \<open>awoke_package.h\<close> that write and read values in a buffer.
    \<^item> \<open>Cmder_Rxpoll\<close>: \<open>application/cmder/cmder.c\<close>, the poll routines that cut the bytes received into packets with the help of
      a list of protocols. The locale \<open>framing\<close> is the contract of a protocol (it accepts a whole packet and nothing else), and
      \<open>framed_reader\<close> adds what reading a packet does; the lemmas on the polls hold for any protocol that keeps them.
      Taking a packet out of a chunk reads past the memory of the chunk: the property at the end of this theory.
    \<^item> \<open>Proto_Ecmd\<close>, \<open>Proto_Litetalk\<close>, \<open>Proto_Xfer\<close>: \<open>proto-ecmd.c\<close>, \<open>proto-litetalk.c\<close>, \<open>proto-xfer.c\<close>. The three protocols are interpretations
      of these locales. Matching accepts exactly the packets, a piece of a stream reaches the callback, registers answer
      what was written or their constant; where the buffer has readable memory behind it, split packets are put
      together and packets in one read are handled in order.
    \<^item> \<open>Cmder_Context\<close>, \<open>Cmder_Command\<close>, \<open>Cmder_Stream\<close>: the rest of \<open>cmder.c\<close>. The state of the commander with its send queue and its
      queue of delayed works (both are the priority queue of \<open>Awoke_Minpq\<close>, one of them ordered by a comparator), the
      commands with their answers, and downloads in pieces over the pools of \<open>Awoke_Buffer\<close>: what is queued is sent, works run
      in time, the exposure range follows the frame rate, a stream that fits into the pool is taken completely.

  Each theory has the model first, in the order of the source, then the lemmas, then the properties. Records keep the
  fields of the structures that the operations use; a name that begins with an underscore in C begins with \<open>u_\<close>.
  The parts meet where the code calls: the HTTP client opens connections with the TCP model and addresses with the
  address parser, the workers use the event loop, the commander uses chunks, pools, checksums and priority queues of the
  library, and all of them the error codes and the memory of \<open>Prelude\<close>.

  \<^bold>\<open>Loops.\<close> A loop is a total function with a measure where it ends by itself (the scans, the heap, the CRC, the root
  and the quotient), and a \<open>partial_function\<close> where it may not: \<open>awoke_buffchunk_resize\<close>, \<open>recv_body\<close>, \<open>waitev_from\<close>, the sending
  of a request, \<open>poll_repeat\<close>, \<open>stream_transmit_start\<close>. For those the theorems state that they return under the hypotheses they name, and the lemmas on
  divergence when they do not. There is no fuel.

  \<^bold>\<open>Slips of the code\<close> are kept as they are. Where one is visible in the model a lemma proves it (for instance
  \<open>awoke_minpq_del_breaks_heap\<close>, \<open>rt_message_recv_hangs\<close>, \<open>rt_message_send_wraps\<close>, \<open>worker_stop_suspended\<close>, \<open>tmwkr_pass_undefined\<close>,
  \<open>sem_interrupted_enters\<close>, \<open>fix16_sqrt_short\<close>), and the property next to it
  states what holds instead.

  \<^bold>\<open>Not modelled.\<close> Logging and printing (\<open>awoke_log.c\<close>, \<open>awoke_printf.c\<close>) and all dump functions, which only write; the wrappers
  of system calls (\<open>awoke_socket.c\<close>, \<open>awoke_cmdline.c\<close>), which are the parameters of the parts above them; floating-point code
  (\<open>awoke_kalman.c\<close>, \<open>awoke_vector.h\<close>, the applications \<open>quaternion\<close>, \<open>gps_infpcomp\<close>, \<open>step_counter\<close>, \<open>drv_bhv\<close> and the functions
  on \<open>double\<close> of \<open>fix_math\<close>); vendored code (\<open>mongoose\<close>, \<open>cJSON\<close>, \<open>bget\<close>, the kernel's string functions, MD5 and AES); the
  message router, whose calls do not match the functions they name; of the commander the start, the main loop, the serial
  port settings and the command tables that only the switches \<open>CMDER_TEST\<close> compile; and the remaining programs under \<open>application\<close>, which are
  experiments and tests of the libraries.
\<close>

section \<open>Receiving packets\<close>

text \<open>C38: taking a packet out of the receive buffer reads past its memory. When the bytes in a chunk as
  \<open>awoke_buffchunk_create\<close> makes it and those that a poll receives begin with a whole packet of the first protocol, Xfer
  or Litetalk, the poll of the serial line and the one of the connection are undefined, whatever follows the packet:
  the packet is recognised, and \<open>awoke_buffchunk_backoff\<close> then moves as many bytes from behind the packet as the whole
  chunk has.\<close>

theorem rxpoll_packet_overreads:
  assumes "chunk_ok b" "int (length (bc_data b @ y)) \<le> bc_size b"
  shows "(xfer_wf r \<and> bc_data b @ y = xfer_frame r @ rest \<longrightarrow>
      uart_rxpoll (xfer_protocol alloc # ps) rlen (Some y) st b = None \<and>
      tcp_rxpoll (xfer_protocol alloc # ps) rlen (Tcp_Data (Some y)) fd st b = None) \<and>
    (litk_wf q \<and> bc_data b @ y = litk_frame q @ rest \<longrightarrow>
      uart_rxpoll (litetalk_protocol cb # ps') rlen (Some y) s b = None \<and>
      tcp_rxpoll (litetalk_protocol cb # ps') rlen (Tcp_Data (Some y)) fd s b = None)"
proof -
  have p: "pr_match (xfer_protocol alloc) = xfer_match" "pr_match (litetalk_protocol cb) = litetalk_match"
    by (simp_all add: xfer_protocol_def litetalk_protocol_def)
  have x: "rx_store b (Some y) \<bind> (\<lambda>(c, b). poll_repeat remain (xfer_protocol alloc # ps) c st b rlen) = None"
    if "xfer_wf r" "bc_data b @ y = xfer_frame r @ rest" for remain
    using xfer.poll_overreads[OF p(1) that(1) assms(1) that(2) assms(2)] .
  have l: "rx_store b (Some y) \<bind> (\<lambda>(c, b). poll_repeat remain (litetalk_protocol cb # ps') c s b rlen) = None"
    if "litk_wf q" "bc_data b @ y = litk_frame q @ rest" for remain
    using litk.poll_overreads[OF p(2) that(1) assms(1) that(2) assms(2)] .
  show ?thesis using x l by (auto simp: uart_rxpoll_def tcp_rxpoll_def split: bind_splits)
qed

definition rx_empty :: awoke_buffchunk where
  "rx_empty = \<lparr>bc_id = 0, bc_p = Some (zeros 64), bc_size = 64, bc_length = 0\<rparr>"

theorem rxpoll_packet_overreads_witness:
  "uart_rxpoll [xfer_protocol (\<lambda>_. True)] 0 (Some (xfer_frame (lq_write 7))) xfer_example rx_empty = None"
proof -
  have "chunk_ok rx_empty" "bc_data rx_empty = []" "bc_size rx_empty = 64"
    by (simp_all add: rx_empty_def chunk_ok_def bc_block_def bc_data_def)
  moreover have "length (xfer_frame (lq_write 7)) = 14" "xfer_wf (lq_write 7)"
    using lq_requests(1)[of 7] by (simp_all add: xfer_frame_length lq_write_def write_request_def)
  ultimately show ?thesis
    using conjunct1[OF rxpoll_packet_overreads[of rx_empty "xfer_frame (lq_write 7)" "lq_write 7" "[]" "\<lambda>_. True" "[]" 0 xfer_example 3]]
    by simp
qed

end
